(* ===== verification/Prelude.thy ===== *)
theory Prelude
  imports Main "HOL-Library.Word"
begin

text \<open>
  What every component of the development shares: the machine integer types of
  the kernel, the Rust result type, little-endian encoding of integers in byte
  buffers, slice updates, linear search, and the collections of rewrite rules
  that the component theories extend.

  The kernel is built with the release profile (\<open>run.sh\<close>), so \<open>+\<close>, \<open>-\<close> and \<open>*\<close> on
  the integer types wrap around, as they do on \<^typ>\<open>'a word\<close>; an index out
  of range, a division by zero and an \<open>unwrap\<close> of nothing still panic.
\<close>

unbundle bit_operations_syntax

type_synonym u8 = "8 word"
type_synonym u16 = "16 word"
type_synonym u32 = "32 word"
type_synonym u64 = "64 word"
type_synonym usize = "64 word"

type_synonym ('a, 'e) result = "'e + 'a"

abbreviation Ok :: "'a \<Rightarrow> ('a, 'e) result" where "Ok \<equiv> Inr"
abbreviation Err :: "'e \<Rightarrow> ('a, 'e) result" where "Err \<equiv> Inl"

text \<open>
  A routine either returns or panics (\<open>panic = "abort"\<close>: nothing runs after it, so a
  panic carries no state).
\<close>

datatype 'a outcome = Ret 'a | Panic

fun obind :: "'a outcome \<Rightarrow> ('a \<Rightarrow> 'b outcome) \<Rightarrow> 'b outcome" where
  "obind (Ret a) f = f a"
| "obind Panic f = Panic"

fun returned :: "'a outcome \<Rightarrow> 'a" where
  "returned (Ret a) = a"
| "returned Panic = undefined"

lemma obind_eq_Ret_iff: "obind m f = Ret b \<longleftrightarrow> (\<exists>a. m = Ret a \<and> f a = Ret b)"
  by (cases m) auto

text \<open>The size of the task table (\<open>src/task.rs\<close>), which several components share.\<close>

definition MAX_TASKS :: nat where "MAX_TASKS = 256"

named_theorems kernel_simps "equations of the component operations"
named_theorems inv_intros "preservation of the component invariants"

lemma unat_bound: "unat (w :: 'a::len word) < 2 ^ LENGTH('a)"
  by (rule unsigned_less)

section \<open>Linear search\<close>

text \<open>The shape of \<open>for i in lo..hi { if p(i) { return Some(i) } } None\<close>.\<close>

definition scan :: "(nat \<Rightarrow> bool) \<Rightarrow> nat \<Rightarrow> nat \<Rightarrow> nat option" where
  "scan p lo hi = find p [lo..<hi]"

lemma scan_Some_iff:
  "scan p lo hi = Some i \<longleftrightarrow> lo \<le> i \<and> i < hi \<and> p i \<and> (\<forall>j. lo \<le> j \<and> j < i \<longrightarrow> \<not> p j)"
proof -
  have "find p [lo..<hi] = Some i \<longleftrightarrow>
      (\<exists>k < length [lo..<hi]. p ([lo..<hi] ! k) \<and> i = [lo..<hi] ! k \<and> (\<forall>j<k. \<not> p ([lo..<hi] ! j)))"
    by (rule find_Some_iff)
  also have "\<dots> \<longleftrightarrow> lo \<le> i \<and> i < hi \<and> p i \<and> (\<forall>j. lo \<le> j \<and> j < i \<longrightarrow> \<not> p j)"
  proof (intro iffI)
    assume "\<exists>k < length [lo..<hi]. p ([lo..<hi] ! k) \<and> i = [lo..<hi] ! k \<and> (\<forall>j<k. \<not> p ([lo..<hi] ! j))"
    then obtain k where k: "k < hi - lo" "p (lo + k)" "i = lo + k" "\<forall>j<k. \<not> p (lo + j)" by auto
    have "\<not> p j" if "lo \<le> j" "j < i" for j
      using k(3,4) that by (metis add_diff_inverse_nat less_diff_conv2 linorder_not_le nat_add_left_cancel_less)
    then show "lo \<le> i \<and> i < hi \<and> p i \<and> (\<forall>j. lo \<le> j \<and> j < i \<longrightarrow> \<not> p j)" using k by auto
  next
    assume "lo \<le> i \<and> i < hi \<and> p i \<and> (\<forall>j. lo \<le> j \<and> j < i \<longrightarrow> \<not> p j)"
    then show "\<exists>k < length [lo..<hi]. p ([lo..<hi] ! k) \<and> i = [lo..<hi] ! k \<and> (\<forall>j<k. \<not> p ([lo..<hi] ! j))"
      by (intro exI[of _ "i - lo"]) auto
  qed
  finally show ?thesis by (simp add: scan_def)
qed

lemma scan_None_iff: "scan p lo hi = None \<longleftrightarrow> (\<forall>j. lo \<le> j \<and> j < hi \<longrightarrow> \<not> p j)"
  by (auto simp: scan_def find_None_iff)

lemma scan_SomeD:
  assumes "scan p lo hi = Some i"
  shows "lo \<le> i" "i < hi" "p i"
  using assms by (auto simp: scan_Some_iff)

lemma scan_complete: "\<lbrakk>lo \<le> j; j < hi; p j\<rbrakk> \<Longrightarrow> \<exists>i. scan p lo hi = Some i"
  by (metis not_Some_eq scan_None_iff)

section \<open>Slices\<close>

text \<open>
  \<open>dst[off..off + src.len()].copy_from_slice(src)\<close>; the callers establish that
  the range lies inside the buffer.
\<close>

definition put_slice :: "'a list \<Rightarrow> nat \<Rightarrow> 'a list \<Rightarrow> 'a list" where
  "put_slice dst off src = take off dst @ src @ drop (off + length src) dst"

definition get_slice :: "'a list \<Rightarrow> nat \<Rightarrow> nat \<Rightarrow> 'a list" where
  "get_slice src off n = take n (drop off src)"

lemma length_put_slice [simp]:
  "off + length src \<le> length dst \<Longrightarrow> length (put_slice dst off src) = length dst"
  by (simp add: put_slice_def)

lemma length_get_slice [simp]:
  "off + n \<le> length src \<Longrightarrow> length (get_slice src off n) = n"
  by (simp add: get_slice_def)

lemma nth_put_slice:
  assumes "off + length src \<le> length dst" "i < length dst"
  shows "put_slice dst off src ! i =
    (if off \<le> i \<and> i < off + length src then src ! (i - off) else dst ! i)"
  using assms by (auto simp: put_slice_def nth_append min_def)

lemma get_put_slice_same [simp]:
  "off + length src \<le> length dst \<Longrightarrow> get_slice (put_slice dst off src) off (length src) = src"
  by (simp add: put_slice_def get_slice_def)

lemma nth_get_slice [simp]:
  "\<lbrakk>off + n \<le> length src; i < n\<rbrakk> \<Longrightarrow> get_slice src off n ! i = src ! (off + i)"
  by (simp add: get_slice_def)

lemma get_put_slice_other:
  assumes "off + length src \<le> length dst" "o2 + n \<le> length dst"
    "o2 + n \<le> off \<or> off + length src \<le> o2"
  shows "get_slice (put_slice dst off src) o2 n = get_slice dst o2 n"
  using assms by (intro nth_equalityI) (auto simp: nth_put_slice)

lemma put_slice_append:
  "off + length xs + length ys \<le> length b \<Longrightarrow> put_slice (put_slice b off xs) (off + length xs) ys = put_slice b off (xs @ ys)"
  by (simp add: put_slice_def ac_simps)

lemma put_slice_Nil [simp]: "put_slice b off [] = b"
  by (simp add: put_slice_def)

section \<open>Little-endian integers\<close>

fun le_bytes :: "nat \<Rightarrow> nat \<Rightarrow> u8 list" where
  "le_bytes 0 v = []"
| "le_bytes (Suc k) v = of_nat v # le_bytes k (v div 256)"

fun le_nat :: "u8 list \<Rightarrow> nat" where
  "le_nat [] = 0"
| "le_nat (b # bs) = unat b + 256 * le_nat bs"

lemma length_le_bytes [simp]: "length (le_bytes k v) = k"
  by (induction k arbitrary: v) auto

lemma unat_of_nat_u8: "unat (of_nat v :: u8) = v mod 256"
  by (simp add: unat_of_nat)

lemma le_nat_le_bytes: "le_nat (le_bytes k v) = v mod 256 ^ k"
proof (induction k arbitrary: v)
  case 0
  then show ?case by simp
next
  case (Suc k)
  have "v mod 256 ^ Suc k = v mod (256 * 256 ^ k)" by simp
  also have "\<dots> = 256 * (v div 256 mod 256 ^ k) + v mod 256" by (rule mod_mult2_eq)
  finally show ?case using Suc by (simp add: unat_of_nat_u8)
qed

lemma le_nat_less: "le_nat bs < 256 ^ length bs"
proof (induction bs)
  case (Cons b bs)
  have "unat b < 256" using unat_bound[of b] by simp
  then show ?case using Cons by simp
qed simp

lemma le_bytes_le_nat: "le_bytes (length bs) (le_nat bs) = bs"
proof (induction bs)
  case (Cons b bs)
  have b: "unat b < 256" using unat_bound[of b] by simp
  have "(256 :: u8) = 0" by simp
  then have "(256 :: u8) * of_nat (le_nat bs) = 0" by (simp only: mult_zero_left)
  then have "(of_nat (unat b + 256 * le_nat bs) :: u8) = b" by simp
  moreover have "(unat b + 256 * le_nat bs) div 256 = le_nat bs" using b by simp
  ultimately show ?case using Cons by simp
qed simp

definition get_u16 :: "u8 list \<Rightarrow> nat \<Rightarrow> u16" where
  "get_u16 bs off = of_nat (le_nat (get_slice bs off 2))"

definition get_u32 :: "u8 list \<Rightarrow> nat \<Rightarrow> u32" where
  "get_u32 bs off = of_nat (le_nat (get_slice bs off 4))"

definition get_u64 :: "u8 list \<Rightarrow> nat \<Rightarrow> u64" where
  "get_u64 bs off = of_nat (le_nat (get_slice bs off 8))"

definition put_u16 :: "u8 list \<Rightarrow> nat \<Rightarrow> u16 \<Rightarrow> u8 list" where
  "put_u16 bs off v = put_slice bs off (le_bytes 2 (unat v))"

definition put_u32 :: "u8 list \<Rightarrow> nat \<Rightarrow> u32 \<Rightarrow> u8 list" where
  "put_u32 bs off v = put_slice bs off (le_bytes 4 (unat v))"

definition put_u64 :: "u8 list \<Rightarrow> nat \<Rightarrow> u64 \<Rightarrow> u8 list" where
  "put_u64 bs off v = put_slice bs off (le_bytes 8 (unat v))"

lemma get_put_bytes_same:
  assumes "off + k \<le> length bs"
  shows "get_slice (put_slice bs off (le_bytes k v)) off k = le_bytes k v"
  using assms get_put_slice_same[of off "le_bytes k v" bs] by simp

lemma get_put_u16_same [simp]: "off + 2 \<le> length bs \<Longrightarrow> get_u16 (put_u16 bs off v) off = v"
  using unat_bound[of v]
  by (simp add: get_u16_def put_u16_def get_put_bytes_same le_nat_le_bytes del: le_bytes.simps le_nat.simps)

lemma get_put_u32_same [simp]: "off + 4 \<le> length bs \<Longrightarrow> get_u32 (put_u32 bs off v) off = v"
  using unat_bound[of v]
  by (simp add: get_u32_def put_u32_def get_put_bytes_same le_nat_le_bytes del: le_bytes.simps le_nat.simps)

lemma get_put_u64_same [simp]: "off + 8 \<le> length bs \<Longrightarrow> get_u64 (put_u64 bs off v) off = v"
  using unat_bound[of v]
  by (simp add: get_u64_def put_u64_def get_put_bytes_same le_nat_le_bytes del: le_bytes.simps le_nat.simps)

lemma length_put_uint [simp]:
  "off + 2 \<le> length bs \<Longrightarrow> length (put_u16 bs off v16) = length bs"
  "off + 4 \<le> length bs \<Longrightarrow> length (put_u32 bs off v32) = length bs"
  "off + 8 \<le> length bs \<Longrightarrow> length (put_u64 bs off v64) = length bs"
  by (simp_all add: put_u16_def put_u32_def put_u64_def)

section \<open>Machine words\<close>

lemma unat_plus_simple_le:
  fixes a b :: "'a::len word"
  assumes "unat a + unat b < 2 ^ LENGTH('a)"
  shows "unat (a + b) = unat a + unat b"
  using assms by (simp add: unat_word_ariths)

lemma unat_pow2:
  assumes "k < LENGTH('a)"
  shows "unat (2 ^ k :: 'a::len word) = 2 ^ k"
proof -
  have "(2 :: nat) ^ k < 2 ^ LENGTH('a)" using assms by (intro power_strict_increasing) auto
  then have "unat (of_nat (2 ^ k) :: 'a word) = 2 ^ k" by (subst unat_of_nat) simp
  then show ?thesis by simp
qed

lemma unat_u64_less: "unat (w :: u64) < 18446744073709551616"
  using unat_bound[of w] by simp

lemma unat_u32_less: "unat (w :: u32) < 4294967296"
  using unat_bound[of w] by simp

lemma and_not_mask_unat:
  fixes x :: usize
  shows "unat (x AND NOT (2 ^ k - 1)) = unat x div 2 ^ k * 2 ^ k"
proof -
  have m: "(2 ^ k - 1 :: usize) = mask k" by (simp add: mask_eq_exp_minus_1)
  have "x AND NOT (mask k) = x - take_bit k x"
    by (subst disjunctive_diff) (auto simp: bit_simps take_bit_eq_mask bit_eq_iff)
  moreover have "take_bit k x \<le> x"
    by (simp add: word_le_nat_alt unsigned_take_bit_eq take_bit_nat_less_eq_self)
  moreover have "unat (take_bit k x) = unat x mod 2 ^ k"
    by (subst unsigned_take_bit_eq) (rule take_bit_eq_mod)
  ultimately have "unat (x AND NOT (2 ^ k - 1)) = unat x - unat x mod 2 ^ k"
    unfolding m by (simp only: unat_sub)
  then show ?thesis by (simp add: minus_mod_eq_div_mult)
qed

lemma page_base_unat: "unat ((x :: usize) AND NOT 0xFFF) = unat x div 4096 * 4096"
  using and_not_mask_unat[of x 12] by simp

end
