(* ===== verification/Ring_Queue.thy ===== *)
theory Ring_Queue
  imports Prelude
begin

text \<open>
  The contract of the kernel's fixed-size queues.  \<open>bounded_fifo\<close> is what a
  client sees: a queue of at most \<open>cap\<close> elements that refuses an element when
  full and hands elements out in arrival order.  \<open>ring\<close> is what an array with a
  head index, a tail index and a count provides; every \<open>ring\<close> is a
  \<open>bounded_fifo\<close>.  The event queue and the work queue are interpretations.
\<close>

section \<open>Driving a queue\<close>

fun put_all :: "('a \<Rightarrow> 's \<Rightarrow> ((unit, unit) result \<times> 's) outcome) \<Rightarrow> 'a list \<Rightarrow> 's \<Rightarrow> 's outcome" where
  "put_all put [] s = Ret s"
| "put_all put (x # xs) s = obind (put x s) (\<lambda>(_, s'). put_all put xs s')"

fun get_n :: "('s \<Rightarrow> ('a option \<times> 's) outcome) \<Rightarrow> nat \<Rightarrow> 's \<Rightarrow> ('a option list \<times> 's) outcome" where
  "get_n get 0 s = Ret ([], s)"
| "get_n get (Suc n) s = obind (get s) (\<lambda>(x, s'). obind (get_n get n s') (\<lambda>(xs, s''). Ret (x # xs, s'')))"

section \<open>The client's view\<close>

locale bounded_fifo =
  fixes cap :: nat
    and inv :: "'s \<Rightarrow> bool"
    and abs :: "'s \<Rightarrow> 'a list"
    and put :: "'a \<Rightarrow> 's \<Rightarrow> ((unit, unit) result \<times> 's) outcome"
    and get :: "'s \<Rightarrow> ('a option \<times> 's) outcome"
  assumes bounded: "inv s \<Longrightarrow> length (abs s) \<le> cap"
    and put_full: "inv s \<Longrightarrow> length (abs s) = cap \<Longrightarrow> put x s = Ret (Err (), s)"
    and put_room: "inv s \<Longrightarrow> length (abs s) < cap \<Longrightarrow>
      \<exists>s'. put x s = Ret (Ok (), s') \<and> inv s' \<and> abs s' = abs s @ [x]"
    and get_empty: "inv s \<Longrightarrow> abs s = [] \<Longrightarrow> get s = Ret (None, s)"
    and get_cons: "inv s \<Longrightarrow> abs s = x # xs \<Longrightarrow>
      \<exists>s'. get s = Ret (Some x, s') \<and> inv s' \<and> abs s' = xs"
begin

lemma put_cases:
  assumes "inv s"
  obtains (full) "length (abs s) = cap" "put x s = Ret (Err (), s)"
  | (room) s' where "length (abs s) < cap" "put x s = Ret (Ok (), s')" "inv s'" "abs s' = abs s @ [x]"
proof (cases "length (abs s) = cap")
  case True
  then show ?thesis using put_full[OF assms] that(1) by blast
next
  case False
  then have "length (abs s) < cap" using bounded[OF assms] by simp
  then show ?thesis using put_room[OF assms] that(2) by blast
qed

lemma put_all_refines:
  "inv s \<Longrightarrow> \<exists>s'. put_all put xs s = Ret s' \<and> inv s' \<and> abs s' = take cap (abs s @ xs)"
proof (induction xs arbitrary: s)
  case Nil
  then show ?case using bounded by simp
next
  case (Cons x xs)
  show ?case using Cons.prems
  proof (cases rule: put_cases[where x = x])
    case full
    then show ?thesis using Cons.IH[OF Cons.prems] by simp
  next
    case (room s')
    then show ?thesis using Cons.IH[OF room(3)] by simp
  qed
qed

lemma get_n_refines:
  "inv s \<Longrightarrow> \<exists>s'. get_n get n s = Ret (map Some (take n (abs s)) @ replicate (n - length (abs s)) None, s')
     \<and> inv s' \<and> abs s' = drop n (abs s)"
proof (induction n arbitrary: s)
  case 0
  then show ?case by simp
next
  case (Suc n)
  show ?case
  proof (cases "abs s")
    case Nil
    then show ?thesis using get_empty[OF Suc.prems] Suc.IH[OF Suc.prems] by auto
  next
    case (Cons x xs)
    then obtain s1 where s1: "get s = Ret (Some x, s1)" "inv s1" "abs s1 = xs"
      using get_cons[OF Suc.prems] by blast
    then show ?thesis using Suc.IH[OF s1(2)] Cons by auto
  qed
qed

lemma fifo_round_trip:
  assumes "inv s" "abs s = []" "length xs \<le> cap"
  shows "\<exists>s'. obind (put_all put xs s) (get_n get (length xs)) = Ret (map Some xs, s') \<and> inv s' \<and> abs s' = []"
proof -
  obtain s1 where s1: "put_all put xs s = Ret s1" "inv s1" "abs s1 = xs"
    using put_all_refines[OF assms(1), of xs] assms(2,3) by auto
  show ?thesis using get_n_refines[OF s1(2), of "length xs"] s1 by auto
qed

end

section \<open>An array with head, tail and count\<close>

definition ring_inv :: "nat \<Rightarrow> 'a option list \<Rightarrow> nat \<Rightarrow> nat \<Rightarrow> nat \<Rightarrow> bool" where
  "ring_inv N sl h t c \<longleftrightarrow> length sl = N \<and> t < N \<and> c \<le> N \<and> h = (t + c) mod N \<and>
     (\<forall>i<c. sl ! ((t + i) mod N) \<noteq> None)"

definition ring_abs :: "nat \<Rightarrow> 'a option list \<Rightarrow> nat \<Rightarrow> nat \<Rightarrow> 'a list" where
  "ring_abs N sl t c = map (\<lambda>i. the (sl ! ((t + i) mod N))) [0..<c]"

lemma length_ring_abs [simp]: "length (ring_abs N sl t c) = c"
  by (simp add: ring_abs_def)

lemma ring_index_le:
  assumes "(t + i) mod N = (t + j) mod N" "i \<le> j" "j < (N :: nat)"
  shows "i = j"
proof -
  have "N dvd j - i" using mod_eq_dvd_iff_nat[of "t + i" "t + j" N] assms by simp
  then have "\<not> 0 < j - i" using nat_dvd_not_less[of "j - i" N] assms(3) by (meson less_imp_diff_less)
  then show ?thesis using assms(2) by simp
qed

lemma ring_index_inj:
  assumes "(t + i) mod N = (t + j) mod N" "i < N" "j < (N :: nat)"
  shows "i = j"
  using assms ring_index_le[of t i N j] ring_index_le[of t j N i] by (metis linorder_le_cases)

lemma ring_put_inv:
  assumes "ring_inv N sl h t c" "c < N"
  shows "ring_inv N (sl[h := Some x]) ((h + 1) mod N) t (c + 1)"
  using assms by (auto simp: ring_inv_def nth_list_update mod_Suc_eq less_Suc_eq)

lemma ring_put_abs:
  assumes "ring_inv N sl h t c" "c < N"
  shows "ring_abs N (sl[h := Some x]) t (c + 1) = ring_abs N sl t c @ [x]"
proof -
  have h: "h = (t + c) mod N" "h < length sl" using assms by (auto simp: ring_inv_def)
  have "(sl[h := Some x]) ! ((t + i) mod N) = sl ! ((t + i) mod N)" if "i < c" for i
    using ring_index_inj[of t i N c] that assms(2) h by (auto simp: nth_list_update)
  then show ?thesis using h by (auto simp: ring_abs_def)
qed

lemma ring_get_inv:
  assumes "ring_inv N sl h t c" "0 < c"
  shows "ring_inv N (sl[t := None]) h ((t + 1) mod N) (c - 1)"
proof -
  have "(sl[t := None]) ! (((t + 1) mod N + i) mod N) \<noteq> None" if "i < c - 1" for i
  proof -
    have eq: "((t + 1) mod N + i) mod N = (t + Suc i) mod N" by (simp add: mod_add_left_eq)
    have "Suc i < N" "t < N" using that assms by (auto simp: ring_inv_def)
    then have "(t + Suc i) mod N \<noteq> t" using ring_index_inj[of t "Suc i" N 0] by auto
    moreover have "sl ! ((t + Suc i) mod N) \<noteq> None"
      using that assms unfolding ring_inv_def by (metis Suc_eq_plus1 less_diff_conv)
    ultimately show ?thesis using eq by simp
  qed
  moreover have "h = ((t + 1) mod N + (c - 1)) mod N"
    using assms mod_add_left_eq[of "t + 1" N "c - 1"] by (simp add: ring_inv_def)
  ultimately show ?thesis using assms by (auto simp: ring_inv_def)
qed

lemma ring_get_abs:
  assumes "ring_inv N sl h t c" "0 < c"
  shows "ring_abs N sl t c = the (sl ! t) # ring_abs N (sl[t := None]) ((t + 1) mod N) (c - 1)"
    and "sl ! t \<noteq> None"
proof -
  have t: "t < N" "c \<le> N" using assms by (auto simp: ring_inv_def)
  have *: "(sl[t := None]) ! (((t + 1) mod N + i) mod N) = sl ! ((t + Suc i) mod N)" if "i < c - 1" for i
  proof -
    have eq: "((t + 1) mod N + i) mod N = (t + Suc i) mod N" by (simp add: mod_add_left_eq)
    have "Suc i < N" using that t by simp
    then have "(t + Suc i) mod N \<noteq> t" using ring_index_inj[of t "Suc i" N 0] t by auto
    then show ?thesis using eq by simp
  qed
  have "[0..<c] = 0 # map Suc [0..<c - 1]" using assms(2) by (simp add: map_Suc_upt upt_conv_Cons)
  then show "ring_abs N sl t c = the (sl ! t) # ring_abs N (sl[t := None]) ((t + 1) mod N) (c - 1)"
    using t * by (simp add: ring_abs_def)
  have "sl ! ((t + 0) mod N) \<noteq> None" using assms unfolding ring_inv_def by blast
  then show "sl ! t \<noteq> None" using t by simp
qed

locale ring =
  fixes N :: nat
    and slots :: "'s \<Rightarrow> 'a option list"
    and head tail cnt :: "'s \<Rightarrow> nat"
    and put :: "'a \<Rightarrow> 's \<Rightarrow> ((unit, unit) result \<times> 's) outcome"
    and get :: "'s \<Rightarrow> ('a option \<times> 's) outcome"
  assumes put_refuses: "N \<le> cnt s \<Longrightarrow> put x s = Ret (Err (), s)"
    and put_stores: "\<lbrakk>cnt s < N; head s < N\<rbrakk> \<Longrightarrow> \<exists>s'. put x s = Ret (Ok (), s') \<and>
      slots s' = (slots s)[head s := Some x] \<and> head s' = (head s + 1) mod N \<and>
      tail s' = tail s \<and> cnt s' = cnt s + 1"
    and get_nothing: "cnt s = 0 \<Longrightarrow> get s = Ret (None, s)"
    and get_takes: "\<lbrakk>0 < cnt s; tail s < N; length (slots s) = N\<rbrakk> \<Longrightarrow> \<exists>s'. get s = Ret (slots s ! tail s, s') \<and>
      slots s' = (slots s)[tail s := None] \<and> head s' = head s \<and>
      tail s' = (tail s + 1) mod N \<and> cnt s' = cnt s - 1"

sublocale ring \<subseteq> bounded_fifo N "\<lambda>s. ring_inv N (slots s) (head s) (tail s) (cnt s)"
  "\<lambda>s. ring_abs N (slots s) (tail s) (cnt s)" put get
proof (unfold_locales, goal_cases)
  case (1 s)
  then show ?case by (simp add: ring_inv_def)
next
  case (2 s x)
  then show ?case using put_refuses by simp
next
  case (3 s x)
  then have "cnt s < N" "head s < N" by (auto simp: ring_inv_def)
  then obtain s' where s': "put x s = Ret (Ok (), s')" "slots s' = (slots s)[head s := Some x]"
      "head s' = (head s + 1) mod N" "tail s' = tail s" "cnt s' = cnt s + 1"
    using put_stores by blast
  then show ?case using ring_put_inv[OF 3(1), of x] ring_put_abs[OF 3(1), of x] 3 by simp
next
  case (4 s)
  then have "length (ring_abs N (slots s) (tail s) (cnt s)) = 0" by simp
  then show ?case using get_nothing by simp
next
  case (5 s x xs)
  have c: "0 < cnt s" using 5(2) by (metis length_ring_abs length_greater_0_conv list.distinct(1))
  have "tail s < N" "length (slots s) = N" using 5 by (auto simp: ring_inv_def)
  then obtain s' where s': "get s = Ret (slots s ! tail s, s')" "slots s' = (slots s)[tail s := None]"
      "head s' = head s" "tail s' = (tail s + 1) mod N" "cnt s' = cnt s - 1"
    using get_takes[OF c] by blast
  have "slots s ! tail s = Some x" "xs = ring_abs N (slots s') (tail s') (cnt s')"
    using ring_get_abs[OF 5(1) c] 5(2) s' by auto
  then show ?case using s' ring_get_inv[OF 5(1) c] by simp
qed

end
