(* ===== verification/Events.thy ===== *)
theory Events
  imports Ring_Queue
begin

text \<open>
  The kernel event queue (\<open>src/events.rs\<close>): a ring of 128 slots with a head, a
  tail and a count, all guarded by one lock, and the loop that drains it.
\<close>

section \<open>State and operations\<close>

datatype EventType = Keyboard | Timer | Disk | Network | Power | Custom u8

record Event =
  event_type :: EventType
  data0 :: usize
  data1 :: usize

definition EVENT_QUEUE_SIZE :: nat where
  "EVENT_QUEUE_SIZE = 128"

record event_state =
  EVENT_QUEUE :: "Event option list"
  EVENT_HEAD :: nat
  EVENT_TAIL :: nat
  EVENT_COUNT :: nat

definition event_boot :: event_state where
  "event_boot = \<lparr>EVENT_QUEUE = replicate EVENT_QUEUE_SIZE None,
     EVENT_HEAD = 0, EVENT_TAIL = 0, EVENT_COUNT = 0\<rparr>"

definition push_event :: "Event \<Rightarrow> event_state \<Rightarrow> ((unit, unit) result \<times> event_state) outcome" where
  "push_event event s =
    (if EVENT_COUNT s \<ge> EVENT_QUEUE_SIZE then Ret (Err (), s)
     else if EVENT_HEAD s \<ge> EVENT_QUEUE_SIZE then Panic
     else Ret (Ok (), s\<lparr>EVENT_QUEUE := (EVENT_QUEUE s)[EVENT_HEAD s := Some event],
       EVENT_HEAD := (EVENT_HEAD s + 1) mod EVENT_QUEUE_SIZE,
       EVENT_COUNT := EVENT_COUNT s + 1\<rparr>))"

definition pop_event :: "event_state \<Rightarrow> (Event option \<times> event_state) outcome" where
  "pop_event s =
    (if EVENT_COUNT s = 0 then Ret (None, s)
     else if EVENT_TAIL s \<ge> EVENT_QUEUE_SIZE then Panic
     else Ret (EVENT_QUEUE s ! EVENT_TAIL s, s\<lparr>EVENT_QUEUE := (EVENT_QUEUE s)[EVENT_TAIL s := None],
       EVENT_TAIL := (EVENT_TAIL s + 1) mod EVENT_QUEUE_SIZE,
       EVENT_COUNT := EVENT_COUNT s - 1\<rparr>))"

definition pending_count :: "event_state \<Rightarrow> nat" where
  "pending_count s = EVENT_COUNT s"

text \<open>
  The arms of the \<open>match\<close> in \<open>process_events\<close>: the arguments of the \<open>trace!\<close> call an
  event causes; a timer event causes none.
\<close>

datatype trace_call = TraceKeyboard usize | TraceDisk usize | TraceNetwork usize
  | TracePower usize | TraceCustom u8 usize

definition event_arm :: "Event \<Rightarrow> trace_call list" where
  "event_arm event = (case event_type event of
      Keyboard \<Rightarrow> [TraceKeyboard (data0 event)]
    | Timer \<Rightarrow> []
    | Disk \<Rightarrow> [TraceDisk (data0 event)]
    | Network \<Rightarrow> [TraceNetwork (data0 event)]
    | Power \<Rightarrow> [TracePower (data0 event)]
    | Custom n \<Rightarrow> [TraceCustom n (data0 event)])"

function process_events :: "event_state \<Rightarrow> (trace_call list \<times> event_state) outcome" where
  "process_events s = (case pop_event s of
      Panic \<Rightarrow> Panic
    | Ret (None, s') \<Rightarrow> Ret ([], s')
    | Ret (Some event, s') \<Rightarrow>
        obind (process_events s') (\<lambda>(out, s''). Ret (event_arm event @ out, s'')))"
  by pat_completeness auto
termination
  by (relation "measure EVENT_COUNT") (auto simp: pop_event_def split: if_splits)

declare process_events.simps [simp del]

section \<open>The queue contract\<close>

definition event_inv :: "event_state \<Rightarrow> bool" where
  "event_inv s = ring_inv EVENT_QUEUE_SIZE (EVENT_QUEUE s) (EVENT_HEAD s) (EVENT_TAIL s) (EVENT_COUNT s)"

definition pending_events :: "event_state \<Rightarrow> Event list" where
  "pending_events s = ring_abs EVENT_QUEUE_SIZE (EVENT_QUEUE s) (EVENT_TAIL s) (EVENT_COUNT s)"

interpretation evq: ring EVENT_QUEUE_SIZE EVENT_QUEUE EVENT_HEAD EVENT_TAIL EVENT_COUNT push_event pop_event
  by unfold_locales (auto simp: push_event_def pop_event_def)

lemmas event_folds = event_inv_def[symmetric] pending_events_def[symmetric]

lemma event_boot_inv [inv_intros]: "event_inv event_boot"
  by (simp add: event_inv_def event_boot_def ring_inv_def EVENT_QUEUE_SIZE_def)

lemma pending_event_boot [simp]: "pending_events event_boot = []"
  by (simp add: pending_events_def event_boot_def ring_abs_def)

lemma pending_count_length: "pending_count s = length (pending_events s)"
  by (simp add: pending_count_def pending_events_def)

text \<open>
  \<open>process_events\<close> hands every pending event, in arrival order, to its arm and
  leaves the queue empty.
\<close>

lemma process_events_drains:
  "event_inv s \<Longrightarrow> \<exists>s'. process_events s = Ret (concat (map event_arm (pending_events s)), s')
     \<and> event_inv s' \<and> pending_events s' = []"
proof (induction "pending_events s" arbitrary: s)
  case Nil
  then have "pop_event s = Ret (None, s)" using evq.get_empty[of s, unfolded event_folds] by simp
  then show ?case using Nil by (auto simp: process_events.simps[of s])
next
  case (Cons x xs)
  then obtain s1 where s1: "pop_event s = Ret (Some x, s1)" "event_inv s1" "pending_events s1 = xs"
    using evq.get_cons[of s x xs, unfolded event_folds] by metis
  obtain s2 where s2: "process_events s1 = Ret (concat (map event_arm xs), s2)"
      "event_inv s2" "pending_events s2 = []"
    using Cons.hyps(1)[of s1] s1 by auto
  then show ?case using Cons.hyps(2)[symmetric] s1 by (auto simp: process_events.simps[of s])
qed


end
