(* ===== verification/Workqueue.thy ===== *)
theory Workqueue
  imports Ring_Queue
begin

text \<open>
  The deferred-work queue (\<open>src/workqueue.rs\<close>): a ring of 64 slots of function
  pointers with an argument.  What a work function does is a parameter \<open>call\<close> of
  the model: it receives the queue (it may submit further work) and the rest of
  the kernel's state.  Because a work function may resubmit itself,
  \<open>process_work\<close> need not return; not returning is \<open>None\<close>.
\<close>

section \<open>State and operations\<close>

record 'f WorkItem =
  func :: 'f
  arg :: usize

definition WORK_QUEUE_SIZE :: nat where
  "WORK_QUEUE_SIZE = 64"

record 'f work_state =
  WORK_QUEUE :: "'f WorkItem option list"
  WORK_HEAD :: nat
  WORK_TAIL :: nat
  WORK_COUNT :: nat

definition work_boot :: "'f work_state" where
  "work_boot = \<lparr>WORK_QUEUE = replicate WORK_QUEUE_SIZE None,
     WORK_HEAD = 0, WORK_TAIL = 0, WORK_COUNT = 0\<rparr>"

definition submit :: "'f WorkItem \<Rightarrow> 'f work_state \<Rightarrow> ((unit, unit) result \<times> 'f work_state) outcome" where
  "submit item s =
    (if WORK_COUNT s \<ge> WORK_QUEUE_SIZE then Ret (Err (), s)
     else if WORK_HEAD s \<ge> WORK_QUEUE_SIZE then Panic
     else Ret (Ok (), s\<lparr>WORK_QUEUE := (WORK_QUEUE s)[WORK_HEAD s := Some item],
       WORK_HEAD := (WORK_HEAD s + 1) mod WORK_QUEUE_SIZE,
       WORK_COUNT := WORK_COUNT s + 1\<rparr>))"

text \<open>The block of \<open>process_work\<close> that runs under the lock.\<close>

definition take_work :: "'f work_state \<Rightarrow> ('f WorkItem option \<times> 'f work_state) outcome" where
  "take_work s =
    (if WORK_COUNT s = 0 then Ret (None, s)
     else let t = WORK_TAIL s in
       if t \<ge> WORK_QUEUE_SIZE then Panic
       else Ret (WORK_QUEUE s ! t, s\<lparr>WORK_QUEUE := (WORK_QUEUE s)[t := None],
         WORK_TAIL := (t + 1) mod WORK_QUEUE_SIZE,
         WORK_COUNT := WORK_COUNT s - 1\<rparr>))"

partial_function (option) process_work ::
    "('f \<Rightarrow> usize \<Rightarrow> 'f work_state \<Rightarrow> 'k \<Rightarrow> 'f work_state \<times> 'k) \<Rightarrow> 'f work_state \<Rightarrow> 'k
     \<Rightarrow> ('f work_state \<times> 'k) outcome option" where
  [code]: "process_work call s k =
    (if WORK_COUNT s = 0 then Some (Ret (s, k))
     else case take_work s of
       Panic \<Rightarrow> Some Panic
     | Ret (None, s') \<Rightarrow> process_work call s' k
     | Ret (Some work, s') \<Rightarrow>
         (let (s'', k') = call (func work) (arg work) s' k in process_work call s'' k'))"

definition work_pending_count :: "'f work_state \<Rightarrow> nat" where
  "work_pending_count s = WORK_COUNT s"

section \<open>The queue contract\<close>

definition work_inv :: "'f work_state \<Rightarrow> bool" where
  "work_inv s = ring_inv WORK_QUEUE_SIZE (WORK_QUEUE s) (WORK_HEAD s) (WORK_TAIL s) (WORK_COUNT s)"

definition pending_work :: "'f work_state \<Rightarrow> 'f WorkItem list" where
  "pending_work s = ring_abs WORK_QUEUE_SIZE (WORK_QUEUE s) (WORK_TAIL s) (WORK_COUNT s)"

interpretation wkq: ring WORK_QUEUE_SIZE WORK_QUEUE WORK_HEAD WORK_TAIL WORK_COUNT submit take_work
  by unfold_locales (auto simp: submit_def take_work_def Let_def)

lemmas work_folds = work_inv_def[symmetric] pending_work_def[symmetric]

lemma work_boot_inv [inv_intros]: "work_inv work_boot"
  by (simp add: work_inv_def work_boot_def ring_inv_def WORK_QUEUE_SIZE_def)

lemma pending_work_boot [simp]: "pending_work work_boot = []"
  by (simp add: pending_work_def work_boot_def ring_abs_def)

lemma work_count_pending: "WORK_COUNT s = length (pending_work s)"
  by (simp add: pending_work_def)

text \<open>One round of the loop on a queue that holds work.\<close>

lemma process_work_step:
  assumes "work_inv s" "pending_work s = w # ws"
  obtains s' where "take_work s = Ret (Some w, s')" "work_inv s'" "pending_work s' = ws"
    "process_work call s k =
      (let (s'', k') = call (func w) (arg w) s' k in process_work call s'' k')"
proof -
  obtain s' where s': "take_work s = Ret (Some w, s')" "work_inv s'" "pending_work s' = ws"
    using wkq.get_cons[of s w ws, unfolded work_folds] assms by metis
  moreover have "WORK_COUNT s \<noteq> 0" using assms(2) by (simp add: work_count_pending)
  ultimately show ?thesis using that by (simp add: process_work.simps[of call s k])
qed

text \<open>
  When the work functions leave the queue alone, \<open>process_work\<close> returns, having
  called every pending item once, in the order of submission.
\<close>

lemma process_work_runs_all:
  assumes quiet: "\<And>f a q k. call f a q k = (q, eff f a k)"
  shows "work_inv s \<Longrightarrow> \<exists>s'. process_work call s k =
      Some (Ret (s', fold (\<lambda>w. eff (func w) (arg w)) (pending_work s) k))
      \<and> work_inv s' \<and> pending_work s' = []"
proof (induction "pending_work s" arbitrary: s k)
  case Nil
  then have "WORK_COUNT s = 0" by (simp add: work_count_pending)
  then show ?case using Nil by (simp add: process_work.simps[of call s k])
next
  case (Cons w ws)
  obtain s1 where s1: "work_inv s1" "pending_work s1 = ws"
      "process_work call s k =
        (let (s'', k') = call (func w) (arg w) s1 k in process_work call s'' k')"
    using process_work_step[OF Cons.prems Cons.hyps(2)[symmetric], of call k] by blast
  show ?case
    using Cons.hyps(1)[OF s1(2)[symmetric] s1(1), of "eff (func w) (arg w) k"]
      s1 Cons.hyps(2)[symmetric] by (simp add: quiet)
qed

text \<open>
  A work function that submits itself again keeps the loop running for ever:
  the queue is never seen empty.
\<close>

definition resubmit :: "'f \<Rightarrow> usize \<Rightarrow> 'f work_state \<Rightarrow> 'k \<Rightarrow> 'f work_state \<times> 'k" where
  "resubmit f a q k = (case submit \<lparr>func = f, arg = a\<rparr> q of Ret (_, q') \<Rightarrow> (q', k) | Panic \<Rightarrow> (q, k))"

lemma resubmit_keeps_pending:
  assumes "work_inv q"
  shows "work_inv (fst (resubmit f a q k))" "pending_work (fst (resubmit f a q k)) \<noteq> []"
proof -
  have "work_inv (fst (resubmit f a q k)) \<and> pending_work (fst (resubmit f a q k)) \<noteq> []"
    using assms
  proof (cases rule: wkq.put_cases[where x = "\<lparr>func = f, arg = a\<rparr>", unfolded work_folds, consumes 1, case_names full room])
    case full
    then show ?thesis using assms by (auto simp: resubmit_def WORK_QUEUE_SIZE_def)
  next
    case (room s')
    then show ?thesis by (auto simp: resubmit_def)
  qed
  then show "work_inv (fst (resubmit f a q k))" "pending_work (fst (resubmit f a q k)) \<noteq> []" by auto
qed

lemma process_work_resubmit_never_returns:
  assumes "work_inv s" "pending_work s \<noteq> []"
  shows "process_work resubmit s k = None"
proof -
  have "call = resubmit \<longrightarrow> work_inv s \<longrightarrow> pending_work s = []"
    if "process_work call s k = Some r" for call :: "'a \<Rightarrow> usize \<Rightarrow> 'a work_state \<Rightarrow> 'b \<Rightarrow> 'a work_state \<times> 'b" and s k r
    using that
  proof (rule process_work.raw_induct[where P = "\<lambda>call s k r. call = resubmit \<longrightarrow> work_inv s \<longrightarrow> pending_work s = []", rotated])
    fix pw and call :: "'a \<Rightarrow> usize \<Rightarrow> 'a work_state \<Rightarrow> 'b \<Rightarrow> 'a work_state \<times> 'b" and s k r
    assume IH: "\<And>c q k r. pw c q k = Some r \<Longrightarrow> c = resubmit \<longrightarrow> work_inv q \<longrightarrow> pending_work q = []"
      and step: "(if WORK_COUNT s = 0 then Some (Ret (s, k))
        else case take_work s of Ret (None, s') \<Rightarrow> pw call s' k
           | Ret (Some work, s') \<Rightarrow> let (s'', k') = call (func work) (arg work) s' k in pw call s'' k'
           | Panic \<Rightarrow> Some Panic) = Some r"
    show "call = resubmit \<longrightarrow> work_inv s \<longrightarrow> pending_work s = []"
    proof (intro impI, rule ccontr)
      assume a: "call = resubmit" "work_inv s" and ne: "pending_work s \<noteq> []"
      then obtain w ws where w: "pending_work s = w # ws" by (cases "pending_work s") auto
      obtain s1 where s1: "take_work s = Ret (Some w, s1)" "work_inv s1"
        by (rule process_work_step[OF a(2) w])
      have "WORK_COUNT s \<noteq> 0" using ne by (simp add: work_count_pending)
      then have "pw resubmit (fst (resubmit (func w) (arg w) s1 k)) (snd (resubmit (func w) (arg w) s1 k)) = Some r"
        using step a(1) s1(1) by (simp add: case_prod_beta)
      from IH[OF this] show False by (simp add: resubmit_keeps_pending[OF s1(2)])
    qed
  qed
  then show ?thesis using assms by (cases "process_work resubmit s k") blast+
qed



end
