(* ===== verification/Spinlock.thy ===== *)
theory Spinlock
  imports Prelude
begin

text \<open>
  The ticket lock of \<open>src/spinlock.rs\<close>.  The first part runs \<open>lock\<close>, \<open>try_lock\<close> and
  the guard's \<open>drop\<close> on one processor.  The second part interleaves them between
  \<open>n\<close> threads: each atomic access of the source is one step of \<open>lock_step\<close>, taken
  in some total order.  The 32-bit counters wrap; the proofs need fewer than
  \<open>2 ^ 32\<close> threads.
\<close>

section \<open>The lock on one processor\<close>

record SpinLock =
  ticket :: u32
  next_ticket :: u32

definition spinlock_new :: SpinLock where
  "spinlock_new = \<lparr>ticket = 0, next_ticket = 0\<rparr>"

partial_function (option) spin_wait :: "u32 \<Rightarrow> u32 \<Rightarrow> unit option" where
  "spin_wait nx tk = (if nx = tk then Some () else spin_wait nx tk)"

definition lock :: "SpinLock \<Rightarrow> SpinLock option" where
  "lock l = (let tk = ticket l; l1 = l\<lparr>ticket := tk + 1\<rparr> in
    Option.bind (spin_wait (next_ticket l1) tk) (\<lambda>_. Some l1))"

definition try_lock :: "SpinLock \<Rightarrow> (bool \<times> SpinLock) option" where
  "try_lock l = (let current = ticket l; nx = next_ticket l in
    if current = nx \<and> ticket l = current
    then let l1 = l\<lparr>ticket := current + 1\<rparr> in
      Option.bind (spin_wait (next_ticket l1) current) (\<lambda>_. Some (True, l1))
    else Some (False, l))"

definition unlock :: "SpinLock \<Rightarrow> SpinLock" where
  "unlock l = l\<lparr>next_ticket := next_ticket l + 1\<rparr>"

definition lock_free :: "SpinLock \<Rightarrow> bool" where
  "lock_free l \<longleftrightarrow> ticket l = next_ticket l"

lemma spin_wait_None:
  assumes "nx \<noteq> tk"
  shows "spin_wait nx tk = None"
proof -
  have "nx = tk" if "spin_wait nx tk = Some r" for nx tk r
    by (rule spin_wait.raw_induct[where P = "\<lambda>nx tk r. nx = tk", OF _ that]) (auto split: if_splits)
  then show ?thesis using assms by (cases "spin_wait nx tk") auto
qed

lemma spin_wait_Some [simp]: "spin_wait tk tk = Some ()"
  by (simp add: spin_wait.simps)

lemma lock_when_free: "lock_free l \<Longrightarrow> lock l = Some (l\<lparr>ticket := ticket l + 1\<rparr>)"
  by (simp add: lock_def lock_free_def Let_def)

lemma lock_when_held: "\<not> lock_free l \<Longrightarrow> lock l = None"
  using spin_wait_None[of "next_ticket l" "ticket l"] by (auto simp: lock_def lock_free_def Let_def)

lemma lock_not_free: "lock l = Some l' \<Longrightarrow> \<not> lock_free l'"
  by (cases "lock_free l") (auto simp: lock_when_free lock_when_held lock_free_def)

lemma unlock_free: "lock l = Some l' \<Longrightarrow> lock_free (unlock l')"
  by (cases "lock_free l") (auto simp: lock_when_free lock_when_held lock_free_def unlock_def)

lemma try_lock_eq:
  "try_lock l = Some (if lock_free l then (True, l\<lparr>ticket := ticket l + 1\<rparr>) else (False, l))"
  by (simp add: try_lock_def lock_free_def Let_def)

section \<open>Interleaved threads\<close>

text \<open>Where a thread is: after which atomic access, with the values it has read.\<close>

datatype pc = Idle
  | Spinning u32          \<comment> \<open>owns a ticket, in the \<open>while\<close> loop of \<open>lock\<close> or \<open>try_lock\<close>\<close>
  | Holding               \<comment> \<open>owns the guard\<close>
  | TryTicket u32         \<comment> \<open>\<open>try_lock\<close> has read \<open>ticket\<close>\<close>
  | TryBoth u32 u32       \<comment> \<open>\<open>try_lock\<close> has read \<open>ticket\<close> and \<open>next\<close>\<close>

record lock_state =
  lk :: SpinLock
  pcs :: "nat \<Rightarrow> pc"

definition lock_init :: lock_state where
  "lock_init = \<lparr>lk = spinlock_new, pcs = (\<lambda>_. Idle)\<rparr>"

abbreviation goto :: "nat \<Rightarrow> pc \<Rightarrow> lock_state \<Rightarrow> lock_state" where
  "goto t p s \<equiv> s\<lparr>pcs := (pcs s)(t := p)\<rparr>"

inductive lock_step :: "nat \<Rightarrow> lock_state \<Rightarrow> lock_state \<Rightarrow> bool" for n where
  fetch_ticket: "\<lbrakk>t < n; pcs s t = Idle\<rbrakk> \<Longrightarrow>
    lock_step n s (goto t (Spinning (ticket (lk s))) (s\<lparr>lk := (lk s)\<lparr>ticket := ticket (lk s) + 1\<rparr>\<rparr>))"
| spin: "\<lbrakk>t < n; pcs s t = Spinning k; next_ticket (lk s) \<noteq> k\<rbrakk> \<Longrightarrow> lock_step n s s"
| acquire: "\<lbrakk>t < n; pcs s t = Spinning k; next_ticket (lk s) = k\<rbrakk> \<Longrightarrow> lock_step n s (goto t Holding s)"
| try_load_ticket: "\<lbrakk>t < n; pcs s t = Idle\<rbrakk> \<Longrightarrow> lock_step n s (goto t (TryTicket (ticket (lk s))) s)"
| try_load_next: "\<lbrakk>t < n; pcs s t = TryTicket c\<rbrakk> \<Longrightarrow>
    lock_step n s (goto t (TryBoth c (next_ticket (lk s))) s)"
| try_busy: "\<lbrakk>t < n; pcs s t = TryBoth c k; c \<noteq> k\<rbrakk> \<Longrightarrow> lock_step n s (goto t Idle s)"
| try_cas_ok: "\<lbrakk>t < n; pcs s t = TryBoth c k; c = k; ticket (lk s) = c\<rbrakk> \<Longrightarrow>
    lock_step n s (goto t (Spinning c) (s\<lparr>lk := (lk s)\<lparr>ticket := c + 1\<rparr>\<rparr>))"
| try_cas_fail: "\<lbrakk>t < n; pcs s t = TryBoth c k; c = k; ticket (lk s) \<noteq> c\<rbrakk> \<Longrightarrow> lock_step n s (goto t Idle s)"
| release: "\<lbrakk>t < n; pcs s t = Holding\<rbrakk> \<Longrightarrow> lock_step n s (goto t Idle (s\<lparr>lk := unlock (lk s)\<rparr>))"

inductive_cases lock_stepE: "lock_step n s s'"

abbreviation lock_reachable :: "nat \<Rightarrow> lock_state \<Rightarrow> bool" where
  "lock_reachable n \<equiv> (lock_step n)\<^sup>*\<^sup>* lock_init"

section \<open>The abstract lock: a queue of threads\<close>

text \<open>
  The contract: threads that asked for the lock stand in a queue in the order in
  which they asked; only the first may hold the lock; releasing removes it.
\<close>

record fifo_lock =
  waiters :: "nat list"
  held :: bool

inductive fifo_step :: "fifo_lock \<Rightarrow> fifo_lock \<Rightarrow> bool" where
  ask: "t \<notin> set (waiters a) \<Longrightarrow> fifo_step a (a\<lparr>waiters := waiters a @ [t]\<rparr>)"
| enter: "\<lbrakk>waiters a \<noteq> []; \<not> held a\<rbrakk> \<Longrightarrow> fifo_step a (a\<lparr>held := True\<rparr>)"
| leave: "\<lbrakk>waiters a \<noteq> []; held a\<rbrakk> \<Longrightarrow> fifo_step a \<lparr>waiters = tl (waiters a), held = False\<rparr>"

definition in_line :: "pc \<Rightarrow> bool" where
  "in_line p \<longleftrightarrow> p = Holding \<or> (\<exists>k. p = Spinning k)"

text \<open>The simulation relation: who waits, with which ticket, and who holds.\<close>

definition lock_sim :: "nat \<Rightarrow> lock_state \<Rightarrow> fifo_lock \<Rightarrow> bool" where
  "lock_sim n s a \<longleftrightarrow> distinct (waiters a) \<and> set (waiters a) \<subseteq> {..<n} \<and>
    (\<forall>t. in_line (pcs s t) \<longleftrightarrow> t \<in> set (waiters a)) \<and>
    ticket (lk s) = next_ticket (lk s) + of_nat (length (waiters a)) \<and>
    (held a \<longrightarrow> waiters a \<noteq> []) \<and>
    (\<forall>i < length (waiters a). pcs s (waiters a ! i) =
       (if i = 0 \<and> held a then Holding else Spinning (next_ticket (lk s) + of_nat i)))"

lemma lock_sim_init: "lock_sim n lock_init \<lparr>waiters = [], held = False\<rparr>"
  by (simp add: lock_sim_def lock_init_def spinlock_new_def in_line_def)

lemma lock_sim_length:
  assumes "lock_sim n s a"
  shows "length (waiters a) \<le> n"
proof -
  have "card (set (waiters a)) \<le> card {..<n}"
    using assms by (intro card_mono) (auto simp: lock_sim_def)
  then show ?thesis using assms by (simp add: lock_sim_def distinct_card)
qed

text \<open>Tickets of different waiters differ, so the one being served is the first in line.\<close>

lemma ticket_offset_zero:
  assumes "(nx :: u32) + of_nat i = nx" "i < 2 ^ 32"
  shows "i = 0"
proof -
  have "(of_nat i :: u32) = 0" using assms(1) by simp
  then have "(2 :: nat) ^ 32 dvd i" by (simp add: of_nat_eq_0_iff word_of_nat_eq_0_iff)
  then show ?thesis using assms(2) by (metis dvd_imp_le gr0I not_less)
qed

lemma lock_sim_served:
  assumes "lock_sim n s a" "n < 2 ^ 32" "pcs s t = Spinning (next_ticket (lk s))"
  shows "\<not> held a" "waiters a \<noteq> []" "waiters a ! 0 = t"
proof -
  have "t \<in> set (waiters a)" using assms(1,3) by (auto simp: lock_sim_def in_line_def)
  then obtain i where i: "i < length (waiters a)" "waiters a ! i = t" by (auto simp: in_set_conv_nth)
  have pc: "pcs s t = (if i = 0 \<and> held a then Holding else Spinning (next_ticket (lk s) + of_nat i))"
    using assms(1) i by (auto simp: lock_sim_def)
  then have "next_ticket (lk s) + of_nat i = next_ticket (lk s)" using assms(3) by (auto split: if_splits)
  moreover have "i < 2 ^ 32" using i(1) lock_sim_length[OF assms(1)] assms(2) by linarith
  ultimately have "i = 0" by (rule ticket_offset_zero)
  then show "\<not> held a" "waiters a \<noteq> []" "waiters a ! 0 = t" using pc assms(3) i by auto
qed

lemma lock_sim_holder:
  assumes "lock_sim n s a" "pcs s t = Holding"
  shows "held a" "waiters a \<noteq> []" "waiters a ! 0 = t"
proof -
  have "t \<in> set (waiters a)" using assms by (auto simp: lock_sim_def in_line_def)
  then obtain i where i: "i < length (waiters a)" "waiters a ! i = t" by (auto simp: in_set_conv_nth)
  have "pcs s t = (if i = 0 \<and> held a then Holding else Spinning (next_ticket (lk s) + of_nat i))"
    using assms(1) i by (auto simp: lock_sim_def)
  then show "held a" "waiters a \<noteq> []" "waiters a ! 0 = t" using assms(2) i by (auto split: if_splits)
qed

text \<open>A thread that has no ticket may move between the states of \<open>try_lock\<close>.\<close>

lemma lock_sim_outside:
  assumes "lock_sim n s a" "\<not> in_line (pcs s t)" "\<not> in_line p"
  shows "lock_sim n (goto t p s) a"
proof -
  have "t \<notin> set (waiters a)" using assms(1,2) by (auto simp: lock_sim_def)
  then have "waiters a ! i \<noteq> t" if "i < length (waiters a)" for i using that nth_mem by blast
  then show ?thesis using assms by (auto simp: lock_sim_def)
qed

lemma lock_sim_ask:
  assumes "lock_sim n s a" "\<not> in_line (pcs s t)" "t < n"
  shows "lock_sim n (goto t (Spinning (ticket (lk s))) (s\<lparr>lk := (lk s)\<lparr>ticket := ticket (lk s) + 1\<rparr>\<rparr>))
      (a\<lparr>waiters := waiters a @ [t]\<rparr>)" "t \<notin> set (waiters a)"
proof -
  show t: "t \<notin> set (waiters a)" using assms(1,2) by (auto simp: lock_sim_def)
  have "waiters a ! i \<noteq> t" if "i < length (waiters a)" for i using t that nth_mem by blast
  then show "lock_sim n (goto t (Spinning (ticket (lk s))) (s\<lparr>lk := (lk s)\<lparr>ticket := ticket (lk s) + 1\<rparr>\<rparr>))
      (a\<lparr>waiters := waiters a @ [t]\<rparr>)"
    using assms t by (auto simp: lock_sim_def in_line_def nth_append less_Suc_eq)
qed

lemma lock_sim_enter:
  assumes "lock_sim n s a" "\<not> held a" "waiters a \<noteq> []" "waiters a ! 0 = t"
  shows "lock_sim n (goto t Holding s) (a\<lparr>held := True\<rparr>)"
proof -
  have "waiters a ! i = t \<longleftrightarrow> i = 0" if "i < length (waiters a)" for i
    using assms that by (metis lock_sim_def length_greater_0_conv nth_eq_iff_index_eq)
  moreover have "t \<in> set (waiters a)" using assms(3,4) by (metis length_greater_0_conv nth_mem)
  ultimately show ?thesis using assms by (auto simp: lock_sim_def in_line_def)
qed

lemma lock_sim_leave:
  assumes "lock_sim n s a" "held a" "waiters a \<noteq> []" "waiters a ! 0 = t"
  shows "lock_sim n (goto t Idle (s\<lparr>lk := unlock (lk s)\<rparr>)) \<lparr>waiters = tl (waiters a), held = False\<rparr>"
proof -
  obtain ws where w: "waiters a = t # ws" using assms(3,4) by (cases "waiters a") auto
  have "ws ! i \<noteq> t" if "i < length ws" for i
    using assms(1) w that nth_mem by (fastforce simp: lock_sim_def)
  moreover have "pcs s (ws ! i) = Spinning (next_ticket (lk s) + 1 + of_nat i)" if "i < length ws" for i
  proof -
    have "pcs s (waiters a ! Suc i) = Spinning (next_ticket (lk s) + of_nat (Suc i))"
      using assms(1) w that unfolding lock_sim_def by (metis Suc_less_eq length_Cons nat.distinct(1))
    then show ?thesis using w by (simp add: add.assoc)
  qed
  ultimately show ?thesis using assms w by (auto simp: lock_sim_def in_line_def unlock_def)
qed

lemma lock_step_simulates:
  assumes "lock_step n s s'" "lock_sim n s a" "n < 2 ^ 32"
  shows "\<exists>a'. fifo_step\<^sup>=\<^sup>= a a' \<and> lock_sim n s' a'"
  using assms(1)
proof cases
  case (fetch_ticket t)
  then have "\<not> in_line (pcs s t)" by (simp add: in_line_def)
  from lock_sim_ask[OF assms(2) this] fetch_ticket show ?thesis using ask by blast
next
  case (spin t k)
  then show ?thesis using assms(2) by blast
next
  case (acquire t k)
  then have "pcs s t = Spinning (next_ticket (lk s))" by simp
  note head = lock_sim_served[OF assms(2,3) this]
  show ?thesis using acquire lock_sim_enter[OF assms(2) head] enter[OF head(2,1)] by blast
next
  case (try_cas_ok t c k)
  then have "\<not> in_line (pcs s t)" by (simp add: in_line_def)
  from lock_sim_ask[OF assms(2) this] try_cas_ok show ?thesis using ask by blast
next
  case (release t)
  note head = lock_sim_holder[OF assms(2) release(3)]
  show ?thesis using release lock_sim_leave[OF assms(2) head] leave[OF head(2,1)] by blast
qed (use assms(2) in \<open>auto intro!: exI[of _ a] lock_sim_outside simp: in_line_def\<close>)

lemma lock_reachable_sim:
  assumes "lock_reachable n s" "n < 2 ^ 32"
  shows "\<exists>a. lock_sim n s a"
  using assms(1)
proof (induction rule: rtranclp_induct)
  case base
  then show ?case using lock_sim_init by blast
next
  case (step s s')
  then show ?case using lock_step_simulates[OF _ _ assms(2)] by blast
qed

lemma lock_reachable_served:
  assumes "lock_reachable n s" "n < 2 ^ 32" "in_line (pcs s t)"
  shows "\<exists>u<n. pcs s u = Holding \<or> pcs s u = Spinning (next_ticket (lk s))"
proof -
  obtain a where a: "lock_sim n s a" using lock_reachable_sim[OF assms(1,2)] by blast
  then have ne: "0 < length (waiters a)" using assms(3) by (fastforce simp: lock_sim_def)
  then have "waiters a ! 0 < n" "pcs s (waiters a ! 0) = (if held a then Holding else Spinning (next_ticket (lk s)))"
    using a nth_mem[OF ne] by (auto simp: lock_sim_def)
  then show ?thesis by metis
qed

section \<open>Properties\<close>

text \<open>
  C3: mutual exclusion. In every state that fewer than \<open>2 ^ 32\<close> threads can reach
  with \<open>lock\<close>, \<open>try_lock\<close> and dropping guards, at most one thread holds the lock.
\<close>

theorem spinlock_mutual_exclusion:
  assumes "lock_reachable n s" "n < 2 ^ 32" "pcs s t = Holding" "pcs s u = Holding"
  shows "t = u"
proof -
  obtain a where a: "lock_sim n s a" using lock_reachable_sim[OF assms(1,2)] by blast
  show ?thesis using lock_sim_holder(3)[OF a assms(3)] lock_sim_holder(3)[OF a assms(4)] by simp
qed

lemma two_threads_run:
  "lock_reachable 2 \<lparr>lk = \<lparr>ticket = 2, next_ticket = 0\<rparr>,
     pcs = (\<lambda>_. Idle)(0 := Holding, 1 := Spinning 1)\<rparr>"
proof -
  have "lock_step 2 lock_init \<lparr>lk = \<lparr>ticket = 1, next_ticket = 0\<rparr>, pcs = (\<lambda>_. Idle)(0 := Spinning 0)\<rparr>"
    using fetch_ticket[of 0 2 lock_init] by (simp add: lock_init_def spinlock_new_def)
  moreover have "lock_step 2 \<lparr>lk = \<lparr>ticket = 1, next_ticket = 0\<rparr>, pcs = (\<lambda>_. Idle)(0 := Spinning 0)\<rparr>
      \<lparr>lk = \<lparr>ticket = 2, next_ticket = 0\<rparr>, pcs = (\<lambda>_. Idle)(0 := Spinning 0, 1 := Spinning 1)\<rparr>"
    using fetch_ticket[of 1 2 "\<lparr>lk = \<lparr>ticket = 1, next_ticket = 0\<rparr>, pcs = (\<lambda>_. Idle)(0 := Spinning 0)\<rparr>"] by simp
  moreover have "lock_step 2
      \<lparr>lk = \<lparr>ticket = 2, next_ticket = 0\<rparr>, pcs = (\<lambda>_. Idle)(0 := Spinning 0, 1 := Spinning 1)\<rparr>
      \<lparr>lk = \<lparr>ticket = 2, next_ticket = 0\<rparr>, pcs = (\<lambda>_. Idle)(0 := Holding, 1 := Spinning 1)\<rparr>"
    using acquire[of 0 2 "\<lparr>lk = \<lparr>ticket = 2, next_ticket = 0\<rparr>,
        pcs = (\<lambda>_. Idle)(0 := Spinning 0, 1 := Spinning 1)\<rparr>" 0]
    by (simp add: fun_upd_twist)
  ultimately show ?thesis by (meson rtranclp.rtrancl_into_rtrancl rtranclp.rtrancl_refl)
qed

theorem spinlock_mutual_exclusion_witness:
  "\<exists>s. lock_reachable 2 s \<and> pcs s 0 = Holding \<and> pcs s 1 \<noteq> Holding"
  using two_threads_run spinlock_mutual_exclusion[OF two_threads_run, of 0 1]
  by (intro exI[of _ "\<lparr>lk = \<lparr>ticket = 2, next_ticket = 0\<rparr>,
     pcs = (\<lambda>_. Idle)(0 := Holding, 1 := Spinning 1)\<rparr>"]) auto

text \<open>
  C4: FIFO order. Every step of the ticket lock is a step (or no step) of the
  abstract lock that serves threads strictly in the order of their requests.
\<close>

theorem spinlock_refines_fifo:
  assumes "lock_step n s s'" "lock_sim n s a" "n < 2 ^ 32"
  shows "\<exists>a'. fifo_step\<^sup>=\<^sup>= a a' \<and> lock_sim n s' a'"
  using assms by (rule lock_step_simulates)

theorem spinlock_refines_fifo_witness:
  "\<exists>s' a'. lock_step 1 lock_init s' \<and> fifo_step\<^sup>=\<^sup>= \<lparr>waiters = [], held = False\<rparr> a' \<and> lock_sim 1 s' a'"
proof -
  have "lock_step 1 lock_init (goto 0 (Spinning (ticket (lk lock_init)))
      (lock_init\<lparr>lk := (lk lock_init)\<lparr>ticket := ticket (lk lock_init) + 1\<rparr>\<rparr>))"
    by (rule fetch_ticket) (simp_all add: lock_init_def)
  from this spinlock_refines_fifo[OF this lock_sim_init] show ?thesis by auto
qed

text \<open>
  C27: no deadlock and no lost hand-over. As long as a thread is in line, some thread
  holds the lock or the step by which the first in line acquires it is enabled.
\<close>

theorem spinlock_progress:
  assumes "lock_reachable n s" "n < 2 ^ 32" "in_line (pcs s t)"
  shows "\<exists>u<n. pcs s u = Holding \<or>
    (pcs s u = Spinning (next_ticket (lk s)) \<and> lock_step n s (goto u Holding s))"
  using lock_reachable_served[OF assms] acquire by metis

theorem spinlock_progress_witness:
  "\<exists>s. lock_reachable 2 s \<and> in_line (pcs s 1) \<and> (\<exists>u<2. pcs s u = Holding \<or>
    (pcs s u = Spinning (next_ticket (lk s)) \<and> lock_step 2 s (goto u Holding s)))"
  using two_threads_run spinlock_progress[OF two_threads_run, of 1]
  by (intro exI[of _ "\<lparr>lk = \<lparr>ticket = 2, next_ticket = 0\<rparr>,
     pcs = (\<lambda>_. Idle)(0 := Holding, 1 := Spinning 1)\<rparr>"]) (simp add: in_line_def)

end
