(* ===== verification/Dmesg.thy ===== *)
theory Dmesg
  imports Spinlock
begin

text \<open>
  The kernel log ring (\<open>src/dmesg.rs\<close>): 16384 bytes, overwritten from the start when
  full.  Its lock is part of the state, because \<open>dump\<close> prints while it holds it
  (theory \<open>Console\<close>).  A result \<open>None\<close> means that the call never returns.
\<close>

section \<open>State and operations\<close>

definition DMESG_BUF_SIZE :: nat where
  "DMESG_BUF_SIZE = 16384"

record dmesg =
  BUF :: "u8 list"
  WRITE_POS :: nat
  Wrapped :: bool
  DMESG_LOCK :: SpinLock

definition dmesg_boot :: dmesg where
  "dmesg_boot = \<lparr>BUF = replicate DMESG_BUF_SIZE 0, WRITE_POS = 0, Wrapped = False,
     DMESG_LOCK = spinlock_new\<rparr>"

text \<open>The guarded block of \<open>push_byte\<close>.\<close>

definition store_byte :: "u8 \<Rightarrow> dmesg \<Rightarrow> dmesg" where
  "store_byte b s = (let p = WRITE_POS s + 1 in
    if p \<ge> DMESG_BUF_SIZE
    then s\<lparr>BUF := (BUF s)[WRITE_POS s := b], WRITE_POS := 0, Wrapped := True\<rparr>
    else s\<lparr>BUF := (BUF s)[WRITE_POS s := b], WRITE_POS := p\<rparr>)"

definition push_byte :: "u8 \<Rightarrow> dmesg \<Rightarrow> dmesg outcome option" where
  "push_byte b s = (case lock (DMESG_LOCK s) of
      None \<Rightarrow> None
    | Some l \<Rightarrow>
        if WRITE_POS s \<ge> DMESG_BUF_SIZE then Some Panic
        else let s1 = store_byte b (s\<lparr>DMESG_LOCK := l\<rparr>) in
          Some (Ret (s1\<lparr>DMESG_LOCK := unlock (DMESG_LOCK s1)\<rparr>)))"

fun push_bytes :: "u8 list \<Rightarrow> dmesg \<Rightarrow> dmesg outcome option" where
  "push_bytes [] s = Some (Ret s)"
| "push_bytes (b # bs) s = (case push_byte b s of
      None \<Rightarrow> None
    | Some Panic \<Rightarrow> Some Panic
    | Some (Ret s') \<Rightarrow> push_bytes bs s')"

text \<open>The values \<open>total\<close> and \<open>start\<close> of \<open>dump\<close>, and the bytes its loop reads in order.\<close>

definition dump_total :: "dmesg \<Rightarrow> nat" where
  "dump_total s = (if Wrapped s then DMESG_BUF_SIZE else WRITE_POS s)"

definition dump_start :: "dmesg \<Rightarrow> nat" where
  "dump_start s = (if Wrapped s then WRITE_POS s else 0)"

definition dump_bytes :: "dmesg \<Rightarrow> u8 list" where
  "dump_bytes s = map (\<lambda>i. BUF s ! ((dump_start s + i) mod DMESG_BUF_SIZE)) [0..<dump_total s]"

section \<open>The invariant and the abstract log\<close>

definition dmesg_inv :: "dmesg \<Rightarrow> bool" where
  "dmesg_inv s \<longleftrightarrow> length (BUF s) = DMESG_BUF_SIZE \<and> WRITE_POS s < DMESG_BUF_SIZE \<and> lock_free (DMESG_LOCK s)"

text \<open>\<open>last_n n xs\<close>: what a log of capacity \<open>n\<close> remembers of the bytes \<open>xs\<close>.\<close>

definition last_n :: "nat \<Rightarrow> 'a list \<Rightarrow> 'a list" where
  "last_n n xs = drop (length xs - n) xs"

lemma last_n_append: "last_n n (last_n n xs @ ys) = last_n n (xs @ ys)"
  by (cases "length xs \<le> n") (auto simp: last_n_def add.commute)

lemma last_n_short: "length xs \<le> n \<Longrightarrow> last_n n xs = xs"
  by (simp add: last_n_def)

lemma dmesg_boot_inv [inv_intros]: "dmesg_inv dmesg_boot"
  by (simp add: dmesg_inv_def dmesg_boot_def DMESG_BUF_SIZE_def lock_free_def spinlock_new_def)

lemma dump_bytes_boot [simp]: "dump_bytes dmesg_boot = []"
  by (simp add: dump_bytes_def dump_total_def dmesg_boot_def)

lemma push_byte_inv:
  assumes "dmesg_inv s"
  shows "\<exists>s'. push_byte b s = Some (Ret s') \<and> dmesg_inv s' \<and>
    BUF s' = BUF (store_byte b s) \<and> WRITE_POS s' = WRITE_POS (store_byte b s) \<and> Wrapped s' = Wrapped (store_byte b s)"
  using assms
  by (auto simp: push_byte_def dmesg_inv_def store_byte_def Let_def lock_when_free lock_free_def unlock_def
      DMESG_BUF_SIZE_def)

lemma dump_bytes_not_wrapped:
  assumes "length (BUF s) = DMESG_BUF_SIZE" "WRITE_POS s < DMESG_BUF_SIZE" "\<not> Wrapped s"
  shows "dump_bytes s = take (WRITE_POS s) (BUF s)"
  using assms by (intro nth_equalityI) (auto simp: dump_bytes_def dump_total_def dump_start_def)

lemma dump_bytes_wrapped:
  assumes "length (BUF s) = DMESG_BUF_SIZE" "WRITE_POS s < DMESG_BUF_SIZE" "Wrapped s"
  shows "dump_bytes s = drop (WRITE_POS s) (BUF s) @ take (WRITE_POS s) (BUF s)"
proof -
  have "dump_bytes s = rotate (WRITE_POS s) (BUF s)"
    using assms by (intro nth_equalityI) (auto simp: dump_bytes_def dump_total_def dump_start_def nth_rotate)
  then show ?thesis using assms by (simp add: rotate_drop_take)
qed

lemma take_Suc_update:
  "p < length xs \<Longrightarrow> take (Suc p) (xs[p := b]) = take p xs @ [b]"
  by (simp add: take_Suc_conv_app_nth)

lemma take_update_full:
  "Suc p = length xs \<Longrightarrow> xs[p := b] = take p xs @ [b]"
  using take_Suc_update[of p xs b] by simp

lemma dump_bytes_store:
  assumes "length (BUF s) = DMESG_BUF_SIZE" "WRITE_POS s < DMESG_BUF_SIZE"
  shows "dump_bytes (store_byte b s) = last_n DMESG_BUF_SIZE (dump_bytes s @ [b])"
proof -
  have pos: "0 < DMESG_BUF_SIZE" by (simp add: DMESG_BUF_SIZE_def)
  have len: "length (BUF (store_byte b s)) = DMESG_BUF_SIZE" "WRITE_POS (store_byte b s) < DMESG_BUF_SIZE"
    using assms pos by (auto simp: store_byte_def Let_def)
  show ?thesis
  proof (cases "Suc (WRITE_POS s) = DMESG_BUF_SIZE")
    case True
    then have "dump_bytes (store_byte b s) = take (WRITE_POS s) (BUF s) @ [b]"
      using dump_bytes_wrapped[OF len] assms
      by (simp add: store_byte_def Let_def take_update_full)
    then show ?thesis using True assms dump_bytes_wrapped[OF assms] dump_bytes_not_wrapped[OF assms]
      by (cases "Wrapped s") (auto simp: last_n_def)
  next
    case False
    then have lt: "Suc (WRITE_POS s) < DMESG_BUF_SIZE" using assms(2) by simp
    show ?thesis
    proof (cases "Wrapped s")
      case True
      then have "dump_bytes (store_byte b s) = drop (Suc (WRITE_POS s)) (BUF s) @ take (WRITE_POS s) (BUF s) @ [b]"
        using dump_bytes_wrapped[OF len] assms lt
        by (simp add: store_byte_def Let_def take_Suc_update drop_update_cancel)
      then show ?thesis using True lt assms dump_bytes_wrapped[OF assms] by (simp add: last_n_def)
    next
      case False
      then have "dump_bytes (store_byte b s) = take (WRITE_POS s) (BUF s) @ [b]"
        using dump_bytes_not_wrapped[OF len] assms lt
        by (simp add: store_byte_def Let_def take_Suc_update)
      then show ?thesis using False lt assms dump_bytes_not_wrapped[OF assms] by (simp add: last_n_def)
    qed
  qed
qed

lemma dump_bytes_cong:
  "\<lbrakk>BUF s = BUF t; WRITE_POS s = WRITE_POS t; Wrapped s = Wrapped t\<rbrakk> \<Longrightarrow> dump_bytes s = dump_bytes t"
  by (simp add: dump_bytes_def dump_total_def dump_start_def)

lemma push_byte_log:
  assumes "dmesg_inv s"
  obtains s' where "push_byte b s = Some (Ret s')" "dmesg_inv s'"
    "dump_bytes s' = last_n DMESG_BUF_SIZE (dump_bytes s @ [b])"
  using push_byte_inv[OF assms, of b] dump_bytes_store[of s b] dump_bytes_cong assms
  by (metis dmesg_inv_def)

lemma push_bytes_log:
  "dmesg_inv s \<Longrightarrow> \<exists>s'. push_bytes bs s = Some (Ret s') \<and> dmesg_inv s' \<and>
     dump_bytes s' = last_n DMESG_BUF_SIZE (dump_bytes s @ bs)"
proof (induction bs arbitrary: s)
  case Nil
  have "length (dump_bytes s) \<le> DMESG_BUF_SIZE" using Nil
    by (simp add: dump_bytes_def dump_total_def dmesg_inv_def)
  then show ?case using Nil by (simp add: last_n_short)
next
  case (Cons b bs)
  obtain s1 where s1: "push_byte b s = Some (Ret s1)" "dmesg_inv s1"
      "dump_bytes s1 = last_n DMESG_BUF_SIZE (dump_bytes s @ [b])"
    using push_byte_log[OF Cons.prems] by blast
  have "last_n DMESG_BUF_SIZE (last_n DMESG_BUF_SIZE (dump_bytes s @ [b]) @ bs)
      = last_n DMESG_BUF_SIZE (dump_bytes s @ b # bs)"
    using last_n_append[of DMESG_BUF_SIZE "dump_bytes s @ [b]" bs] by simp
  then show ?case using Cons.IH[OF s1(2)] s1 by auto
qed

text \<open>
  C30: the log keeps the most recent 16384 bytes. Whatever has been logged since
  boot, the bytes that \<open>dump\<close> reads are exactly the last \<open>DMESG_BUF_SIZE\<close> bytes, oldest
  first, and logging neither panics nor blocks.
\<close>

theorem dmesg_keeps_most_recent:
  "\<exists>s'. push_bytes bs dmesg_boot = Some (Ret s') \<and> dmesg_inv s' \<and> dump_bytes s' = last_n DMESG_BUF_SIZE bs"
  using push_bytes_log[OF dmesg_boot_inv, of bs] by simp

end
