(* ===== verification/Stats.thy ===== *)
theory Stats
  imports Prelude
begin

text \<open>
  The kernel's counters (\<open>src/stats.rs\<close>).  They are 64-bit and wrap; the counter per
  system call number exists for the numbers below 64.
\<close>

record KernelStats =
  context_switches :: usize
  timer_ticks :: usize
  syscalls_total :: usize
  syscalls_by_num :: "nat \<Rightarrow> usize"
  page_faults_user :: usize
  page_faults_kernel :: usize
  interrupts_total :: usize
  frame_allocs :: usize
  frame_frees :: usize
  tasks_spawned :: usize
  tasks_exited :: usize
  panics :: usize

definition stats_new :: KernelStats where
  "stats_new = \<lparr>context_switches = 0, timer_ticks = 0, syscalls_total = 0, syscalls_by_num = (\<lambda>_. 0),
    page_faults_user = 0, page_faults_kernel = 0, interrupts_total = 0, frame_allocs = 0,
    frame_frees = 0, tasks_spawned = 0, tasks_exited = 0, panics = 0\<rparr>"

definition count_context_switch :: "KernelStats \<Rightarrow> KernelStats" where
  "count_context_switch st = st\<lparr>context_switches := context_switches st + 1\<rparr>"

definition count_tick :: "KernelStats \<Rightarrow> KernelStats" where
  "count_tick st = st\<lparr>timer_ticks := timer_ticks st + 1\<rparr>"

definition count_syscall :: "nat \<Rightarrow> KernelStats \<Rightarrow> KernelStats" where
  "count_syscall num st = (let st1 = st\<lparr>syscalls_total := syscalls_total st + 1\<rparr> in
    if num < 64
    then st1\<lparr>syscalls_by_num := (syscalls_by_num st1)(num := syscalls_by_num st1 num + 1)\<rparr>
    else st1)"

definition count_page_fault_user :: "KernelStats \<Rightarrow> KernelStats" where
  "count_page_fault_user st = st\<lparr>page_faults_user := page_faults_user st + 1\<rparr>"

definition count_page_fault_kernel :: "KernelStats \<Rightarrow> KernelStats" where
  "count_page_fault_kernel st = st\<lparr>page_faults_kernel := page_faults_kernel st + 1\<rparr>"

definition count_interrupt :: "KernelStats \<Rightarrow> KernelStats" where
  "count_interrupt st = st\<lparr>interrupts_total := interrupts_total st + 1\<rparr>"

definition count_frame_alloc :: "KernelStats \<Rightarrow> KernelStats" where
  "count_frame_alloc st = st\<lparr>frame_allocs := frame_allocs st + 1\<rparr>"

definition count_frame_free :: "KernelStats \<Rightarrow> KernelStats" where
  "count_frame_free st = st\<lparr>frame_frees := frame_frees st + 1\<rparr>"

definition count_task_spawn :: "KernelStats \<Rightarrow> KernelStats" where
  "count_task_spawn st = st\<lparr>tasks_spawned := tasks_spawned st + 1\<rparr>"

definition count_task_exit :: "KernelStats \<Rightarrow> KernelStats" where
  "count_task_exit st = st\<lparr>tasks_exited := tasks_exited st + 1\<rparr>"

definition count_panic :: "KernelStats \<Rightarrow> KernelStats" where
  "count_panic st = st\<lparr>panics := panics st + 1\<rparr>"

lemmas stats_defs [kernel_simps] = count_context_switch_def count_tick_def count_page_fault_user_def
  count_page_fault_kernel_def count_interrupt_def count_frame_alloc_def count_frame_free_def
  count_task_spawn_def count_task_exit_def count_panic_def

text \<open>Only numbers below 64 have a counter of their own; the total counts every call.\<close>

lemma count_syscall_counts:
  "syscalls_total (count_syscall num st) = syscalls_total st + 1"
  "syscalls_by_num (count_syscall num st) i =
     syscalls_by_num st i + (if i = num \<and> num < 64 then 1 else 0)"
  by (simp_all add: count_syscall_def Let_def)

end
