(* ===== verification/Frame.thy ===== *)
theory Frame
  imports Stats
begin

text \<open>
  The physical frame allocator (\<open>src/frame.rs\<close>): a bitmap of 64-bit words with a
  scan hint.  The bitmap is read and written through a raw pointer without a bounds
  check, so it is a function from word index to word; the invariant keeps the
  indices in use below \<open>MAX_WORDS\<close>.  The target architecture is a parameter where
  the source has two values (\<open>RAM_BASE\<close>).  The counters of \<open>src/stats.rs\<close> travel with
  this state.
\<close>

section \<open>State and operations\<close>

datatype arch = X86_64 | AArch64

definition FRAME_SIZE :: nat where "FRAME_SIZE = 4096"

fun RAM_BASE :: "arch \<Rightarrow> usize" where
  "RAM_BASE AArch64 = 0x40000000"
| "RAM_BASE X86_64 = 0"

definition MAX_WORDS :: nat where "MAX_WORDS = 32768"
definition MAX_FRAME_COUNT :: nat where "MAX_FRAME_COUNT = MAX_WORDS * 64"

record frame_state =
  BITMAP :: "nat \<Rightarrow> u64"
  ACTUAL_WORDS :: nat
  ACTUAL_FRAME_COUNT :: nat
  TOTAL_RAM :: nat
  NEXT_FREE :: nat
  ALLOC_COUNT :: usize
  STATS :: KernelStats

definition frame_boot :: frame_state where
  "frame_boot = \<lparr>BITMAP = (\<lambda>_. 0), ACTUAL_WORDS = 0, ACTUAL_FRAME_COUNT = 0, TOTAL_RAM = 0,
     NEXT_FREE = 0, ALLOC_COUNT = 0, STATS = stats_new\<rparr>"

record PhysFrame =
  number :: nat

definition from_addr :: "arch \<Rightarrow> usize \<Rightarrow> PhysFrame" where
  "from_addr a addr = \<lparr>number = unat (addr - RAM_BASE a) div FRAME_SIZE\<rparr>"

definition start_address :: "arch \<Rightarrow> PhysFrame \<Rightarrow> usize" where
  "start_address a f = RAM_BASE a + of_nat (number f) * of_nat FRAME_SIZE"

definition saturating_sub :: "usize \<Rightarrow> usize \<Rightarrow> usize" where
  "saturating_sub x y = (if x < y then 0 else x - y)"

definition frame_of :: "arch \<Rightarrow> usize \<Rightarrow> nat" where
  "frame_of a addr = unat (saturating_sub addr (RAM_BASE a)) div FRAME_SIZE"

definition set_total_ram :: "usize \<Rightarrow> frame_state \<Rightarrow> frame_state" where
  "set_total_ram sz s = (let capped = min (unat sz) (MAX_FRAME_COUNT * FRAME_SIZE);
      frames = capped div FRAME_SIZE in
    s\<lparr>TOTAL_RAM := capped, ACTUAL_FRAME_COUNT := frames, ACTUAL_WORDS := (frames + 63) div 64\<rparr>)"

definition total_ram :: "frame_state \<Rightarrow> nat" where
  "total_ram s = TOTAL_RAM s"

definition count_ones :: "u64 \<Rightarrow> nat" where
  "count_ones w = length (filter (bit w) [0..<64])"

definition trailing_ones :: "u64 \<Rightarrow> nat" where
  "trailing_ones w = (case scan (\<lambda>i. \<not> bit w i) 0 64 of Some i \<Rightarrow> i | None \<Rightarrow> 64)"

text \<open>The value one round of the loop of \<open>free_frame_count\<close> adds for word \<open>w\<close>.\<close>

definition free_in_word :: "frame_state \<Rightarrow> nat \<Rightarrow> nat" where
  "free_in_word s w = (let bits = BITMAP s w; inverted = NOT bits; word_start = w * 64;
      masked = (if word_start + 64 > ACTUAL_FRAME_COUNT s
        then inverted AND (push_bit (ACTUAL_FRAME_COUNT s - word_start) 1 - 1)
        else inverted) in
    count_ones masked)"

definition free_frame_count :: "frame_state \<Rightarrow> nat" where
  "free_frame_count s = sum_list (map (free_in_word s) [0..<ACTUAL_WORDS s])"

definition set_used :: "nat \<Rightarrow> frame_state \<Rightarrow> frame_state" where
  "set_used frame s = (if frame \<ge> ACTUAL_FRAME_COUNT s then s
    else s\<lparr>BITMAP := (BITMAP s)(frame div 64 := BITMAP s (frame div 64) OR push_bit (frame mod 64) 1)\<rparr>)"

definition set_free :: "nat \<Rightarrow> frame_state \<Rightarrow> frame_state" where
  "set_free frame s = (if frame \<ge> ACTUAL_FRAME_COUNT s then s
    else s\<lparr>BITMAP := (BITMAP s)(frame div 64 := BITMAP s (frame div 64) AND NOT (push_bit (frame mod 64) 1))\<rparr>)"

definition mark_used :: "arch \<Rightarrow> usize \<Rightarrow> usize \<Rightarrow> frame_state \<Rightarrow> frame_state" where
  "mark_used a start end s = (let ram_end = RAM_BASE a + of_nat (TOTAL_RAM s) in
    if end \<le> start \<or> start \<ge> ram_end then s
    else let first = frame_of a start;
        last = min (frame_of a (saturating_sub end 1)) (unat (of_nat (ACTUAL_FRAME_COUNT s) - 1 :: usize)) in
      fold set_used [first..<Suc last] s)"

definition frame_init :: "arch \<Rightarrow> usize \<Rightarrow> frame_state \<Rightarrow> frame_state" where
  "frame_init a kernel_end s =
    (let s1 = (if TOTAL_RAM s = 0 then set_total_ram (push_bit 30 1) s else s);
         s2 = s1\<lparr>BITMAP := (\<lambda>i. if i < ACTUAL_WORDS s1 then 0 else BITMAP s1 i)\<rparr>;
         s3 = mark_used a (RAM_BASE a) kernel_end s2;
         s4 = (if a = X86_64 then mark_used a 0 0x100000 s3 else s3)
     in s4\<lparr>NEXT_FREE := frame_of a kernel_end div 64\<rparr>)"

definition reinit :: "usize \<Rightarrow> frame_state \<Rightarrow> frame_state" where
  "reinit new_ram_size s =
    (let s1 = set_total_ram new_ram_size s;
         words = (TOTAL_RAM s1 div 4096 + 63) div 64
     in if words > MAX_WORDS
        then s1\<lparr>ACTUAL_WORDS := MAX_WORDS, ACTUAL_FRAME_COUNT := MAX_WORDS * 64\<rparr>
        else s1\<lparr>ACTUAL_WORDS := words, ACTUAL_FRAME_COUNT := words * 64\<rparr>)"

text \<open>
  Both loops of \<open>allocate_frame\<close> have the same body: word \<open>w\<close> is taken when it has a
  zero bit whose frame number is below the frame count.
\<close>

definition word_has_free :: "frame_state \<Rightarrow> nat \<Rightarrow> bool" where
  "word_has_free s w \<longleftrightarrow> BITMAP s w \<noteq> NOT 0 \<and> w * 64 + trailing_ones (BITMAP s w) < ACTUAL_FRAME_COUNT s"

definition take_from_word :: "nat \<Rightarrow> frame_state \<Rightarrow> PhysFrame option \<times> frame_state" where
  "take_from_word w s = (let frame = w * 64 + trailing_ones (BITMAP s w); s1 = set_used frame s in
    (Some \<lparr>number = frame\<rparr>, s1\<lparr>NEXT_FREE := w, ALLOC_COUNT := ALLOC_COUNT s1 + 1,
       STATS := count_frame_alloc (STATS s1)\<rparr>))"

definition allocate_frame :: "frame_state \<Rightarrow> PhysFrame option \<times> frame_state" where
  "allocate_frame s = (let words = ACTUAL_WORDS s; start = min (NEXT_FREE s) words in
    case scan (word_has_free s) start words of
      Some w \<Rightarrow> take_from_word w s
    | None \<Rightarrow> (case scan (word_has_free s) 0 start of
        Some w \<Rightarrow> take_from_word w s
      | None \<Rightarrow> (None, s)))"

definition alloc_count :: "frame_state \<Rightarrow> usize" where
  "alloc_count s = ALLOC_COUNT s"

definition deallocate_frame :: "PhysFrame \<Rightarrow> frame_state \<Rightarrow> frame_state" where
  "deallocate_frame f s = (if number f \<ge> ACTUAL_FRAME_COUNT s then s
    else let s1 = set_free (number f) s in s1\<lparr>STATS := count_frame_free (STATS s1)\<rparr>)"

section \<open>The abstract allocator: a set of free frames\<close>

definition frame_used :: "frame_state \<Rightarrow> nat \<Rightarrow> bool" where
  "frame_used s f = bit (BITMAP s (f div 64)) (f mod 64)"

definition free_frames :: "frame_state \<Rightarrow> nat set" where
  "free_frames s = {f. f < ACTUAL_FRAME_COUNT s \<and> \<not> frame_used s f}"

definition frame_inv :: "frame_state \<Rightarrow> bool" where
  "frame_inv s \<longleftrightarrow> ACTUAL_WORDS s \<le> MAX_WORDS \<and> ACTUAL_WORDS s = (ACTUAL_FRAME_COUNT s + 63) div 64"

lemma frame_inv_word: "\<lbrakk>frame_inv s; f < ACTUAL_FRAME_COUNT s\<rbrakk> \<Longrightarrow> f div 64 < ACTUAL_WORDS s"
  by (auto simp: frame_inv_def)

lemma frame_inv_count: "frame_inv s \<Longrightarrow> ACTUAL_FRAME_COUNT s \<le> MAX_WORDS * 64"
  unfolding frame_inv_def by arith

lemma finite_free_frames [simp]: "finite (free_frames s)"
  by (simp add: free_frames_def)

lemma set_used_fields [simp]:
  "ACTUAL_WORDS (set_used f s) = ACTUAL_WORDS s"
  "ACTUAL_FRAME_COUNT (set_used f s) = ACTUAL_FRAME_COUNT s"
  "TOTAL_RAM (set_used f s) = TOTAL_RAM s"
  "NEXT_FREE (set_used f s) = NEXT_FREE s"
  by (auto simp: set_used_def)

lemma div_mod_64_eq: "(f :: nat) div 64 = g div 64 \<Longrightarrow> f mod 64 = g mod 64 \<longleftrightarrow> f = g"
  by (metis mult_div_mod_eq)

lemma bit_push_bit_1: "n < 64 \<Longrightarrow> bit (2 ^ m :: u64) n \<longleftrightarrow> n = m"
  by (auto simp: bit_exp_iff)

lemma used_set_used:
  "f < ACTUAL_FRAME_COUNT s \<Longrightarrow> frame_used (set_used f s) g \<longleftrightarrow> g = f \<or> frame_used s g"
  by (auto simp: set_used_def frame_used_def bit_or_iff bit_push_bit_1 div_mod_64_eq)

lemma used_set_free:
  "f < ACTUAL_FRAME_COUNT s \<Longrightarrow> frame_used (set_free f s) g \<longleftrightarrow> g \<noteq> f \<and> frame_used s g"
  by (auto simp: set_free_def frame_used_def bit_and_iff bit_not_iff bit_push_bit_1 div_mod_64_eq)

lemma free_frames_set_used: "free_frames (set_used f s) = free_frames s - {f}"
  by (cases "f < ACTUAL_FRAME_COUNT s") (auto simp: free_frames_def used_set_used, auto simp: set_used_def)

lemma free_frames_set_free:
  "f < ACTUAL_FRAME_COUNT s \<Longrightarrow> free_frames (set_free f s) = insert f (free_frames s)"
  by (auto simp: free_frames_def used_set_free) (auto simp: set_free_def)

lemma trailing_ones_first_zero:
  assumes "\<not> bit w i" "i < 64"
  shows "trailing_ones w \<le> i" "\<not> bit w (trailing_ones w)" "trailing_ones w < 64"
proof -
  obtain j where j: "scan (\<lambda>i. \<not> bit w i) 0 64 = Some j"
    using scan_complete[of 0 i 64 "\<lambda>i. \<not> bit w i"] assms by auto
  have t: "trailing_ones w = j" using j by (simp add: trailing_ones_def)
  show "trailing_ones w \<le> i" "\<not> bit w (trailing_ones w)" "trailing_ones w < 64"
    using assms j unfolding t scan_Some_iff by (auto simp: not_less[symmetric])
qed

lemma word_not_full_iff: "(w :: u64) \<noteq> - 1 \<longleftrightarrow> (\<exists>i<64. \<not> bit w i)"
  by (auto simp: bit_eq_iff)

lemma word_has_freeD:
  assumes "word_has_free s w"
  shows "w * 64 + trailing_ones (BITMAP s w) \<in> free_frames s" "(w * 64 + trailing_ones (BITMAP s w)) div 64 = w"
proof -
  let ?t = "trailing_ones (BITMAP s w)"
  obtain i where i: "i < 64" "\<not> bit (BITMAP s w) i" "w * 64 + ?t < ACTUAL_FRAME_COUNT s"
    using assms by (auto simp: word_has_free_def word_not_full_iff)
  note t = trailing_ones_first_zero[OF i(2,1)]
  have dm: "(w * 64 + ?t) div 64 = w" "(w * 64 + ?t) mod 64 = ?t" using t(3) by simp_all
  show "(w * 64 + ?t) div 64 = w" by (rule dm(1))
  show "w * 64 + ?t \<in> free_frames s"
    unfolding free_frames_def frame_used_def mem_Collect_eq dm using i(3) t(2) by simp
qed

lemma word_has_free_iff:
  assumes "frame_inv s"
  shows "word_has_free s w \<longleftrightarrow> (\<exists>f \<in> free_frames s. f div 64 = w)"
proof
  assume "word_has_free s w"
  then show "\<exists>f \<in> free_frames s. f div 64 = w" using word_has_freeD by blast
next
  assume "\<exists>f \<in> free_frames s. f div 64 = w"
  then obtain f where "f \<in> free_frames s" and w: "f div 64 = w" by blast
  then have f: "f < ACTUAL_FRAME_COUNT s" "\<not> bit (BITMAP s w) (f mod 64)"
    unfolding free_frames_def frame_used_def by blast+
  have "f mod 64 < 64" by simp
  note t = trailing_ones_first_zero[OF f(2) this]
  have "w * 64 + f mod 64 = f" using w div_mult_mod_eq[of f 64] by simp
  then have "w * 64 + trailing_ones (BITMAP s w) \<le> f" using t(1) by linarith
  moreover have "BITMAP s w \<noteq> - 1" using f(2) \<open>f mod 64 < 64\<close> word_not_full_iff by blast
  ultimately show "word_has_free s w" unfolding word_has_free_def using f(1) by simp
qed

lemma take_from_word_frees:
  assumes "word_has_free s w"
  obtains f s' where "take_from_word w s = (Some \<lparr>number = f\<rparr>, s')" "f \<in> free_frames s"
    "free_frames s' = free_frames s - {f}" "ACTUAL_WORDS s' = ACTUAL_WORDS s"
    "ACTUAL_FRAME_COUNT s' = ACTUAL_FRAME_COUNT s" "TOTAL_RAM s' = TOTAL_RAM s"
proof -
  let ?f = "w * 64 + trailing_ones (BITMAP s w)"
  have "free_frames (snd (take_from_word w s)) = free_frames (set_used ?f s)"
    by (simp add: take_from_word_def Let_def free_frames_def frame_used_def)
  then show ?thesis using that[of ?f "snd (take_from_word w s)"] word_has_freeD(1)[OF assms]
    by (simp add: free_frames_set_used) (simp add: take_from_word_def Let_def)
qed

text \<open>What \<open>allocate_frame\<close> promises, for both outcomes.\<close>

lemma allocate_frame_cases:
  assumes "frame_inv s"
  obtains (none) "allocate_frame s = (None, s)" "free_frames s = {}"
  | (some) f s' where "allocate_frame s = (Some \<lparr>number = f\<rparr>, s')" "f \<in> free_frames s"
    "free_frames s' = free_frames s - {f}" "frame_inv s'"
    "ACTUAL_FRAME_COUNT s' = ACTUAL_FRAME_COUNT s" "TOTAL_RAM s' = TOTAL_RAM s"
proof -
  let ?start = "min (NEXT_FREE s) (ACTUAL_WORDS s)"
  consider (hit) w where "word_has_free s w" "allocate_frame s = take_from_word w s"
    | (miss) "allocate_frame s = (None, s)" "\<forall>w < ACTUAL_WORDS s. \<not> word_has_free s w"
  proof (cases "scan (word_has_free s) ?start (ACTUAL_WORDS s)")
    case (Some w)
    then show ?thesis using that(1)[of w] by (auto simp: allocate_frame_def Let_def dest: scan_SomeD)
  next
    case outer: None
    show ?thesis
    proof (cases "scan (word_has_free s) 0 ?start")
      case (Some w)
      then show ?thesis using that(1)[of w] outer by (auto simp: allocate_frame_def Let_def dest: scan_SomeD)
    next
      case None
      have "\<not> word_has_free s w" if "w < ACTUAL_WORDS s" for w
        using outer None that by (cases "w < ?start") (auto simp: scan_None_iff)
      then show ?thesis using that(2) outer None by (simp add: allocate_frame_def Let_def)
    qed
  qed
  then show ?thesis
  proof cases
    case (hit w)
    from take_from_word_frees[OF hit(1)] show ?thesis
      using that(2) hit(2) assms by (metis frame_inv_def)
  next
    case miss
    have "f div 64 < ACTUAL_WORDS s" if "f \<in> free_frames s" for f
      using that frame_inv_word[OF assms] by (simp add: free_frames_def)
    then have "free_frames s = {}" using miss(2) word_has_free_iff[OF assms] by blast
    then show ?thesis using that(1) miss(1) by blast
  qed
qed

lemma deallocate_frame_frees:
  assumes "frame_inv s"
  shows "free_frames (deallocate_frame f s) =
      (if number f < ACTUAL_FRAME_COUNT s then insert (number f) (free_frames s) else free_frames s)"
    "frame_inv (deallocate_frame f s)" "ACTUAL_FRAME_COUNT (deallocate_frame f s) = ACTUAL_FRAME_COUNT s"
proof -
  have "free_frames (t\<lparr>STATS := x\<rparr>) = free_frames t" for t x
    by (simp add: free_frames_def frame_used_def)
  then show "free_frames (deallocate_frame f s) =
      (if number f < ACTUAL_FRAME_COUNT s then insert (number f) (free_frames s) else free_frames s)"
    by (simp add: deallocate_frame_def Let_def free_frames_set_free)
  show "frame_inv (deallocate_frame f s)" "ACTUAL_FRAME_COUNT (deallocate_frame f s) = ACTUAL_FRAME_COUNT s"
    using assms by (auto simp: deallocate_frame_def set_free_def Let_def frame_inv_def)
qed

subsection \<open>Counting\<close>

lemma bit_free_mask:
  assumes "i < 64"
  shows "bit (if w * 64 + 64 > n then NOT bits AND (push_bit (n - w * 64) 1 - 1) else NOT bits :: u64) i
    \<longleftrightarrow> \<not> bit bits i \<and> w * 64 + i < n"
proof -
  have m: "push_bit k 1 - 1 = (mask k :: u64)" for k by (simp add: mask_eq_exp_minus_1)
  have "bit (mask k :: u64) i \<longleftrightarrow> i < k" for k using assms by (simp add: bit_mask_iff)
  then show ?thesis using assms unfolding m
    by (cases "w * 64 + 64 > n") (simp_all add: bit_and_iff bit_not_iff less_diff_conv, linarith+)
qed

lemma free_in_word_eq:
  "free_in_word s w = length (filter (\<lambda>f. f \<in> free_frames s) [w * 64..<Suc w * 64])"
proof -
  have "[w * 64..<Suc w * 64] = map (\<lambda>i. w * 64 + i) [0..<64]"
    using map_add_upt[of "w * 64" 64] by (simp add: add.commute)
  then have "length (filter (\<lambda>f. f \<in> free_frames s) [w * 64..<Suc w * 64]) =
      length (filter (\<lambda>i. w * 64 + i \<in> free_frames s) [0..<64])"
    by (simp only: filter_map length_map comp_def)
  also have "filter (\<lambda>i. w * 64 + i \<in> free_frames s) [0..<64] =
      filter (bit (if w * 64 + 64 > ACTUAL_FRAME_COUNT s
        then NOT (BITMAP s w) AND (push_bit (ACTUAL_FRAME_COUNT s - w * 64) 1 - 1) else NOT (BITMAP s w))) [0..<64]"
    by (rule filter_cong[OF refl], subst bit_free_mask) (auto simp: free_frames_def frame_used_def)
  finally show ?thesis by (simp add: free_in_word_def count_ones_def Let_def)
qed

lemma sum_free_words:
  "sum_list (map (free_in_word s) [0..<n]) = length (filter (\<lambda>f. f \<in> free_frames s) [0..<n * 64])"
proof (induction n)
  case (Suc n)
  have "[0..<Suc n * 64] = [0..<n * 64] @ [n * 64..<Suc n * 64]"
    using upt_add_eq_append[of 0 "n * 64" 64] by (simp add: add.commute)
  then show ?case using Suc by (simp add: free_in_word_eq del: mult_Suc)
qed simp

lemma free_frame_count_card:
  assumes "frame_inv s"
  shows "free_frame_count s = card (free_frames s)"
proof -
  have "free_frames s = set (filter (\<lambda>f. f \<in> free_frames s) [0..<ACTUAL_WORDS s * 64])"
    using assms by (auto simp: frame_inv_def free_frames_def)
  then have "card (free_frames s) = length (filter (\<lambda>f. f \<in> free_frames s) [0..<ACTUAL_WORDS s * 64])"
    by (metis distinct_card distinct_filter distinct_upt)
  then show ?thesis by (simp add: free_frame_count_def sum_free_words)
qed

subsection \<open>Reserving ranges\<close>

lemma free_frames_fold_set_used:
  "free_frames (fold set_used fs s) = free_frames s - set fs"
  "ACTUAL_FRAME_COUNT (fold set_used fs s) = ACTUAL_FRAME_COUNT s"
  "ACTUAL_WORDS (fold set_used fs s) = ACTUAL_WORDS s"
  "TOTAL_RAM (fold set_used fs s) = TOTAL_RAM s"
  by (induction fs arbitrary: s) (auto simp: free_frames_set_used)

lemma mark_used_fields [simp]:
  "ACTUAL_FRAME_COUNT (mark_used a st en s) = ACTUAL_FRAME_COUNT s"
  "ACTUAL_WORDS (mark_used a st en s) = ACTUAL_WORDS s"
  "TOTAL_RAM (mark_used a st en s) = TOTAL_RAM s"
  by (auto simp: mark_used_def Let_def free_frames_fold_set_used)

lemma mark_used_inv [inv_intros]: "frame_inv s \<Longrightarrow> frame_inv (mark_used a st en s)"
  by (simp add: frame_inv_def)

lemma unat_pred_of_nat: "\<lbrakk>0 < n; n < 2 ^ 64\<rbrakk> \<Longrightarrow> unat (of_nat n - 1 :: usize) = n - 1"
  by (cases n) (simp_all add: unat_of_nat)

text \<open>A range inside the managed memory: exactly its frames stop being free.\<close>

lemma mark_used_reserves:
  assumes "frame_inv s" "st < en" "st < RAM_BASE a + of_nat (TOTAL_RAM s)"
  shows "free_frames (mark_used a st en s) =
    free_frames s - {frame_of a st..frame_of a (saturating_sub en 1)}"
proof -
  have "\<not> (en \<le> st \<or> RAM_BASE a + of_nat (TOTAL_RAM s) \<le> st)" using assms(2,3) by auto
  then have eq: "mark_used a st en s = fold set_used [frame_of a st..<
      Suc (min (frame_of a (saturating_sub en 1)) (unat (of_nat (ACTUAL_FRAME_COUNT s) - 1 :: usize)))] s"
    by (simp only: mark_used_def Let_def if_False)
  have "f \<le> unat (of_nat (ACTUAL_FRAME_COUNT s) - 1 :: usize)" if "f < ACTUAL_FRAME_COUNT s" for f
    using that unat_pred_of_nat[of "ACTUAL_FRAME_COUNT s"] frame_inv_count[OF assms(1)]
    by (simp add: MAX_WORDS_def)
  then show ?thesis unfolding eq free_frames_fold_set_used set_upt atLeastLessThanSuc_atLeastAtMost
    by (auto simp: free_frames_def)
qed

subsection \<open>Boot\<close>

lemma set_total_ram_inv [inv_intros]: "frame_inv (set_total_ram sz s)"
  by (auto simp: frame_inv_def set_total_ram_def Let_def MAX_FRAME_COUNT_def MAX_WORDS_def FRAME_SIZE_def min_def
      div_le_mono)

lemma frame_init_inv [inv_intros]: "frame_inv s \<Longrightarrow> frame_inv (frame_init a kernel_end s)"
  using set_total_ram_inv[of "push_bit 30 1" s] by (auto simp: frame_inv_def frame_init_def Let_def)

lemma reinit_inv [inv_intros]: "frame_inv (reinit n s)"
  by (auto simp: frame_inv_def reinit_def Let_def)

section \<open>The interface that the other components use\<close>

fun alloc_n :: "('s \<Rightarrow> PhysFrame option \<times> 's) \<Rightarrow> nat \<Rightarrow> 's \<Rightarrow> PhysFrame list \<times> 's" where
  "alloc_n alloc 0 s = ([], s)"
| "alloc_n alloc (Suc n) s = (case alloc s of
      (None, s') \<Rightarrow> ([], s')
    | (Some f, s') \<Rightarrow> (let (fs, s'') = alloc_n alloc n s' in (f # fs, s'')))"

locale frame_source =
  fixes inv :: "'s \<Rightarrow> bool"
    and free :: "'s \<Rightarrow> nat set"
    and alloc :: "'s \<Rightarrow> PhysFrame option \<times> 's"
    and dealloc :: "PhysFrame \<Rightarrow> 's \<Rightarrow> 's"
    and managed :: "'s \<Rightarrow> nat"
  assumes alloc_None: "\<lbrakk>inv s; alloc s = (None, s')\<rbrakk> \<Longrightarrow> s' = s \<and> free s = {}"
    and alloc_Some: "\<lbrakk>inv s; alloc s = (Some f, s')\<rbrakk> \<Longrightarrow>
      number f \<in> free s \<and> free s' = free s - {number f} \<and> inv s' \<and> managed s' = managed s"
    and dealloc_free: "inv s \<Longrightarrow> free (dealloc f s) =
      (if number f < managed s then insert (number f) (free s) else free s)"
    and dealloc_inv: "inv s \<Longrightarrow> inv (dealloc f s) \<and> managed (dealloc f s) = managed s"
    and free_managed: "inv s \<Longrightarrow> free s \<subseteq> {..<managed s}"
begin

lemma free_finite: "inv s \<Longrightarrow> finite (free s)"
  using free_managed by (metis finite_lessThan finite_subset)

text \<open>A batch of allocations returns distinct frames, as many as asked for or as there are.\<close>

lemma alloc_n_spec:
  assumes "inv s" "alloc_n alloc n s = (fs, s')"
  shows "distinct (map number fs) \<and> set (map number fs) \<subseteq> free s \<and>
    free s' = free s - set (map number fs) \<and> length fs = min n (card (free s)) \<and> inv s' \<and> managed s' = managed s"
  using assms
proof (induction n arbitrary: s fs s')
  case 0
  then show ?case by simp
next
  case (Suc n)
  show ?case
  proof (cases "alloc s")
    case (Pair r s1)
    show ?thesis
    proof (cases r)
      case None
      then show ?thesis using Suc.prems Pair alloc_None[of s s1] by auto
    next
      case (Some f)
      note law = alloc_Some[of s f s1]
      obtain fs1 where fs1: "alloc_n alloc n s1 = (fs1, s')" "fs = f # fs1"
        using Suc.prems Pair Some by (auto split: prod.splits)
      have IH: "distinct (map number fs1) \<and> set (map number fs1) \<subseteq> free s1 \<and>
          free s' = free s1 - set (map number fs1) \<and> length fs1 = min n (card (free s1)) \<and> inv s' \<and> managed s' = managed s1"
        using Suc.IH[of s1 fs1 s'] law Suc.prems(1) Pair Some fs1 by blast
      have "card (free s) = Suc (card (free s1))"
        using law Suc.prems(1) Pair Some free_finite[of s] card_Suc_Diff1[of "free s" "number f"] by simp
      then show ?thesis using IH law Suc.prems(1) Pair Some fs1(2) by auto
    qed
  qed
qed

text \<open>Giving a frame back makes it available: after that, allocation cannot fail.\<close>

lemma realloc_after_dealloc:
  assumes "inv s" "number f < managed s"
  shows "fst (alloc (dealloc f s)) \<noteq> None"
  using alloc_None[of "dealloc f s"] dealloc_free[OF assms(1), of f] dealloc_inv[OF assms(1), of f] assms(2)
  by (metis insert_not_empty prod.collapse)

end

interpretation fra: frame_source frame_inv free_frames allocate_frame deallocate_frame ACTUAL_FRAME_COUNT
proof (unfold_locales, goal_cases)
  case (1 s s')
  show ?case by (rule allocate_frame_cases[OF 1(1)]) (use 1 in auto)
next
  case (2 s f s')
  show ?case by (rule allocate_frame_cases[OF 2(1)]) (use 2 in auto)
next
  case (3 s f)
  then show ?case by (rule deallocate_frame_frees(1))
next
  case (4 s f)
  then show ?case using deallocate_frame_frees(2,3) by simp
next
  case (5 s)
  then show ?case by (auto simp: free_frames_def)
qed

section \<open>Allocation histories\<close>

text \<open>
  A kernel that allocates frames and gives back frames it owns; the second
  component is the set of frames it owns.
\<close>

inductive frame_step :: "frame_state \<times> nat set \<Rightarrow> frame_state \<times> nat set \<Rightarrow> bool" where
  step_alloc: "allocate_frame s = (Some f, s') \<Longrightarrow> frame_step (s, live) (s', insert (number f) live)"
| step_fail: "allocate_frame s = (None, s') \<Longrightarrow> frame_step (s, live) (s', live)"
| step_free: "number f \<in> live \<Longrightarrow> frame_step (s, live) (deallocate_frame f s, live - {number f})"

inductive_cases frame_stepE: "frame_step (s, live) (s', live')"

definition frame_hist_inv :: "frame_state \<times> nat set \<Rightarrow> bool" where
  "frame_hist_inv p \<longleftrightarrow> frame_inv (fst p) \<and> free_frames (fst p) \<inter> snd p = {} \<and>
     snd p \<subseteq> {..<ACTUAL_FRAME_COUNT (fst p)}"

lemma frame_step_inv:
  assumes "frame_step p q" "frame_hist_inv p"
  shows "frame_hist_inv q \<and> ACTUAL_FRAME_COUNT (fst q) = ACTUAL_FRAME_COUNT (fst p) \<and>
    free_frames (fst q) \<union> snd q = free_frames (fst p) \<union> snd p"
  using assms(1)
proof cases
  case (step_alloc s f s' live)
  then show ?thesis using assms(2) fra.alloc_Some[of s f s'] fra.free_managed[of s]
    by (auto simp: frame_hist_inv_def)
next
  case (step_fail s s' live)
  then show ?thesis using assms(2) fra.alloc_None[of s s'] by (auto simp: frame_hist_inv_def)
next
  case (step_free f live s)
  then show ?thesis using assms(2) fra.dealloc_free[of s f] fra.dealloc_inv[of s f]
    by (auto simp: frame_hist_inv_def)
qed

lemma frame_steps_inv:
  assumes "frame_step\<^sup>*\<^sup>* p q" "frame_hist_inv p"
  shows "frame_hist_inv q \<and> ACTUAL_FRAME_COUNT (fst q) = ACTUAL_FRAME_COUNT (fst p) \<and>
    free_frames (fst q) \<union> snd q = free_frames (fst p) \<union> snd p"
  using assms by (induction rule: rtranclp_induct) (auto dest: frame_step_inv)

text \<open>
  C1: no double allocation. Starting from any well-formed allocator that owns
  nothing, and after any history of allocations and of giving back owned frames, a
  newly allocated frame is not one that is still owned, it lies below the managed
  frame count, and allocation fails only when every initially free frame is owned.
\<close>

theorem frame_no_double_allocation:
  assumes "frame_inv s0" "frame_step\<^sup>*\<^sup>* (s0, {}) (s, live)"
  shows "case allocate_frame s of
      (Some f, s') \<Rightarrow> number f \<notin> live \<and> number f < ACTUAL_FRAME_COUNT s0
    | (None, s') \<Rightarrow> live = free_frames s0"
proof -
  have h: "frame_hist_inv (s, live)" "ACTUAL_FRAME_COUNT s = ACTUAL_FRAME_COUNT s0"
      "free_frames s \<union> live = free_frames s0"
    using frame_steps_inv[OF assms(2)] assms(1) by (auto simp: frame_hist_inv_def)
  then have inv: "frame_inv s" by (simp add: frame_hist_inv_def)
  show ?thesis
    by (rule allocate_frame_cases[OF inv]) (use h in \<open>auto simp: frame_hist_inv_def free_frames_def\<close>)
qed

definition two_frames :: frame_state where
  "two_frames = set_total_ram 0x2000 frame_boot"

lemma trailing_ones_0 [simp]: "trailing_ones 0 = 0"
proof -
  have "scan (\<lambda>i. \<not> bit (0 :: u64) i) 0 64 = Some 0" by (simp add: scan_Some_iff)
  then show ?thesis by (simp add: trailing_ones_def)
qed

lemma two_frames_fields:
  "ACTUAL_WORDS two_frames = 1" "ACTUAL_FRAME_COUNT two_frames = 2" "NEXT_FREE two_frames = 0"
  "BITMAP two_frames w = 0" "TOTAL_RAM two_frames = 8192"
  by (simp_all add: two_frames_def set_total_ram_def frame_boot_def Let_def MAX_FRAME_COUNT_def
      MAX_WORDS_def FRAME_SIZE_def)

lemma two_frames_first: "allocate_frame two_frames = (Some \<lparr>number = 0\<rparr>, snd (allocate_frame two_frames))"
proof -
  have "word_has_free two_frames 0" by (simp add: word_has_free_def two_frames_fields)
  then have "scan (word_has_free two_frames) 0 1 = Some 0" by (simp add: scan_Some_iff)
  then show ?thesis by (simp add: allocate_frame_def two_frames_fields take_from_word_def Let_def)
qed

theorem frame_no_double_allocation_witness:
  "\<exists>s. frame_step\<^sup>*\<^sup>* (two_frames, {}) (s, {0}) \<and>
     (case allocate_frame s of
        (Some f, s') \<Rightarrow> number f \<notin> {0} \<and> number f < ACTUAL_FRAME_COUNT two_frames
      | (None, s') \<Rightarrow> {0} = free_frames two_frames)"
proof -
  have st: "frame_step\<^sup>*\<^sup>* (two_frames, {}) (snd (allocate_frame two_frames), {0})"
    using step_alloc[OF two_frames_first, of "{}"] by auto
  have "frame_inv two_frames" unfolding two_frames_def by (rule set_total_ram_inv)
  from frame_no_double_allocation[OF this st] show ?thesis
    by (intro exI[of _ "snd (allocate_frame two_frames)"] conjI st)
qed

text \<open>
  C25: the free-frame counter is exact. \<open>free_frame_count\<close>, which adds up population
  counts of masked words, equals the number of frames \<open>allocate_frame\<close> can still hand
  out, and a batch of that many allocations (and no more) succeeds with distinct frames.
\<close>

theorem frame_count_is_available:
  assumes "frame_inv s" "alloc_n allocate_frame n s = (fs, s')"
  shows "length fs = min n (free_frame_count s) \<and> distinct (map number fs) \<and>
    free_frame_count s' = free_frame_count s - length fs"
proof -
  note spec = fra.alloc_n_spec[OF assms]
  then have "card (set (map number fs)) = length fs" by (metis distinct_card length_map)
  then have "card (free_frames s') = card (free_frames s) - length fs"
    using spec by (metis List.finite_set card_Diff_subset)
  then show ?thesis using spec free_frame_count_card[OF assms(1)] free_frame_count_card[of s'] by metis
qed

theorem frame_count_is_available_witness:
  "\<exists>fs s'. alloc_n allocate_frame 1 two_frames = (fs, s') \<and> length fs = min 1 (free_frame_count two_frames)
    \<and> distinct (map number fs) \<and> free_frame_count s' = free_frame_count two_frames - length fs"
proof -
  have inv: "frame_inv two_frames" unfolding two_frames_def by (rule set_total_ram_inv)
  obtain fs s' where eq: "alloc_n allocate_frame 1 two_frames = (fs, s')" by (rule prod.exhaust)
  from frame_count_is_available[OF inv eq] show ?thesis by (intro exI[of _ fs] exI[of _ s'] conjI[OF eq])
qed




end
