(* ===== verification/Heap.thy ===== *)
theory Heap
  imports Prelude
begin

text \<open>
  The kernel heap (\<open>src/allocator.rs\<close>, \<open>src/heap.rs\<close>): a bump allocator and, on top of
  it, free lists for nine block sizes whose links are stored inside the free blocks.
  Pointers are 64-bit words; the cells of memory that hold links are a function from
  address to word.  All links are stored at the start of a block, and blocks are
  aligned to their size, so cells never overlap partially.
\<close>

section \<open>State and operations\<close>

text \<open>What the source uses of \<open>core::alloc::Layout\<close>, with its documented guarantee.\<close>

record Layout =
  lsize :: usize
  lalign :: usize

definition layout_ok :: "Layout \<Rightarrow> bool" where
  "layout_ok l \<longleftrightarrow> (\<exists>k<63. lalign l = 2 ^ k) \<and> 0 < lsize l \<and> unat (lsize l) + unat (lalign l) \<le> 2 ^ 63"

record BumpAllocator =
  bnext :: usize
  bend :: usize

definition bump_new :: BumpAllocator where
  "bump_new = \<lparr>bnext = 0, bend = 0\<rparr>"

definition bump_init :: "usize \<Rightarrow> usize \<Rightarrow> BumpAllocator \<Rightarrow> BumpAllocator" where
  "bump_init start sz b = b\<lparr>bnext := start, bend := start + sz\<rparr>"

definition bump_alloc :: "Layout \<Rightarrow> BumpAllocator \<Rightarrow> usize \<times> BumpAllocator" where
  "bump_alloc layout b = (let align = lalign layout; sz = lsize layout;
      aligned_start = (bnext b + align - 1) AND NOT (align - 1);
      allocated_end = aligned_start + sz in
    if allocated_end > bend b then (0, b)
    else (aligned_start, b\<lparr>bnext := allocated_end\<rparr>))"

definition bump_dealloc :: "usize \<Rightarrow> Layout \<Rightarrow> BumpAllocator \<Rightarrow> BumpAllocator" where
  "bump_dealloc ptr layout b = b"

definition BLOCK_SIZES :: "usize list" where
  "BLOCK_SIZES = [8, 16, 32, 64, 128, 256, 512, 1024, 2048]"

record FixedBlockAllocator =
  list_heads :: "nat \<Rightarrow> usize"
  bump :: BumpAllocator
  link :: "usize \<Rightarrow> usize"

definition fixed_new :: "(usize \<Rightarrow> usize) \<Rightarrow> FixedBlockAllocator" where
  "fixed_new cells = \<lparr>list_heads = (\<lambda>_. 0), bump = bump_new, link = cells\<rparr>"

definition fixed_init :: "usize \<Rightarrow> usize \<Rightarrow> FixedBlockAllocator \<Rightarrow> FixedBlockAllocator" where
  "fixed_init heap_start heap_size h = h\<lparr>bump := bump_init heap_start heap_size (bump h)\<rparr>"

definition get_block_index :: "Layout \<Rightarrow> nat option" where
  "get_block_index layout = (let required_size = max (lsize layout) (lalign layout) in
    scan (\<lambda>i. BLOCK_SIZES ! i \<ge> required_size) 0 (length BLOCK_SIZES))"

definition fixed_alloc :: "Layout \<Rightarrow> FixedBlockAllocator \<Rightarrow> usize \<times> FixedBlockAllocator" where
  "fixed_alloc layout h = (case get_block_index layout of
      Some index \<Rightarrow> (let current_head = list_heads h index in
        if current_head \<noteq> 0
        then (current_head, h\<lparr>list_heads := (list_heads h)(index := link h current_head)\<rparr>)
        else let block_size = BLOCK_SIZES ! index;
            (p, b) = bump_alloc \<lparr>lsize = block_size, lalign = block_size\<rparr> (bump h) in
          (p, h\<lparr>bump := b\<rparr>))
    | None \<Rightarrow> (let (p, b) = bump_alloc layout (bump h) in (p, h\<lparr>bump := b\<rparr>)))"

definition fixed_dealloc :: "usize \<Rightarrow> Layout \<Rightarrow> FixedBlockAllocator \<Rightarrow> FixedBlockAllocator" where
  "fixed_dealloc ptr layout h = (case get_block_index layout of
      Some index \<Rightarrow> h\<lparr>link := (link h)(ptr := list_heads h index), list_heads := (list_heads h)(index := ptr)\<rparr>
    | None \<Rightarrow> h)"

definition HEAP_SIZE :: usize where
  "HEAP_SIZE = 64 * 1024"

definition init_heap :: "usize \<Rightarrow> FixedBlockAllocator \<Rightarrow> FixedBlockAllocator" where
  "init_heap heap_start h = fixed_init heap_start HEAP_SIZE h"

section \<open>Rounding up to an alignment\<close>

lemma round_up_bounds:
  fixes n :: nat
  assumes "0 < a"
  shows "a dvd (n + a - 1) div a * a" "n \<le> (n + a - 1) div a * a" "(n + a - 1) div a * a < n + a"
proof -
  have d: "(n + a - 1) div a * a + (n + a - 1) mod a = n + a - 1" by (rule div_mult_mod_eq)
  have "(n + a - 1) mod a < a" using assms by simp
  then show "n \<le> (n + a - 1) div a * a" using d assms by linarith
  show "(n + a - 1) div a * a < n + a" using d assms by linarith
  show "a dvd (n + a - 1) div a * a" by simp
qed

text \<open>
  The bump allocator on a layout that satisfies the guarantee: either nothing fits
  and the state is unchanged, or the block is aligned, starts at or after the old
  \<open>next\<close>, and ends at the new \<open>next\<close>, within the heap.
\<close>

lemma bump_alloc_cases:
  assumes "layout_ok l" "unat (bend b) < 2 ^ 63" "unat (bnext b) \<le> unat (bend b)"
  obtains (full) "bump_alloc l b = (0, b)"
  | (block) p b' where "bump_alloc l b = (p, b')" "unat (lalign l) dvd unat p" "unat (bnext b) \<le> unat p"
    "unat (bnext b') = unat p + unat (lsize l)" "unat (bnext b') \<le> unat (bend b)" "bend b' = bend b"
proof -
  obtain k where k: "k < 63" "lalign l = 2 ^ k" using assms(1) by (auto simp: layout_ok_def)
  have a: "unat (lalign l) = 2 ^ k" using k by (simp add: unat_pow2)
  let ?n = "unat (bnext b)" and ?p = "(bnext b + lalign l - 1) AND NOT (lalign l - 1)"
  have sz: "unat (lsize l) + 2 ^ k \<le> (2 :: nat) ^ 63" using assms(1) a by (simp add: layout_ok_def)
  have k63: "(2 :: nat) ^ k \<le> 2 ^ 63" using sz by linarith
  have "?n + 2 ^ k < 2 ^ 64" using assms(2,3) k63 by simp
  then have "unat (bnext b + lalign l) = ?n + 2 ^ k" using a by (simp add: unat_plus_simple_le)
  moreover have "(1 :: usize) \<le> bnext b + lalign l"
    using calculation by (simp add: word_le_nat_alt Suc_le_eq)
  ultimately have sum: "unat (bnext b + lalign l - 1) = ?n + 2 ^ k - 1" by (simp add: unat_sub)
  have p: "unat ?p = (?n + 2 ^ k - 1) div 2 ^ k * 2 ^ k" unfolding k(2)
    using and_not_mask_unat[of "bnext b + 2 ^ k - 1" k] sum k(2) by simp
  note r = round_up_bounds[of "2 ^ k" ?n]
  have e: "unat (?p + lsize l) = unat ?p + unat (lsize l)"
    using r p sz assms(2,3) by (intro unat_plus_simple_le) simp
  show ?thesis
  proof (cases "?p + lsize l > bend b")
    case True
    then show ?thesis using that(1) by (simp add: bump_alloc_def Let_def)
  next
    case False
    then have "unat (?p + lsize l) \<le> unat (bend b)" by (simp only: word_le_nat_alt[symmetric] not_less)
    then show ?thesis using False that(2)[of ?p "b\<lparr>bnext := ?p + lsize l\<rparr>"] r a p e
      by (simp add: bump_alloc_def Let_def)
  qed
qed

section \<open>Disjoint regions\<close>

type_synonym region = "nat \<times> nat"   \<comment> \<open>start and length\<close>

fun separate :: "region \<Rightarrow> region \<Rightarrow> bool" where
  "separate (a, n) (b, m) \<longleftrightarrow> a + n \<le> b \<or> b + m \<le> a"

definition regions_ok :: "nat \<Rightarrow> nat \<Rightarrow> region set \<Rightarrow> region set \<Rightarrow> bool" where
  "regions_ok lo hi F L \<longleftrightarrow> F \<inter> L = {} \<and>
    (\<forall>r \<in> F \<union> L. lo \<le> fst r \<and> 0 < snd r \<and> fst r + snd r \<le> hi) \<and>
    (\<forall>r \<in> F \<union> L. \<forall>r' \<in> F \<union> L. r \<noteq> r' \<longrightarrow> separate r r')"

lemma regions_sep: "\<lbrakk>regions_ok lo hi F L; r \<in> F \<union> L; r' \<in> F \<union> L; r \<noteq> r'\<rbrakk> \<Longrightarrow> separate r r'"
  unfolding regions_ok_def by (elim conjE) (drule (1) bspec, drule (1) bspec, erule (1) mp)

lemma regions_bounds:
  "\<lbrakk>regions_ok lo hi F L; r \<in> F \<union> L\<rbrakk> \<Longrightarrow> lo \<le> fst r \<and> 0 < snd r \<and> fst r + snd r \<le> hi"
  unfolding regions_ok_def by (elim conjE) (erule (1) bspec)

lemma regions_okI:
  assumes "F \<inter> L = {}" "\<And>r. r \<in> F \<union> L \<Longrightarrow> lo \<le> fst r \<and> 0 < snd r \<and> fst r + snd r \<le> hi"
    "\<And>r r'. \<lbrakk>r \<in> F \<union> L; r' \<in> F \<union> L; r \<noteq> r'\<rbrakk> \<Longrightarrow> separate r r'"
  shows "regions_ok lo hi F L"
  unfolding regions_ok_def by (intro conjI ballI impI assms)

lemma regions_disjoint: "regions_ok lo hi F L \<Longrightarrow> F \<inter> L = {}"
  unfolding regions_ok_def by (elim conjE)

lemma regions_same_start:
  assumes "regions_ok lo hi F L" "(p, n) \<in> F \<union> L" "(p, m) \<in> F \<union> L"
  shows "n = m"
proof (rule ccontr)
  assume "n \<noteq> m"
  then have "separate (p, n) (p, m)" using regions_sep[OF assms] by simp
  then show False using regions_bounds[OF assms(1,2)] regions_bounds[OF assms(1,3)] by simp
qed

lemma regions_take:
  assumes "regions_ok lo hi F L" "r \<in> F"
  shows "regions_ok lo hi (F - {r}) (insert r L)"
proof -
  have "(F - {r}) \<union> insert r L = F \<union> L" using assms(2) by blast
  moreover have "(F - {r}) \<inter> insert r L = {}" using regions_disjoint[OF assms(1)] by blast
  ultimately show ?thesis using assms(1) unfolding regions_ok_def by simp
qed

lemma regions_give:
  assumes "regions_ok lo hi F L" "r \<in> L"
  shows "regions_ok lo hi (insert r F) (L - {r})"
proof -
  have "insert r F \<union> (L - {r}) = F \<union> L" using assms(2) by blast
  moreover have "insert r F \<inter> (L - {r}) = {}" using regions_disjoint[OF assms(1)] by blast
  ultimately show ?thesis using assms(1) unfolding regions_ok_def by simp
qed

lemma regions_subset:
  assumes "regions_ok lo hi F L" "L' \<subseteq> L"
  shows "regions_ok lo hi F L'"
proof (rule regions_okI)
  show "F \<inter> L' = {}" using regions_disjoint[OF assms(1)] assms(2) by blast
qed (use regions_bounds[OF assms(1)] regions_sep[OF assms(1)] assms(2) in blast)+

lemma regions_new:
  assumes "regions_ok lo hi F L" "lo \<le> hi" "hi \<le> p" "0 < n" "p + n \<le> hi'"
  shows "regions_ok lo hi' F (insert (p, n) L)"
proof (rule regions_okI)
  have sep: "separate r (p, n) \<and> separate (p, n) r" if "r \<in> F \<union> L" for r
    using regions_bounds[OF assms(1) that] assms(3) by (cases r) auto
  have "(p, n) \<notin> F" using regions_bounds[OF assms(1), of "(p, n)"] assms(3,4) by auto
  then show "F \<inter> insert (p, n) L = {}" using regions_disjoint[OF assms(1)] by blast
  show "lo \<le> fst r \<and> 0 < snd r \<and> fst r + snd r \<le> hi'" if "r \<in> F \<union> insert (p, n) L" for r
  proof (cases "r = (p, n)")
    case False
    then have "r \<in> F \<union> L" using that by blast
    then show ?thesis using regions_bounds[OF assms(1)] assms(2-5) by fastforce
  qed (use assms in simp)
  show "separate r r'" if "r \<in> F \<union> insert (p, n) L" "r' \<in> F \<union> insert (p, n) L" "r \<noteq> r'" for r r'
    using that sep regions_sep[OF assms(1)] by blast
qed

section \<open>The heap invariant\<close>

fun chain :: "(usize \<Rightarrow> usize) \<Rightarrow> usize \<Rightarrow> usize list \<Rightarrow> bool" where
  "chain m p [] \<longleftrightarrow> p = 0"
| "chain m p (x # xs) \<longleftrightarrow> p = x \<and> x \<noteq> 0 \<and> chain m (m x) xs"

lemma chain_cong: "(\<And>x. x \<in> set xs \<Longrightarrow> m' x = m x) \<Longrightarrow> chain m' p xs = chain m p xs"
  by (induction xs arbitrary: p) auto

abbreviation class_size :: "nat \<Rightarrow> nat" where
  "class_size i \<equiv> unat (BLOCK_SIZES ! i)"

definition block_len :: "Layout \<Rightarrow> nat" where
  "block_len l = (case get_block_index l of Some i \<Rightarrow> class_size i | None \<Rightarrow> unat (lsize l))"

definition free_regions :: "(nat \<Rightarrow> usize list) \<Rightarrow> region set" where
  "free_regions fl = {(unat p, class_size i) | i p. i < 9 \<and> p \<in> set (fl i)}"

definition live_regions :: "(usize \<times> Layout) set \<Rightarrow> region set" where
  "live_regions live = {(unat p, block_len l) | p l. (p, l) \<in> live}"

text \<open>
  \<open>fl i\<close> lists the free blocks of class \<open>i\<close>, \<open>live\<close> the blocks handed out and not
  yet returned, with the layouts they were requested with.
\<close>

definition heap_inv :: "nat \<Rightarrow> FixedBlockAllocator \<Rightarrow> (nat \<Rightarrow> usize list) \<Rightarrow> (usize \<times> Layout) set \<Rightarrow> bool" where
  "heap_inv lo h fl live \<longleftrightarrow>
    0 < lo \<and> lo \<le> unat (bnext (bump h)) \<and> unat (bnext (bump h)) \<le> unat (bend (bump h)) \<and>
    unat (bend (bump h)) < 2 ^ 63 \<and>
    (\<forall>i<9. chain (link h) (list_heads h i) (fl i) \<and> distinct (fl i) \<and> (\<forall>p \<in> set (fl i). class_size i dvd unat p)) \<and>
    (\<forall>p l. (p, l) \<in> live \<longrightarrow> layout_ok l \<and> (\<forall>i. get_block_index l = Some i \<longrightarrow> class_size i dvd unat p)) \<and>
    regions_ok lo (unat (bnext (bump h))) (free_regions fl) (live_regions live) \<and>
    (\<forall>p l l'. (p, l) \<in> live \<and> (p, l') \<in> live \<longrightarrow> l = l')"

lemma block_index_bounds:
  assumes "get_block_index l = Some i"
  shows "i < 9" "unat (lsize l) \<le> class_size i" "unat (lalign l) \<le> class_size i"
proof -
  have "length BLOCK_SIZES = 9" by (simp add: BLOCK_SIZES_def)
  then have "i < 9" "max (lsize l) (lalign l) \<le> BLOCK_SIZES ! i"
    using assms by (auto simp: get_block_index_def Let_def dest: scan_SomeD)
  then show "i < 9" "unat (lsize l) \<le> class_size i" "unat (lalign l) \<le> class_size i"
    by (auto simp: word_le_nat_alt[symmetric])
qed

lemma class_size_pow2:
  assumes "i < 9"
  shows "class_size i = 2 ^ (i + 3)"
proof -
  consider "i = 0" | "i = 1" | "i = 2" | "i = 3" | "i = 4" | "i = 5" | "i = 6" | "i = 7" | "i = 8"
    using assms by linarith
  then show ?thesis by cases (simp_all add: BLOCK_SIZES_def)
qed

lemma class_size_inj: "\<lbrakk>i < 9; j < 9; class_size i = class_size j\<rbrakk> \<Longrightarrow> i = j"
  by (simp add: class_size_pow2)

lemma class_layout_ok: "i < 9 \<Longrightarrow> layout_ok \<lparr>lsize = BLOCK_SIZES ! i, lalign = BLOCK_SIZES ! i\<rparr>"
proof -
  assume i: "i < 9"
  have "BLOCK_SIZES ! i = 2 ^ (i + 3)"
    using class_size_pow2[OF i] i by (intro word_unat_eq_iff[THEN iffD2]) (simp add: unat_pow2)
  moreover have "(2 :: nat) ^ (i + 3) \<le> 2 ^ 11" using i by (intro power_increasing) auto
  ultimately show ?thesis using i class_size_pow2[OF i]
    by (auto simp: layout_ok_def word_less_nat_alt intro!: exI[of _ "i + 3"])
qed

lemma align_dvd_class:
  assumes "layout_ok l" "get_block_index l = Some i"
  shows "unat (lalign l) dvd class_size i"
proof -
  obtain k where k: "k < 63" "lalign l = 2 ^ k" using assms(1) by (auto simp: layout_ok_def)
  then have "unat (lalign l) = 2 ^ k" by (simp add: unat_pow2)
  then show ?thesis using block_index_bounds[OF assms(2)] class_size_pow2[of i]
    by (simp add: le_imp_power_dvd)
qed

lemma block_len_size: "unat (lsize l) \<le> block_len l"
  by (auto simp: block_len_def block_index_bounds split: option.splits)

lemma block_len_pos: "layout_ok l \<Longrightarrow> 0 < block_len l"
  using block_len_size[of l] by (simp add: layout_ok_def word_less_nat_alt)

lemma heap_invD:
  assumes "heap_inv lo h fl live"
  shows "0 < lo" "lo \<le> unat (bnext (bump h))" "unat (bnext (bump h)) \<le> unat (bend (bump h))"
    "unat (bend (bump h)) < 2 ^ 63"
    "i < 9 \<Longrightarrow> chain (link h) (list_heads h i) (fl i)" "i < 9 \<Longrightarrow> distinct (fl i)"
    "\<lbrakk>i < 9; p \<in> set (fl i)\<rbrakk> \<Longrightarrow> class_size i dvd unat p"
    "(p, l) \<in> live \<Longrightarrow> layout_ok l"
    "\<lbrakk>(p, l) \<in> live; get_block_index l = Some i\<rbrakk> \<Longrightarrow> class_size i dvd unat p"
    "regions_ok lo (unat (bnext (bump h))) (free_regions fl) (live_regions live)"
    "\<lbrakk>(p, l) \<in> live; (p, l') \<in> live\<rbrakk> \<Longrightarrow> l = l'"
  using assms unfolding heap_inv_def by blast+

lemma live_regions_insert: "live_regions (insert (p, l) live) = insert (unat p, block_len l) (live_regions live)"
  by (auto simp: live_regions_def)

lemma free_regionsI: "\<lbrakk>i < 9; p \<in> set (fl i)\<rbrakk> \<Longrightarrow> (unat p, class_size i) \<in> free_regions fl"
  by (auto simp: free_regions_def)

lemma live_regionsI: "(p, l) \<in> live \<Longrightarrow> (unat p, block_len l) \<in> live_regions live"
  by (auto simp: live_regions_def)

lemma free_regions_pop:
  assumes "i < 9" "fl i = p # ps" "distinct (fl i)"
  shows "free_regions (fl(i := ps)) = free_regions fl - {(unat p, class_size i)}"
proof (intro equalityI subsetI)
  fix r assume "r \<in> free_regions (fl(i := ps))"
  then obtain j q where r: "r = (unat q, class_size j)" "j < 9" "q \<in> set ((fl(i := ps)) j)"
    by (auto simp: free_regions_def)
  then have "q \<in> set (fl j)" using assms(2) by (auto split: if_splits)
  moreover have "r \<noteq> (unat p, class_size i)"
  proof
    assume "r = (unat p, class_size i)"
    then have "j = i" "q = p" using r class_size_inj[OF r(2) assms(1)] by (auto simp: word_unat_eq_iff)
    then show False using r(3) assms(2,3) by simp
  qed
  ultimately show "r \<in> free_regions fl - {(unat p, class_size i)}" using r free_regionsI by blast
next
  fix r assume "r \<in> free_regions fl - {(unat p, class_size i)}"
  then obtain j q where r: "r = (unat q, class_size j)" "j < 9" "q \<in> set (fl j)" "r \<noteq> (unat p, class_size i)"
    by (auto simp: free_regions_def)
  then have "q \<in> set ((fl(i := ps)) j)" using assms(2) by auto
  then show "r \<in> free_regions (fl(i := ps))" using r free_regionsI by blast
qed

lemma free_regions_push:
  "i < 9 \<Longrightarrow> free_regions (fl(i := p # fl i)) = insert (unat p, class_size i) (free_regions fl)"
  by (auto simp: free_regions_def split: if_splits)

text \<open>Taking the head of a free list.\<close>

lemma heap_inv_pop:
  assumes inv: "heap_inv lo h fl live" and l: "layout_ok l" "get_block_index l = Some i"
    and p: "list_heads h i = p" "p \<noteq> 0"
  shows "\<exists>fl'. heap_inv lo (h\<lparr>list_heads := (list_heads h)(i := link h p)\<rparr>) fl' (insert (p, l) live)"
    and "class_size i dvd unat p" and "(p, m) \<notin> live"
proof -
  note D = heap_invD[OF inv]
  have i: "i < 9" using block_index_bounds[OF l(2)] by simp
  obtain ps where fl: "fl i = p # ps" "chain (link h) (link h p) ps"
    using D(5)[OF i] p by (cases "fl i") auto
  show dv: "class_size i dvd unat p" using D(7)[OF i] fl(1) by simp
  have len: "block_len l = class_size i" using l(2) by (simp add: block_len_def)
  have mem: "(unat p, class_size i) \<in> free_regions fl" using free_regionsI[OF i] fl(1) by simp
  have reg: "regions_ok lo (unat (bnext (bump h))) (free_regions (fl(i := ps))) (live_regions (insert (p, l) live))"
    using regions_take[OF D(10) mem] free_regions_pop[where fl = fl, OF i fl(1) D(6)[OF i]]
    by (simp only: live_regions_insert len)
  have new: "(p, l') \<notin> live" for l'
    using regions_same_start[OF D(10), of "unat p" "class_size i" "block_len l'"] regions_disjoint[OF D(10)]
      mem live_regionsI[of p l' live] by auto
  show "(p, m) \<notin> live" by (rule new)
  have "heap_inv lo (h\<lparr>list_heads := (list_heads h)(i := link h p)\<rparr>) (fl(i := ps)) (insert (p, l) live)"
    unfolding heap_inv_def
  proof (intro conjI allI impI)
    show "chain (link (h\<lparr>list_heads := (list_heads h)(i := link h p)\<rparr>))
        (list_heads (h\<lparr>list_heads := (list_heads h)(i := link h p)\<rparr>) j) ((fl(i := ps)) j)" if "j < 9" for j
      using D(5)[OF that] fl(2) by simp
    show "distinct ((fl(i := ps)) j)" if "j < 9" for j using D(6)[OF that] fl(1) by (cases "j = i") auto
    show "\<forall>q \<in> set ((fl(i := ps)) j). class_size j dvd unat q" if "j < 9" for j
      using D(7)[OF that] fl(1) by (cases "j = i") auto
    show "layout_ok m" if "(q, m) \<in> insert (p, l) live" for q m using that l(1) D(8) by blast
    show "class_size j dvd unat q" if "(q, m) \<in> insert (p, l) live" "get_block_index m = Some j" for q m j
      using that l(2) dv D(9) by auto
    show "m = m'" if "(q, m) \<in> insert (p, l) live \<and> (q, m') \<in> insert (p, l) live" for q m m'
      using that new D(11) by blast
  qed (use D reg in simp_all)
  then show "\<exists>fl'. heap_inv lo (h\<lparr>list_heads := (list_heads h)(i := link h p)\<rparr>) fl' (insert (p, l) live)" by blast
qed

text \<open>Carving a block of \<open>n\<close> bytes off the bump region.\<close>

lemma heap_inv_carve:
  assumes inv: "heap_inv lo h fl live" and l: "layout_ok l"
    and b: "unat (bnext (bump h)) \<le> unat p" "unat (bnext b) = unat p + block_len l"
      "unat (bnext b) \<le> unat (bend (bump h))" "bend b = bend (bump h)"
    and al: "\<And>i. get_block_index l = Some i \<Longrightarrow> class_size i dvd unat p"
  shows "heap_inv lo (h\<lparr>bump := b\<rparr>) fl (insert (p, l) live)" and "(p, m) \<notin> live"
proof -
  note D = heap_invD[OF inv]
  have reg: "regions_ok lo (unat (bnext b)) (free_regions fl) (live_regions (insert (p, l) live))"
    unfolding live_regions_insert
    using regions_new[OF D(10) D(2) b(1) block_len_pos[OF l]] b(2) by simp
  have new: "(p, l') \<notin> live" for l'
    using regions_bounds[OF D(10), of "(unat p, block_len l')"] live_regionsI[of p l' live] b(1) by auto
  show "(p, m) \<notin> live" by (rule new)
  show "heap_inv lo (h\<lparr>bump := b\<rparr>) fl (insert (p, l) live)" unfolding heap_inv_def
  proof (intro conjI allI impI)
    show "layout_ok m" if "(q, m) \<in> insert (p, l) live" for q m using that l(1) D(8) by blast
    show "class_size j dvd unat q" if "(q, m) \<in> insert (p, l) live" "get_block_index m = Some j" for q m j
      using that al D(9) by auto
    show "m = m'" if "(q, m) \<in> insert (p, l) live \<and> (q, m') \<in> insert (p, l) live" for q m m'
      using that new D(11) by blast
  qed (use D b reg in simp_all)
qed

lemma fixed_alloc_inv:
  assumes inv: "heap_inv lo h fl live" and l: "layout_ok l" and alloc: "fixed_alloc l h = (p, h')"
  shows "p = 0 \<and> h' = h \<or>
    (\<exists>fl'. heap_inv lo h' fl' (insert (p, l) live)) \<and> unat (lalign l) dvd unat p \<and> bend (bump h') = bend (bump h)
      \<and> (\<forall>m. (p, m) \<notin> live)"
proof -
  note D = heap_invD[OF inv]
  show ?thesis
  proof (cases "get_block_index l")
    case None
    then have len: "block_len l = unat (lsize l)" by (simp add: block_len_def)
    show ?thesis
    proof (rule bump_alloc_cases[OF l D(4) D(3)])
      assume "bump_alloc l (bump h) = (0, bump h)"
      then show ?thesis using alloc None by (simp add: fixed_alloc_def)
    next
      fix q b assume b: "bump_alloc l (bump h) = (q, b)" "unat (lalign l) dvd unat q"
        "unat (bnext (bump h)) \<le> unat q" "unat (bnext b) = unat q + unat (lsize l)"
        "unat (bnext b) \<le> unat (bend (bump h))" "bend b = bend (bump h)"
      have "heap_inv lo (h\<lparr>bump := b\<rparr>) fl (insert (q, l) live)" "\<forall>m. (q, m) \<notin> live"
        using heap_inv_carve[OF inv l b(3) _ b(5,6)] b(4) None len by simp_all
      then show ?thesis using alloc None b by (auto simp: fixed_alloc_def)
    qed
  next
    case (Some i)
    have i: "i < 9" using block_index_bounds[OF Some] by simp
    have len: "block_len l = class_size i" using Some by (simp add: block_len_def)
    show ?thesis
    proof (cases "list_heads h i = 0")
      case False
      have "p = list_heads h i" "h' = h\<lparr>list_heads := (list_heads h)(i := link h p)\<rparr>"
        using alloc Some False by (auto simp: fixed_alloc_def Let_def)
      then show ?thesis
        using heap_inv_pop[OF inv l Some _, of p] False align_dvd_class[OF l Some] by (auto intro: dvd_trans)
    next
      case True
      show ?thesis
      proof (rule bump_alloc_cases[OF class_layout_ok[OF i] D(4) D(3)])
        assume "bump_alloc \<lparr>lsize = BLOCK_SIZES ! i, lalign = BLOCK_SIZES ! i\<rparr> (bump h) = (0, bump h)"
        then show ?thesis using alloc Some True by (simp add: fixed_alloc_def Let_def)
      next
        fix q b assume b: "bump_alloc \<lparr>lsize = BLOCK_SIZES ! i, lalign = BLOCK_SIZES ! i\<rparr> (bump h) = (q, b)"
          "unat (lalign \<lparr>lsize = BLOCK_SIZES ! i, lalign = BLOCK_SIZES ! i\<rparr>) dvd unat q"
          "unat (bnext (bump h)) \<le> unat q"
          "unat (bnext b) = unat q + unat (lsize \<lparr>lsize = BLOCK_SIZES ! i, lalign = BLOCK_SIZES ! i\<rparr>)"
          "unat (bnext b) \<le> unat (bend (bump h))" "bend b = bend (bump h)"
        have "heap_inv lo (h\<lparr>bump := b\<rparr>) fl (insert (q, l) live)" "\<forall>m. (q, m) \<notin> live"
          using heap_inv_carve[OF inv l b(3) _ b(5,6)] b(2,4) Some len by simp_all
        then show ?thesis using alloc Some True b align_dvd_class[OF l Some]
          by (auto simp: fixed_alloc_def Let_def intro: dvd_trans)
      qed
    qed
  qed
qed

lemma fixed_dealloc_inv:
  assumes inv: "heap_inv lo h fl live" and live: "(p, l) \<in> live"
  shows "\<exists>fl'. heap_inv lo (fixed_dealloc p l h) fl' (live - {(p, l)})"
proof -
  note D = heap_invD[OF inv]
  have lr: "live_regions (live - {(p, l)}) = live_regions live - {(unat p, block_len l)}"
    using D(11) live by (auto simp: live_regions_def word_unat_eq_iff[symmetric])
  show ?thesis
  proof (cases "get_block_index l")
    case None
    have "heap_inv lo h fl (live - {(p, l)})"
      unfolding heap_inv_def
      using D regions_subset[OF D(10), of "live_regions (live - {(p, l)})"] lr by auto
    then show ?thesis using None by (auto simp: fixed_dealloc_def)
  next
    case (Some i)
    have i: "i < 9" using block_index_bounds[OF Some] by simp
    have mem: "(unat p, class_size i) \<in> live_regions live"
      using live_regionsI[OF live] Some by (simp add: block_len_def)
    have notin: "p \<notin> set (fl j)" if "j < 9" for j
      using regions_same_start[OF D(10), of "unat p" "class_size i" "class_size j"] regions_disjoint[OF D(10)]
        mem free_regionsI[OF that, of p fl] by auto
    have p0: "p \<noteq> 0" using regions_bounds[OF D(10), of "(unat p, class_size i)"] mem D(1) by auto
    let ?h = "h\<lparr>link := (link h)(p := list_heads h i), list_heads := (list_heads h)(i := p)\<rparr>"
    have ch: "chain (link ?h) q (fl j) = chain (link h) q (fl j)" if "j < 9" for j q
      using notin[OF that] by (intro chain_cong) auto
    have "heap_inv lo ?h (fl(i := p # fl i)) (live - {(p, l)})"
      unfolding heap_inv_def
    proof (intro conjI allI impI)
      show "chain (link ?h) (list_heads ?h j) ((fl(i := p # fl i)) j)" if "j < 9" for j
        using D(5)[OF that] ch[OF that] p0 by (cases "j = i") auto
      show "distinct ((fl(i := p # fl i)) j)" if "j < 9" for j using D(6)[OF that] notin[OF that] by (cases "j = i") auto
      show "\<forall>q \<in> set ((fl(i := p # fl i)) j). class_size j dvd unat q" if "j < 9" for j
        using D(7)[OF that] D(9)[OF live Some] by (cases "j = i") auto
      show "regions_ok lo (unat (bnext (bump ?h))) (free_regions (fl(i := p # fl i))) (live_regions (live - {(p, l)}))"
        using regions_give[OF D(10) mem] free_regions_push[OF i, of fl p] lr Some by (simp add: block_len_def)
    qed (use D in auto)
    then show ?thesis using Some by (auto simp: fixed_dealloc_def)
  qed
qed

section \<open>Heap histories\<close>

text \<open>
  What a kernel does with its heap: it allocates, it returns blocks it owns with the
  layout it asked for, and it writes into bytes it owns.
\<close>

inductive heap_step :: "FixedBlockAllocator \<times> (usize \<times> Layout) set \<Rightarrow>
    FixedBlockAllocator \<times> (usize \<times> Layout) set \<Rightarrow> bool" where
  step_alloc: "\<lbrakk>layout_ok l; fixed_alloc l h = (p, h'); p \<noteq> 0\<rbrakk> \<Longrightarrow> heap_step (h, live) (h', insert (p, l) live)"
| step_fail: "\<lbrakk>layout_ok l; fixed_alloc l h = (0, h')\<rbrakk> \<Longrightarrow> heap_step (h, live) (h', live)"
| step_dealloc: "(p, l) \<in> live \<Longrightarrow> heap_step (h, live) (fixed_dealloc p l h, live - {(p, l)})"
| step_write: "\<lbrakk>(p, l) \<in> live; unat p \<le> unat a; unat a < unat p + unat (lsize l)\<rbrakk> \<Longrightarrow>
    heap_step (h, live) (h\<lparr>link := (link h)(a := v)\<rparr>, live)"

lemma heap_inv_write:
  assumes inv: "heap_inv lo h fl live" and a: "(p, l) \<in> live" "unat p \<le> unat a" "unat a < unat p + unat (lsize l)"
  shows "heap_inv lo (h\<lparr>link := (link h)(a := v)\<rparr>) fl live"
proof -
  note D = heap_invD[OF inv]
  have "a \<notin> set (fl j)" if "j < 9" for j
  proof
    assume m: "a \<in> set (fl j)"
    have f: "(unat a, class_size j) \<in> free_regions fl" by (rule free_regionsI[where fl = fl, OF that m])
    have g: "(unat p, block_len l) \<in> live_regions live" by (rule live_regionsI[OF a(1)])
    have "separate (unat a, class_size j) (unat p, block_len l)"
    proof (rule regions_sep[OF D(10)])
      show "(unat a, class_size j) \<noteq> (unat p, block_len l)" using f g regions_disjoint[OF D(10)] by (metis disjoint_iff)
    qed (use f g in simp_all)
    moreover have "0 < class_size j" using regions_bounds[OF D(10), of "(unat a, class_size j)"] f by auto
    ultimately show False using a(2,3) block_len_size[of l] by auto
  qed
  then have "chain ((link h)(a := v)) q (fl j) = chain (link h) q (fl j)" if "j < 9" for j q
    using that by (intro chain_cong) (metis fun_upd_apply)
  then show ?thesis using inv unfolding heap_inv_def by simp
qed

lemma heap_step_inv:
  assumes "heap_step (h, live) (h', live')" "heap_inv lo h fl live"
  shows "\<exists>fl'. heap_inv lo h' fl' live' \<and> bend (bump h') = bend (bump h)"
  using assms(1)
proof cases
  case (step_alloc l p)
  then show ?thesis using fixed_alloc_inv[OF assms(2) step_alloc(2,3)] by auto
next
  case (step_fail l)
  then have "h' = h \<or> (\<exists>fl'. heap_inv lo h' fl' (insert (0, l) live))"
    using fixed_alloc_inv[OF assms(2) step_fail(2,3)] by blast
  moreover have "\<not> heap_inv lo h' fl' (insert (0, l) live)" for fl'
  proof
    assume i: "heap_inv lo h' fl' (insert (0, l) live)"
    have "(0, block_len l) \<in> live_regions (insert (0, l) live)" using live_regionsI[of 0 l] by fastforce
    then show False using regions_bounds[OF heap_invD(10)[OF i], of "(0, block_len l)"] heap_invD(1)[OF i] by auto
  qed
  ultimately show ?thesis using step_fail assms(2) by auto
next
  case (step_dealloc p l)
  moreover have "bend (bump (fixed_dealloc p l h)) = bend (bump h)"
    by (auto simp: fixed_dealloc_def split: option.splits)
  ultimately show ?thesis using fixed_dealloc_inv[OF assms(2) step_dealloc(3)] by auto
next
  case (step_write p l a v)
  then show ?thesis using heap_inv_write[OF assms(2) step_write(3-5), of v] by auto
qed

lemma heap_steps_inv:
  assumes "heap_step\<^sup>*\<^sup>* (h0, {}) (h, live)" "heap_inv lo h0 fl0 {}"
  shows "\<exists>fl. heap_inv lo h fl live \<and> bend (bump h) = bend (bump h0)"
  using assms(1)
proof (induction "(h, live)" arbitrary: h live rule: rtranclp_induct)
  case base
  then show ?case using assms(2) by auto
next
  case (step p)
  obtain h1 live1 where p: "p = (h1, live1)" by (cases p)
  then obtain fl1 where "heap_inv lo h1 fl1 live1" "bend (bump h1) = bend (bump h0)" using step.hyps(3) by blast
  then show ?case using heap_step_inv step.hyps(2) p by metis
qed

lemma fixed_init_inv:
  assumes "0 < unat start" "unat start + unat sz < 2 ^ 63"
  shows "heap_inv (unat start) (fixed_init start sz (fixed_new cells)) (\<lambda>_. []) {}"
    and "unat (bend (bump (fixed_init start sz (fixed_new cells)))) = unat start + unat sz"
proof -
  have "unat (start + sz) = unat start + unat sz" using assms by (intro unat_plus_simple_le) simp
  then show "heap_inv (unat start) (fixed_init start sz (fixed_new cells)) (\<lambda>_. []) {}"
      "unat (bend (bump (fixed_init start sz (fixed_new cells)))) = unat start + unat sz"
    using assms by (auto simp: heap_inv_def fixed_init_def fixed_new_def bump_init_def bump_new_def
        free_regions_def live_regions_def regions_ok_def)
qed

text \<open>
  C2: heap safety. After any history of allocations, frees with the right layout and
  writes inside owned blocks, a successful allocation returns an aligned block that lies
  inside the heap and overlaps no block still owned.
\<close>

theorem heap_allocation_safe:
  assumes "0 < unat start" "unat start + unat sz < 2 ^ 63"
    and "heap_step\<^sup>*\<^sup>* (fixed_init start sz (fixed_new cells), {}) (h, live)"
    and "layout_ok l" "fixed_alloc l h = (p, h')" "p \<noteq> 0"
  shows "unat (lalign l) dvd unat p \<and> unat start \<le> unat p \<and> unat p + unat (lsize l) \<le> unat start + unat sz \<and>
    (\<forall>(q, m) \<in> live. separate (unat p, unat (lsize l)) (unat q, unat (lsize m)))"
proof -
  let ?h0 = "fixed_init start sz (fixed_new cells)"
  note i0 = fixed_init_inv[OF assms(1,2), of cells]
  obtain fl where fl: "heap_inv (unat start) h fl live" "bend (bump h) = bend (bump ?h0)"
    using heap_steps_inv[OF assms(3) i0(1)] by blast
  obtain fl' where fl': "heap_inv (unat start) h' fl' (insert (p, l) live)"
      "unat (lalign l) dvd unat p" "bend (bump h') = bend (bump ?h0)"
      "\<forall>m. (p, m) \<notin> live"
    using fixed_alloc_inv[OF fl(1) assms(4,5)] assms(6) fl(2) by auto
  note D = heap_invD[OF fl'(1)] and E = heap_invD[OF fl(1)]
  have pm: "(unat p, block_len l) \<in> live_regions (insert (p, l) live)" by (rule live_regionsI) simp
  have bnd: "unat start \<le> unat p" "unat p + block_len l \<le> unat (bend (bump h'))"
    using regions_bounds[OF D(10), of "(unat p, block_len l)"] pm D(3) by auto
  have "separate (unat p, unat (lsize l)) (unat q, unat (lsize m))" if q: "(q, m) \<in> live" for q m
  proof -
    have qm: "(unat q, block_len m) \<in> live_regions (insert (p, l) live)" using q by (intro live_regionsI) simp
    have "p \<noteq> q" using fl'(4) q by blast
    then have "(unat p, block_len l) \<noteq> (unat q, block_len m)" by (simp add: word_unat_eq_iff)
    from regions_sep[OF D(10) UnI2[OF pm] UnI2[OF qm] this]
    have "separate (unat p, block_len l) (unat q, block_len m)" .
    then show ?thesis using block_len_size[of l] block_len_size[of m] by auto
  qed
  then show ?thesis using fl'(2) bnd i0(2) fl'(3) block_len_size[of l] by auto
qed

theorem heap_allocation_safe_witness:
  "\<exists>p h'. fixed_alloc \<lparr>lsize = 24, lalign = 8\<rparr> (fixed_init 0x1000 HEAP_SIZE (fixed_new (\<lambda>_. 0))) = (p, h') \<and>
     p = 0x1000 \<and> unat (8 :: usize) dvd unat p \<and> unat p + unat (24 :: usize) \<le> unat (0x1000 :: usize) + unat HEAP_SIZE"
proof -
  let ?l = "\<lparr>lsize = 24, lalign = 8\<rparr>" and ?h = "fixed_init 0x1000 HEAP_SIZE (fixed_new (\<lambda>_. 0))"
  have i: "get_block_index ?l = Some 2" by code_simp
  have e: "fixed_alloc ?l ?h = (0x1000, snd (fixed_alloc ?l ?h))"
    by (simp add: fixed_alloc_def i Let_def bump_alloc_def fixed_init_def fixed_new_def bump_init_def bump_new_def
        BLOCK_SIZES_def HEAP_SIZE_def case_prod_beta)
  have l: "layout_ok ?l" by (auto simp: layout_ok_def intro: exI[of _ 3])
  have b: "0 < unat (0x1000 :: usize)" "unat (0x1000 :: usize) + unat HEAP_SIZE < 2 ^ 63"
    by (simp_all add: HEAP_SIZE_def)
  from heap_allocation_safe[OF b rtranclp.rtrancl_refl l e] e show ?thesis
    by (intro exI[of _ "0x1000"] exI[of _ "snd (fixed_alloc ?l ?h)"]) simp
qed

end
