(* ===== verification/Bytes.thy ===== *)
theory Bytes
  imports Prelude
begin

text \<open>
  Byte strings as the kernel handles them: paths and names are \<open>&str\<close>, i.e. UTF-8 byte
  sequences.  What the sources use of \<open>core::str\<close> is modelled here: splitting at
  an ASCII byte, trimming, searching from the end, and UTF-8 validation.
\<close>

type_synonym bytes = "u8 list"

abbreviation SLASH :: u8 where "SLASH \<equiv> 47"
abbreviation DOT :: u8 where "DOT \<equiv> 46"

definition bytes_of :: "string \<Rightarrow> bytes" where
  "bytes_of s = map (\<lambda>c. of_nat (of_char c)) s"

text \<open>\<open>str::split(c)\<close>: the pieces between the separators, empty ones included.\<close>

fun split_on :: "u8 \<Rightarrow> bytes \<Rightarrow> bytes list" where
  "split_on c [] = [[]]"
| "split_on c (x # xs) = (if x = c then [] # split_on c xs
    else (case split_on c xs of [] \<Rightarrow> [[x]] | y # ys \<Rightarrow> (x # y) # ys))"

definition trim_start :: "u8 \<Rightarrow> bytes \<Rightarrow> bytes" where
  "trim_start c s = dropWhile (\<lambda>x. x = c) s"

text \<open>\<open>str::rfind(c)\<close>: the position of the last occurrence.\<close>

definition rfind :: "u8 \<Rightarrow> bytes \<Rightarrow> nat option" where
  "rfind c s = (if c \<in> set s then Some (length s - 1 - length (takeWhile (\<lambda>x. x \<noteq> c) (rev s))) else None)"

text \<open>\<open>core::str::from_utf8(s).is_ok()\<close>.\<close>

definition cont :: "u8 \<Rightarrow> bool" where
  "cont b \<longleftrightarrow> 0x80 \<le> b \<and> b \<le> 0xBF"

fun utf8_valid :: "bytes \<Rightarrow> bool" where
  "utf8_valid [] = True"
| "utf8_valid (a # r) =
    (if a < 0x80 then utf8_valid r
     else if 0xC2 \<le> a \<and> a \<le> 0xDF then
       (case r of b # r1 \<Rightarrow> cont b \<and> utf8_valid r1 | _ \<Rightarrow> False)
     else if 0xE0 \<le> a \<and> a \<le> 0xEF then
       (case r of b # c # r1 \<Rightarrow> cont b \<and> cont c \<and> (a = 0xE0 \<longrightarrow> 0xA0 \<le> b) \<and> (a = 0xED \<longrightarrow> b \<le> 0x9F) \<and> utf8_valid r1
        | _ \<Rightarrow> False)
     else if 0xF0 \<le> a \<and> a \<le> 0xF4 then
       (case r of b # c # d # r1 \<Rightarrow> cont b \<and> cont c \<and> cont d \<and> (a = 0xF0 \<longrightarrow> 0x90 \<le> b) \<and> (a = 0xF4 \<longrightarrow> b \<le> 0x8F) \<and> utf8_valid r1
        | _ \<Rightarrow> False)
     else False)"

declare utf8_valid.simps(2) [simp del]

lemma utf8_valid_ascii: "(\<forall>b \<in> set s. b < 0x80) \<Longrightarrow> utf8_valid s"
  by (induction s) (auto simp: utf8_valid.simps(2))

lemma split_on_not_Nil [simp]: "split_on c s \<noteq> []"
  by (induction s) (auto split: list.splits)

lemma split_on_append: "c \<notin> set t \<Longrightarrow> split_on c (s @ c # t) = split_on c s @ [t]"
proof (induction s)
  case Nil
  have "split_on c t = [t]" using Nil by (induction t) auto
  then show ?case by simp
next
  case (Cons x s)
  then show ?case by (cases "split_on c s") auto
qed

lemma split_on_single: "c \<notin> set t \<Longrightarrow> split_on c t = [t]"
  by (induction t) auto

lemma split_on_no_sep: "t \<in> set (split_on c s) \<Longrightarrow> c \<notin> set t"
  by (induction s arbitrary: t) (auto split: list.splits if_splits)

text \<open>Cutting at the last separator.\<close>

lemma rfind_Some:
  assumes "rfind c s = Some pos"
  shows "pos < length s" "s = take pos s @ c # drop (pos + 1) s" "c \<notin> set (drop (pos + 1) s)"
proof -
  have m: "c \<in> set s" using assms by (auto simp: rfind_def split: if_splits)
  define t where "t = rev (takeWhile (\<lambda>x. x \<noteq> c) (rev s))"
  have "\<exists>r. dropWhile (\<lambda>x. x \<noteq> c) (rev s) = c # r"
  proof -
    have "dropWhile (\<lambda>x. x \<noteq> c) (rev s) \<noteq> []" using m by (simp add: dropWhile_eq_Nil_conv)
    then show ?thesis using hd_dropWhile[of "\<lambda>x. x \<noteq> c" "rev s"] by (cases "dropWhile (\<lambda>x. x \<noteq> c) (rev s)") auto
  qed
  then obtain r where r: "dropWhile (\<lambda>x. x \<noteq> c) (rev s) = c # r" by blast
  have "rev s = rev t @ c # r" using takeWhile_dropWhile_id[of "\<lambda>x. x \<noteq> c" "rev s"] r by (simp add: t_def)
  then have s: "s = rev r @ c # t" by (metis append_Cons append_assoc append_Nil rev.simps(2) rev_append rev_rev_ident)
  have "length s - 1 - length t = length (rev r)" using s by simp
  then have pos: "pos = length (rev r)" using assms m by (simp add: rfind_def t_def)
  have "c \<notin> set t" by (auto simp: t_def dest: set_takeWhileD)
  then show "pos < length s" "s = take pos s @ c # drop (pos + 1) s" "c \<notin> set (drop (pos + 1) s)"
    using s pos by (simp_all)
qed

lemma rfind_None: "rfind c s = None \<longleftrightarrow> c \<notin> set s"
  by (simp add: rfind_def)

end
