(* ===== verification/Vfs.thy ===== *)
theory Vfs
  imports Bytes
begin

text \<open>
  The virtual file system (\<open>src/fs/node.rs\<close>, \<open>src/fs/mod.rs\<close>): a growing table of nodes
  that refer to each other by index.  Vectors grow without bound (running out of heap is
  not modelled).  Every index expression of the source that can be out of range, every
  slice with start after end and the \<open>expect\<close> on the global is a \<open>Panic\<close>.
\<close>

section \<open>Nodes\<close>

definition NAME_LEN :: nat where "NAME_LEN = 60"

datatype VfsNodeType = File | Directory | Symlink

record VfsNode =
  name :: bytes
  name_len :: nat
  node_type :: VfsNodeType
  inode :: u64
  parent :: nat
  children :: "nat list"
  data :: bytes
  nsize :: nat
  permissions :: u16
  ref_count :: u32

definition node_empty :: VfsNode where
  "node_empty = \<lparr>name = replicate NAME_LEN 0, name_len = 0, node_type = File, inode = 0, parent = 0,
     children = [], data = [], nsize = 0, permissions = 420, ref_count = 0\<rparr>"

definition node_new_file :: "bytes \<Rightarrow> nat \<Rightarrow> VfsNode" where
  "node_new_file nm par = (let node = node_empty; len = min (length nm) NAME_LEN in
    node\<lparr>name := put_slice (name node) 0 (take len nm), name_len := len, node_type := File,
      parent := par, permissions := 420\<rparr>)"

definition node_new_dir :: "bytes \<Rightarrow> nat \<Rightarrow> VfsNode" where
  "node_new_dir nm par = (let node = node_empty; len = min (length nm) NAME_LEN in
    node\<lparr>name := put_slice (name node) 0 (take len nm), name_len := len, node_type := Directory,
      parent := par, permissions := 493\<rparr>)"

definition node_name :: "VfsNode \<Rightarrow> bytes" where
  "node_name node = take (name_len node) (name node)"

definition name_str :: "VfsNode \<Rightarrow> bytes" where
  "name_str node = (if utf8_valid (node_name node) then node_name node else [])"

definition is_dir :: "VfsNode \<Rightarrow> bool" where
  "is_dir node \<longleftrightarrow> node_type node = Directory"

definition is_file :: "VfsNode \<Rightarrow> bool" where
  "is_file node \<longleftrightarrow> node_type node = File"

section \<open>The node table\<close>

record Vfs =
  nodes :: "VfsNode list"
  next_inode :: u64

abbreviation upd_node :: "nat \<Rightarrow> (VfsNode \<Rightarrow> VfsNode) \<Rightarrow> Vfs \<Rightarrow> Vfs" where
  "upd_node i f fs \<equiv> fs\<lparr>nodes := (nodes fs)[i := f (nodes fs ! i)]\<rparr>"

definition vfs_new :: Vfs where
  "vfs_new = \<lparr>nodes = [(node_new_dir [SLASH] 0)\<lparr>inode := 1\<rparr>], next_inode = 2\<rparr>"

definition alloc_node :: "Vfs \<Rightarrow> nat option \<times> Vfs" where
  "alloc_node fs = (let idx = length (nodes fs) in
    (Some idx, fs\<lparr>nodes := nodes fs @ [node_empty\<lparr>inode := next_inode fs\<rparr>], next_inode := next_inode fs + 1\<rparr>))"

definition create_file :: "nat \<Rightarrow> bytes \<Rightarrow> Vfs \<Rightarrow> ((nat, string) result \<times> Vfs) outcome" where
  "create_file parent_idx nm fs = (case alloc_node fs of
      (None, fs1) \<Rightarrow> Ret (Err ''VFS node table full'', fs1)
    | (Some child_idx, fs1) \<Rightarrow>
        (let fs2 = upd_node child_idx (\<lambda>_. node_new_file nm parent_idx) fs1 in
         if parent_idx < length (nodes fs2)
         then Ret (Ok child_idx, upd_node parent_idx (\<lambda>n. n\<lparr>children := children n @ [child_idx]\<rparr>) fs2)
         else Panic))"

definition create_dir :: "nat \<Rightarrow> bytes \<Rightarrow> Vfs \<Rightarrow> ((nat, string) result \<times> Vfs) outcome" where
  "create_dir parent_idx nm fs = (case alloc_node fs of
      (None, fs1) \<Rightarrow> Ret (Err ''VFS node table full'', fs1)
    | (Some child_idx, fs1) \<Rightarrow>
        (let fs2 = upd_node child_idx (\<lambda>_. node_new_dir nm parent_idx) fs1 in
         if parent_idx < length (nodes fs2)
         then Ret (Ok child_idx, upd_node parent_idx (\<lambda>n. n\<lparr>children := children n @ [child_idx]\<rparr>) fs2)
         else Panic))"

definition lookup_child :: "Vfs \<Rightarrow> nat \<Rightarrow> bytes \<Rightarrow> nat option outcome" where
  "lookup_child fs parent_idx nm =
    (if parent_idx \<ge> length (nodes fs) then Panic
     else Ret (find (\<lambda>c. c < length (nodes fs) \<and> name_len (nodes fs ! c) = length nm \<and> node_name (nodes fs ! c) = nm)
       (children (nodes fs ! parent_idx))))"

text \<open>The loop over the components of a path, from node \<open>current\<close>.\<close>

fun walk :: "Vfs \<Rightarrow> nat \<Rightarrow> bytes list \<Rightarrow> nat option outcome" where
  "walk fs current [] = Ret (Some current)"
| "walk fs current (component # rest) =
    (if component = [] \<or> component = [DOT] then walk fs current rest
     else if component = [DOT, DOT] then
       (if current \<ge> length (nodes fs) then Panic
        else let par = parent (nodes fs ! current) in
          if par \<noteq> 0 \<and> par < length (nodes fs) then walk fs par rest else walk fs current rest)
     else (case lookup_child fs current component of
         Panic \<Rightarrow> Panic
       | Ret None \<Rightarrow> Ret None
       | Ret (Some c) \<Rightarrow> walk fs c rest))"

definition resolve_path :: "Vfs \<Rightarrow> bytes \<Rightarrow> nat option outcome" where
  "resolve_path fs path = (let path = trim_start SLASH path in
    if path = [] then Ret (Some 0) else walk fs 0 (split_on SLASH path))"

definition get_node :: "Vfs \<Rightarrow> nat \<Rightarrow> VfsNode option" where
  "get_node fs idx = (if idx < length (nodes fs) then Some (nodes fs ! idx) else None)"

definition delete_node :: "nat \<Rightarrow> Vfs \<Rightarrow> (unit, string) result \<times> Vfs" where
  "delete_node idx fs =
    (if idx = 0 then (Err ''cannot delete root'', fs)
     else if idx \<ge> length (nodes fs) then (Err ''invalid node'', fs)
     else if node_type (nodes fs ! idx) = Directory \<and> children (nodes fs ! idx) \<noteq> []
     then (Err ''directory not empty'', fs)
     else let parent_idx = parent (nodes fs ! idx);
         fs1 = (if parent_idx < length (nodes fs)
           then upd_node parent_idx (\<lambda>n. n\<lparr>children := filter (\<lambda>c. c \<noteq> idx) (children n)\<rparr>) fs else fs)
       in (Ok (), upd_node idx (\<lambda>_. node_empty) fs1))"

definition vfs_readdir :: "Vfs \<Rightarrow> nat \<Rightarrow> (bytes \<times> u64 \<times> VfsNodeType) list" where
  "vfs_readdir fs idx =
    (if idx \<ge> length (nodes fs) then []
     else let node = nodes fs ! idx in
       if node_type node \<noteq> Directory then []
       else map (\<lambda>c. let child = nodes fs ! c in
           (if utf8_valid (node_name child) then node_name child else [63], inode child, node_type child))
         (filter (\<lambda>c. c < length (nodes fs)) (children node)))"

text \<open>The counts that \<open>stats\<close> prints: nodes, files, directories.\<close>

definition vfs_stats :: "Vfs \<Rightarrow> nat \<times> nat \<times> nat" where
  "vfs_stats fs = (length (nodes fs), length (filter is_file (nodes fs)), length (filter is_dir (nodes fs)))"

section \<open>The global file system\<close>

definition fs_init :: "Vfs option" where
  "fs_init = Some vfs_new"

definition split_path :: "bytes \<Rightarrow> (bytes \<times> bytes, string) result" where
  "split_path path = (let path = trim_start SLASH path in
    if path = [] then Err ''empty path''
    else case rfind SLASH path of
      Some pos \<Rightarrow>
        (let par = (if pos = 0 then [SLASH] else take pos path); nm = drop (pos + 1) path in
         if nm = [] then Err ''empty name'' else Ok (par, nm))
    | None \<Rightarrow> Ok ([SLASH], path))"

text \<open>
  The common shape of \<open>create_file\<close> and \<open>create_dir\<close> on the global: \<open>mk\<close> is the method
  called on the node table.
\<close>

definition create_at :: "(nat \<Rightarrow> bytes \<Rightarrow> Vfs \<Rightarrow> ((nat, string) result \<times> Vfs) outcome) \<Rightarrow> bytes \<Rightarrow> Vfs option
    \<Rightarrow> ((nat, string) result \<times> Vfs option) outcome" where
  "create_at mk path V = (case split_path path of
      Err e \<Rightarrow> Ret (Err e, V)
    | Ok (parent_path, nm) \<Rightarrow> (case V of
        None \<Rightarrow> Panic
      | Some vfs \<Rightarrow> (case resolve_path vfs parent_path of
          Panic \<Rightarrow> Panic
        | Ret None \<Rightarrow> Ret (Err ''parent not found'', V)
        | Ret (Some parent_idx) \<Rightarrow>
            obind (mk parent_idx nm vfs) (\<lambda>(r, vfs'). Ret (r, Some vfs')))))"

definition fs_create_file :: "bytes \<Rightarrow> Vfs option \<Rightarrow> ((nat, string) result \<times> Vfs option) outcome" where
  "fs_create_file path V = create_at create_file path V"

definition fs_create_dir :: "bytes \<Rightarrow> Vfs option \<Rightarrow> ((nat, string) result \<times> Vfs option) outcome" where
  "fs_create_dir path V = create_at create_dir path V"

text \<open>
  Reading into a buffer of \<open>buflen\<close> bytes: the bytes stored at the front of the buffer
  (their number is the value returned).
\<close>

definition read_data :: "VfsNode \<Rightarrow> usize \<Rightarrow> nat \<Rightarrow> (bytes, string) result" where
  "read_data node offset buflen =
    (if node_type node \<noteq> File then Err ''not a file''
     else if unat offset \<ge> length (data node) then Ok []
     else let available = length (data node) - unat offset; to_read = min buflen available in
       Ok (get_slice (data node) (unat offset) to_read))"

definition write_data :: "VfsNode \<Rightarrow> usize \<Rightarrow> bytes \<Rightarrow> ((nat, string) result \<times> VfsNode) outcome" where
  "write_data node offset buf =
    (if node_type node \<noteq> File then Ret (Err ''not a file'', node)
     else let en = offset + of_nat (length buf);
         d = (if unat en > length (data node)
              then data node @ replicate (unat en - length (data node)) 0 else data node) in
       if unat offset > unat en then Panic
       else let d' = put_slice d (unat offset) buf in
         Ret (Ok (length buf), node\<lparr>data := d', nsize := length d'\<rparr>))"

definition read_file_by_node :: "nat \<Rightarrow> usize \<Rightarrow> nat \<Rightarrow> Vfs option \<Rightarrow> (bytes, string) result outcome" where
  "read_file_by_node node_idx offset buflen V = (case V of
      None \<Rightarrow> Panic
    | Some vfs \<Rightarrow> (case get_node vfs node_idx of
        None \<Rightarrow> Ret (Err ''invalid node'')
      | Some node \<Rightarrow> Ret (read_data node offset buflen)))"

definition write_file_by_node :: "nat \<Rightarrow> usize \<Rightarrow> bytes \<Rightarrow> Vfs option \<Rightarrow> ((nat, string) result \<times> Vfs option) outcome" where
  "write_file_by_node node_idx offset buf V = (case V of
      None \<Rightarrow> Panic
    | Some vfs \<Rightarrow> (case get_node vfs node_idx of
        None \<Rightarrow> Ret (Err ''invalid node'', V)
      | Some node \<Rightarrow> obind (write_data node offset buf)
          (\<lambda>(r, node'). Ret (r, Some (upd_node node_idx (\<lambda>_. node') vfs)))))"

definition read_file :: "bytes \<Rightarrow> usize \<Rightarrow> nat \<Rightarrow> Vfs option \<Rightarrow> (bytes, string) result outcome" where
  "read_file path offset buflen V = (case V of
      None \<Rightarrow> Panic
    | Some vfs \<Rightarrow> (case resolve_path vfs path of
        Panic \<Rightarrow> Panic
      | Ret None \<Rightarrow> Ret (Err ''file not found'')
      | Ret (Some idx) \<Rightarrow> (case get_node vfs idx of
          None \<Rightarrow> Ret (Err ''invalid node'')
        | Some node \<Rightarrow> Ret (read_data node offset buflen))))"

definition write_file :: "bytes \<Rightarrow> usize \<Rightarrow> bytes \<Rightarrow> Vfs option \<Rightarrow> ((nat, string) result \<times> Vfs option) outcome" where
  "write_file path offset buf V = (case V of
      None \<Rightarrow> Panic
    | Some vfs \<Rightarrow> (case resolve_path vfs path of
        Panic \<Rightarrow> Panic
      | Ret None \<Rightarrow> Ret (Err ''file not found'', V)
      | Ret (Some idx) \<Rightarrow> (case get_node vfs idx of
          None \<Rightarrow> Ret (Err ''invalid node'', V)
        | Some node \<Rightarrow> obind (write_data node offset buf)
            (\<lambda>(r, node'). Ret (r, Some (upd_node idx (\<lambda>_. node') vfs))))))"

definition resolve_path_idx :: "bytes \<Rightarrow> Vfs option \<Rightarrow> nat option outcome" where
  "resolve_path_idx path V = (case V of None \<Rightarrow> Panic | Some vfs \<Rightarrow> resolve_path vfs path)"

definition fs_delete :: "bytes \<Rightarrow> Vfs option \<Rightarrow> ((unit, string) result \<times> Vfs option) outcome" where
  "fs_delete path V = (case split_path path of
      Err e \<Rightarrow> Ret (Err e, V)
    | Ok (parent_path, nm) \<Rightarrow> (case V of
        None \<Rightarrow> Panic
      | Some vfs \<Rightarrow> (case resolve_path vfs parent_path of
          Panic \<Rightarrow> Panic
        | Ret None \<Rightarrow> Ret (Err ''parent not found'', V)
        | Ret (Some parent_idx) \<Rightarrow> (case lookup_child vfs parent_idx nm of
            Panic \<Rightarrow> Panic
          | Ret None \<Rightarrow> Ret (Err ''not found'', V)
          | Ret (Some child_idx) \<Rightarrow>
              (let (r, vfs') = delete_node child_idx vfs in Ret (r, Some vfs'))))))"

definition fs_readdir :: "bytes \<Rightarrow> Vfs option \<Rightarrow> (bytes \<times> u64 \<times> VfsNodeType) list outcome" where
  "fs_readdir path V = (case V of
      None \<Rightarrow> Ret []
    | Some vfs \<Rightarrow> (case resolve_path vfs path of
        Panic \<Rightarrow> Panic
      | Ret None \<Rightarrow> Ret []
      | Ret (Some idx) \<Rightarrow> (case get_node vfs idx of
          None \<Rightarrow> Ret []
        | Some node \<Rightarrow> if node_type node = Directory
            then Ret (map (\<lambda>c. let child = nodes vfs ! c in
                (if utf8_valid (node_name child) then node_name child else [63], inode child, node_type child))
              (filter (\<lambda>c. c < length (nodes vfs) \<and> 0 < name_len (nodes vfs ! c)) (children node)))
            else Ret [])))"

definition get_file_size :: "usize \<Rightarrow> Vfs option \<Rightarrow> nat outcome" where
  "get_file_size node_idx V = (case V of
      None \<Rightarrow> Panic
    | Some vfs \<Rightarrow> Ret (case get_node vfs (unat node_idx) of Some node \<Rightarrow> nsize node | None \<Rightarrow> 0))"

section \<open>The invariant\<close>

definition node_ok :: "Vfs \<Rightarrow> nat \<Rightarrow> bool" where
  "node_ok fs i \<longleftrightarrow> (let node = nodes fs ! i in
     length (name node) = NAME_LEN \<and> name_len node \<le> NAME_LEN \<and> parent node < length (nodes fs) \<and>
     distinct (children node) \<and>
     (\<forall>c \<in> set (children node). i < c \<and> c < length (nodes fs) \<and> parent (nodes fs ! c) = i))"

definition vfs_inv :: "Vfs \<Rightarrow> bool" where
  "vfs_inv fs \<longleftrightarrow> nodes fs \<noteq> [] \<and> (\<forall>i < length (nodes fs). node_ok fs i)"

lemma vfs_invD:
  assumes "vfs_inv fs" "i < length (nodes fs)"
  shows "length (name (nodes fs ! i)) = NAME_LEN" "name_len (nodes fs ! i) \<le> NAME_LEN"
    "parent (nodes fs ! i) < length (nodes fs)" "distinct (children (nodes fs ! i))"
    "c \<in> set (children (nodes fs ! i)) \<Longrightarrow> i < c \<and> c < length (nodes fs) \<and> parent (nodes fs ! c) = i"
  using assms unfolding vfs_inv_def node_ok_def Let_def by blast+

lemma node_new_fields [simp]:
  "parent (node_new_file nm p) = p" "children (node_new_file nm p) = []"
  "parent (node_new_dir nm p) = p" "children (node_new_dir nm p) = []"
  "length (name (node_new_file nm p)) = NAME_LEN" "name_len (node_new_file nm p) = min (length nm) NAME_LEN"
  "length (name (node_new_dir nm p)) = NAME_LEN" "name_len (node_new_dir nm p) = min (length nm) NAME_LEN"
  "node_type (node_new_file nm p) = File" "node_type (node_new_dir nm p) = Directory"
  "inode (node_new_file nm p) = 0" "inode (node_new_dir nm p) = 0"
  by (simp_all add: node_new_file_def node_new_dir_def node_empty_def Let_def)

lemma node_new_name [simp]:
  "node_name (node_new_file nm p) = take NAME_LEN nm" "node_name (node_new_dir nm p) = take NAME_LEN nm"
  by (simp_all add: node_name_def node_new_file_def node_new_dir_def node_empty_def Let_def put_slice_def min_def)

lemma vfs_new_inv [inv_intros]: "vfs_inv vfs_new"
  by (simp add: vfs_inv_def vfs_new_def node_ok_def Let_def)

text \<open>Both ways to create a node do the same to the table.\<close>

definition add_child :: "VfsNode \<Rightarrow> nat \<Rightarrow> Vfs \<Rightarrow> Vfs" where
  "add_child node par fs = \<lparr>nodes = (nodes fs)[par := (nodes fs ! par)\<lparr>children :=
      children (nodes fs ! par) @ [length (nodes fs)]\<rparr>] @ [node], next_inode = next_inode fs + 1\<rparr>"

lemma create_eq:
  assumes "par < length (nodes fs)"
  shows "create_file par nm fs = Ret (Ok (length (nodes fs)), add_child (node_new_file nm par) par fs)"
    "create_dir par nm fs = Ret (Ok (length (nodes fs)), add_child (node_new_dir nm par) par fs)"
  using assms
  by (simp_all add: create_file_def create_dir_def alloc_node_def Let_def add_child_def nth_append list_update_append)

lemma length_add_child [simp]: "length (nodes (add_child node par fs)) = Suc (length (nodes fs))"
  by (simp add: add_child_def)

lemma nth_add_child:
  "i < length (nodes fs) \<Longrightarrow> nodes (add_child node par fs) ! i = (if i = par
     then (nodes fs ! i)\<lparr>children := children (nodes fs ! i) @ [length (nodes fs)]\<rparr> else nodes fs ! i)"
  "nodes (add_child node par fs) ! length (nodes fs) = node"
  by (auto simp: add_child_def nth_append)

lemma add_child_inv:
  assumes "vfs_inv fs" "par < length (nodes fs)" "parent node = par" "children node = []"
    "length (name node) = NAME_LEN" "name_len node \<le> NAME_LEN"
  shows "vfs_inv (add_child node par fs)"
proof -
  let ?fs = "add_child node par fs" and ?n = "length (nodes fs)"
  have "node_ok ?fs i" if i: "i < Suc ?n" for i
  proof (cases "i = ?n")
    case True
    then show ?thesis using assms by (simp add: node_ok_def nth_add_child Let_def)
  next
    case False
    then have i: "i < ?n" using that by simp
    note D = vfs_invD[OF assms(1) i]
    have "i < c \<and> c < Suc ?n \<and> parent (nodes ?fs ! c) = i" if "c \<in> set (children (nodes ?fs ! i))" for c
    proof (cases "c = ?n")
      case True
      then have "i = par" using that D(5)[of ?n] i by (auto simp: nth_add_child split: if_splits)
      then show ?thesis using True assms i by (simp add: nth_add_child)
    next
      case False
      then have "c \<in> set (children (nodes fs ! i))" using that i by (auto simp: nth_add_child split: if_splits)
      from D(5)[OF this] show ?thesis by (cases "c = par") (auto simp: nth_add_child)
    qed
    moreover have "distinct (children (nodes ?fs ! i))" using D(4) D(5)[of ?n] i by (auto simp: nth_add_child)
    moreover have "length (name (nodes ?fs ! i)) = NAME_LEN" "name_len (nodes ?fs ! i) \<le> NAME_LEN"
        "parent (nodes ?fs ! i) < Suc ?n"
      using D(1-3) i by (auto simp: nth_add_child)
    ultimately show ?thesis by (simp add: node_ok_def Let_def)
  qed
  then show ?thesis by (auto simp: vfs_inv_def) (simp add: add_child_def)
qed

lemma create_inv:
  assumes "vfs_inv fs" "par < length (nodes fs)"
  shows "vfs_inv (add_child (node_new_file nm par) par fs)" "vfs_inv (add_child (node_new_dir nm par) par fs)"
  using assms by (auto intro!: add_child_inv)

lemma delete_node_inv [inv_intros]:
  assumes "vfs_inv fs"
  shows "vfs_inv (snd (delete_node idx fs))"
proof (cases "idx = 0 \<or> idx \<ge> length (nodes fs) \<or>
    (node_type (nodes fs ! idx) = Directory \<and> children (nodes fs ! idx) \<noteq> [])")
  case True
  then show ?thesis using assms by (auto simp: delete_node_def)
next
  case False
  let ?n = "length (nodes fs)" and ?p = "parent (nodes fs ! idx)"
  have idx: "idx < ?n" "?p < ?n" using False vfs_invD(3)[OF assms] by auto
  define fs' where "fs' = snd (delete_node idx fs)"
  have len: "length (nodes fs') = ?n" using False idx by (auto simp: fs'_def delete_node_def Let_def)
  have nth: "nodes fs' ! i = (if i = idx then node_empty
      else if i = ?p then (nodes fs ! i)\<lparr>children := filter (\<lambda>c. c \<noteq> idx) (children (nodes fs ! i))\<rparr>
      else nodes fs ! i)" if "i < ?n" for i
    using False idx that by (auto simp: fs'_def delete_node_def Let_def nth_list_update)
  have "node_ok fs' i" if i: "i < ?n" for i
  proof (cases "i = idx")
    case True
    moreover have "nodes fs \<noteq> []" using idx(1) by auto
    ultimately show ?thesis using i idx len by (simp add: node_ok_def nth Let_def node_empty_def)
  next
    case ne: False
    note D = vfs_invD[OF assms i]
    have "i < c \<and> c < ?n \<and> parent (nodes fs' ! c) = i" if "c \<in> set (children (nodes fs' ! i))" for c
    proof -
      have c: "c \<in> set (children (nodes fs ! i))" "i = ?p \<longrightarrow> c \<noteq> idx"
        using that i ne by (auto simp: nth split: if_splits)
      then have "c \<noteq> idx" using D(5)[of c] by auto
      then show ?thesis using D(5)[OF c(1)] by (cases "c = ?p") (auto simp: nth)
    qed
    moreover have "length (name (nodes fs' ! i)) = NAME_LEN" "name_len (nodes fs' ! i) \<le> NAME_LEN"
        "parent (nodes fs' ! i) < ?n" "distinct (children (nodes fs' ! i))"
      using D(1-4) i ne by (auto simp: nth)
    ultimately show ?thesis using len by (simp add: node_ok_def Let_def)
  qed
  then have "vfs_inv fs'" using idx len by (auto simp: vfs_inv_def)
  then show ?thesis by (simp add: fs'_def)
qed

lemma upd_data_inv:
  assumes "vfs_inv fs" "i < length (nodes fs)" "name n = name (nodes fs ! i)" "name_len n = name_len (nodes fs ! i)"
    "parent n = parent (nodes fs ! i)" "children n = children (nodes fs ! i)"
  shows "vfs_inv (upd_node i (\<lambda>_. n) fs)"
proof -
  have "node_ok (upd_node i (\<lambda>_. n) fs) j" if "j < length (nodes fs)" for j
  proof -
    have "parent (nodes (upd_node i (\<lambda>_. n) fs) ! k) = parent (nodes fs ! k)" for k
      using assms(2,5) by (cases "k = i") auto
    then show ?thesis using assms(2-6) vfs_invD[OF assms(1) that]
      by (cases "j = i") (auto simp: node_ok_def Let_def)
  qed
  then show ?thesis using assms(2) by (auto simp: vfs_inv_def)
qed

section \<open>Path resolution\<close>

lemma lookup_child_ret:
  assumes "vfs_inv fs" "cur < length (nodes fs)"
  shows "\<exists>r. lookup_child fs cur nm = Ret r \<and> (\<forall>c. r = Some c \<longrightarrow> c < length (nodes fs))"
  using assms by (auto simp: lookup_child_def find_Some_iff)

lemma walk_ret:
  assumes "vfs_inv fs"
  shows "cur < length (nodes fs) \<Longrightarrow> \<exists>r. walk fs cur comps = Ret r \<and> (\<forall>c. r = Some c \<longrightarrow> c < length (nodes fs))"
proof (induction comps arbitrary: cur)
  case (Cons component rest)
  obtain r where r: "lookup_child fs cur component = Ret r" "\<forall>c. r = Some c \<longrightarrow> c < length (nodes fs)"
    using lookup_child_ret[OF assms Cons.prems] by blast
  show ?case using Cons.IH[OF Cons.prems] Cons.IH r Cons.prems by (cases r) (auto simp: Let_def)
qed simp

lemma resolve_ret:
  assumes "vfs_inv fs"
  obtains r where "resolve_path fs path = Ret r" "\<And>c. r = Some c \<Longrightarrow> c < length (nodes fs)"
proof -
  have "0 < length (nodes fs)" using assms by (auto simp: vfs_inv_def)
  then show ?thesis using walk_ret[OF assms, of 0 "split_on SLASH (trim_start SLASH path)"] that
    by (cases "trim_start SLASH path = []") (auto simp: resolve_path_def)
qed

lemma walk_append:
  "walk fs cur (as @ bs) = (case walk fs cur as of Ret (Some c) \<Rightarrow> walk fs c bs | r \<Rightarrow> r)"
proof (induction as arbitrary: cur)
  case (Cons a as)
  show ?case
    by (cases "lookup_child fs cur a") (auto simp: Cons.IH Let_def split: option.splits)
qed simp

lemma find_append: "find P (xs @ ys) = (case find P xs of Some x \<Rightarrow> Some x | None \<Rightarrow> find P ys)"
  by (induction xs) auto

lemma find_cong_set: "(\<And>x. x \<in> set xs \<Longrightarrow> P x = Q x) \<Longrightarrow> find P xs = find Q xs"
  by (induction xs) auto

lemma name_add_child:
  "i < length (nodes fs) \<Longrightarrow> node_name (nodes (add_child node par fs) ! i) = node_name (nodes fs ! i)"
  "i < length (nodes fs) \<Longrightarrow> name_len (nodes (add_child node par fs) ! i) = name_len (nodes fs ! i)"
  by (auto simp: nth_add_child node_name_def)

text \<open>A lookup in the extended table: old children first, then the new one.\<close>

lemma lookup_add_child:
  assumes "vfs_inv fs" "cur < length (nodes fs)"
  shows "lookup_child (add_child node par fs) cur nm =
    (case lookup_child fs cur nm of
       Ret None \<Rightarrow> if cur = par \<and> name_len node = length nm \<and> node_name node = nm
         then Ret (Some (length (nodes fs))) else Ret None
     | r \<Rightarrow> r)"
proof -
  let ?P = "\<lambda>fs c. c < length (nodes fs) \<and> name_len (nodes fs ! c) = length nm \<and> node_name (nodes fs ! c) = nm"
  let ?fs = "add_child node par fs"
  have "find (?P ?fs) (children (nodes fs ! cur)) = find (?P fs) (children (nodes fs ! cur))"
    by (intro find_cong_set) (auto simp: name_add_child dest: vfs_invD(5)[OF assms])
  then show ?thesis using assms(2)
    by (auto simp: lookup_child_def nth_add_child find_append split: option.splits)
qed

text \<open>What resolved before a node was added still resolves to the same node.\<close>

lemma walk_add_child:
  assumes "vfs_inv fs"
  shows "\<lbrakk>cur < length (nodes fs); walk fs cur comps = Ret (Some j)\<rbrakk> \<Longrightarrow>
    walk (add_child node par fs) cur comps = Ret (Some j)"
proof (induction comps arbitrary: cur)
  case (Cons component rest)
  have par: "parent (nodes (add_child node par fs) ! cur) = parent (nodes fs ! cur)"
    using Cons.prems(1) by (simp add: nth_add_child)
  have "parent (nodes fs ! cur) < length (nodes fs)" using vfs_invD(3)[OF assms Cons.prems(1)] .
  then show ?case
    using Cons.prems Cons.IH lookup_child_ret[OF assms Cons.prems(1), of component] par
    by (auto simp: Let_def lookup_add_child[OF assms Cons.prems(1)] split: if_splits option.splits outcome.splits)
qed simp

lemma trim_start_hd: "trim_start c s = x # xs \<Longrightarrow> x \<noteq> c"
  using hd_dropWhile[of "\<lambda>x. x = c" s] by (simp add: trim_start_def)

lemma trim_start_id: "x \<noteq> c \<Longrightarrow> trim_start c (x # xs) = x # xs"
  by (simp add: trim_start_def)

text \<open>Resolving a path is resolving its parent part and then one step.\<close>

lemma resolve_split_path:
  assumes "split_path path = Ok (par, nm)"
  shows "resolve_path fs path =
      (case resolve_path fs par of Ret (Some c) \<Rightarrow> walk fs c [nm] | r \<Rightarrow> r)" "nm \<noteq> []"
proof -
  define p where "p = trim_start SLASH path"
  have p: "p \<noteq> []" using assms by (auto simp: split_path_def p_def Let_def split: if_splits)
  then obtain x xs where x: "p = x # xs" by (cases p) auto
  then have xs: "x \<noteq> SLASH" using trim_start_hd[of SLASH path] by (simp add: p_def)
  have res: "resolve_path fs path = walk fs 0 (split_on SLASH p)" using p by (simp add: resolve_path_def p_def)
  have "resolve_path fs path =
      (case resolve_path fs par of Ret (Some c) \<Rightarrow> walk fs c [nm] | r \<Rightarrow> r) \<and> nm \<noteq> []"
  proof (cases "rfind SLASH p")
    case None
    then have "par = [SLASH]" "nm = p" using assms p by (auto simp: split_path_def p_def Let_def)
    moreover have "resolve_path fs [SLASH] = Ret (Some 0)" by (simp add: resolve_path_def trim_start_def)
    ultimately show ?thesis using res p None by (simp add: rfind_None split_on_single)
  next
    case (Some pos)
    note r = rfind_Some[OF Some]
    have pos: "pos \<noteq> 0" using r(2) x xs by (cases pos) auto
    have par: "par = take pos p" "nm = drop (pos + 1) p" "nm \<noteq> []"
      using assms p pos Some by (auto simp: split_path_def p_def[symmetric] Let_def split: if_splits)
    have "take pos p = x # take (pos - 1) xs" using x pos by (cases pos) auto
    then have rp: "resolve_path fs par = walk fs 0 (split_on SLASH par)"
      using par xs by (simp add: resolve_path_def trim_start_id)
    have sp: "split_on SLASH p = split_on SLASH par @ [nm]"
      using r(2,3) par split_on_append[of SLASH nm par] by metis
    show ?thesis unfolding res sp walk_append rp using par(3) by blast
  qed
  then show "resolve_path fs path =
      (case resolve_path fs par of Ret (Some c) \<Rightarrow> walk fs c [nm] | r \<Rightarrow> r)" "nm \<noteq> []" by auto
qed

lemma resolve_add_child:
  assumes "vfs_inv fs" "resolve_path fs path = Ret (Some j)"
  shows "resolve_path (add_child node par fs) path = Ret (Some j)"
proof -
  have "0 < length (nodes fs)" using assms(1) by (auto simp: vfs_inv_def)
  then show ?thesis using assms(2) walk_add_child[OF assms(1), of 0]
    by (auto simp: resolve_path_def Let_def split: if_splits)
qed

lemma fs_delete_total:
  assumes "vfs_inv vfs"
  shows "\<exists>r vfs'. fs_delete path (Some vfs) = Ret (r, Some vfs') \<and> vfs_inv vfs'"
proof (cases "split_path path")
  case (Inr pn)
  obtain pp nm where pn: "pn = (pp, nm)" by (cases pn)
  obtain r where r: "resolve_path vfs pp = Ret r" "\<And>c. r = Some c \<Longrightarrow> c < length (nodes vfs)"
    using resolve_ret[OF assms] by blast
  show ?thesis
  proof (cases r)
    case (Some p)
    then obtain q where q: "lookup_child vfs p nm = Ret q" using lookup_child_ret[OF assms r(2)] by blast
    show ?thesis
    proof (cases q)
      case (Some c)
      then show ?thesis using Inr pn r(1) \<open>r = Some p\<close> q delete_node_inv[OF assms, of c]
        by (simp add: fs_delete_def case_prod_beta)
    qed (use Inr pn r(1) Some q assms in \<open>simp add: fs_delete_def\<close>)
  qed (use Inr pn r(1) assms in \<open>simp add: fs_delete_def\<close>)
qed (use assms in \<open>simp add: fs_delete_def\<close>)

lemma write_data_total:
  assumes "unat off + length buf < 2 ^ 64"
  obtains r node' where "write_data node off buf = Ret (r, node')" "name node' = name node"
    "name_len node' = name_len node" "parent node' = parent node" "children node' = children node"
proof -
  have "unat (off + of_nat (length buf)) = unat off + length buf"
    using assms by (subst unat_plus_simple_le) (auto simp: unat_of_nat)
  then show ?thesis using that by (cases "node_type node = File") (auto simp: write_data_def Let_def)
qed

lemma write_file_total:
  assumes "vfs_inv vfs" "unat off + length buf < 2 ^ 64"
  shows "\<exists>r vfs'. write_file path off buf (Some vfs) = Ret (r, Some vfs') \<and> vfs_inv vfs'"
proof -
  obtain r where r: "resolve_path vfs path = Ret r" "\<And>c. r = Some c \<Longrightarrow> c < length (nodes vfs)"
    using resolve_ret[OF assms(1)] by blast
  show ?thesis
  proof (cases r)
    case (Some i)
    obtain x n where n: "write_data (nodes vfs ! i) off buf = Ret (x, n)" "name n = name (nodes vfs ! i)"
        "name_len n = name_len (nodes vfs ! i)" "parent n = parent (nodes vfs ! i)"
        "children n = children (nodes vfs ! i)"
      using write_data_total[OF assms(2)] by blast
    have "vfs_inv (upd_node i (\<lambda>_. n) vfs)" using upd_data_inv[OF assms(1) r(2)[OF Some] n(2-5)] .
    then show ?thesis using r Some n(1) by (simp add: write_file_def get_node_def)
  qed (use r assms in \<open>simp add: write_file_def\<close>)
qed

section \<open>Properties\<close>


lemma vfs_new_home:
  "split_path (bytes_of ''/home'') = Ok ([SLASH], bytes_of ''home'')"
  "resolve_path vfs_new [SLASH] = Ret (Some 0)"
  "lookup_child vfs_new 0 (bytes_of ''home'') = Ret None"
  "length (bytes_of ''home'') \<le> NAME_LEN" "bytes_of ''home'' \<noteq> [DOT]" "bytes_of ''home'' \<noteq> [DOT, DOT]"
  by code_simp+



definition vfs_with_file :: Vfs where
  "vfs_with_file = add_child (node_new_file (bytes_of ''a'') 0) 0 vfs_new"





text \<open>
  C36: creating a name that exists makes an unreachable node. The second \<open>create_file\<close>
  of the same path reports success with a new index, but the path keeps resolving to
  the first node, and every created node carries inode number 0.
\<close>

theorem vfs_create_existing_unreachable:
  assumes "vfs_inv vfs" "split_path path = Ok (pp, nm)" "resolve_path vfs pp = Ret (Some par)"
    and "resolve_path vfs path = Ret (Some old)"
  shows "\<exists>vfs'. fs_create_file path (Some vfs) = Ret (Ok (length (nodes vfs)), Some vfs') \<and>
    resolve_path vfs' path = Ret (Some old) \<and> old \<noteq> length (nodes vfs) \<and>
    inode (nodes vfs' ! length (nodes vfs)) = 0"
proof -
  have par: "par < length (nodes vfs)" "old < length (nodes vfs)"
    using assms(1,3,4) by (metis outcome.inject resolve_ret)+
  then have "fs_create_file path (Some vfs) =
      Ret (Ok (length (nodes vfs)), Some (add_child (node_new_file nm par) par vfs))"
    using assms(2,3) by (simp add: fs_create_file_def create_at_def create_eq)
  then show ?thesis using resolve_add_child[OF assms(1,4)] par(2) by (auto simp: nth_add_child)
qed

lemma vfs_with_file_inv: "vfs_inv vfs_with_file"
  unfolding vfs_with_file_def by (rule create_inv(1)[OF vfs_new_inv]) (simp add: vfs_new_def)

theorem vfs_create_existing_unreachable_witness:
  "\<exists>vfs'. fs_create_file (bytes_of ''/a'') (Some vfs_with_file) = Ret (Ok 2, Some vfs') \<and>
    resolve_path vfs' (bytes_of ''/a'') = Ret (Some 1)"
proof -
  have e: "split_path (bytes_of ''/a'') = Ok ([SLASH], bytes_of ''a'')"
    "resolve_path vfs_with_file [SLASH] = Ret (Some 0)"
    "resolve_path vfs_with_file (bytes_of ''/a'') = Ret (Some 1)" by code_simp+
  have "length (nodes vfs_with_file) = 2" by (simp add: vfs_with_file_def vfs_new_def)
  with vfs_create_existing_unreachable[OF vfs_with_file_inv e] show ?thesis by auto
qed

end
