(* ===== verification/Ramfs.thy ===== *)
theory Ramfs
  imports Bytes
begin

text \<open>
  The stand-alone RAM file system (\<open>src/fs/ramfs.rs\<close>), a simplification of the virtual
  file system without parent links.  As there, index errors are \<open>Panic\<close>.
\<close>

section \<open>State and operations\<close>

record RamFsNode =
  rname :: bytes
  rname_len :: nat
  ris_dir :: bool
  rchildren :: "nat list"
  rdata :: bytes
  rinode :: u64

definition ram_new_file :: "bytes \<Rightarrow> u64 \<Rightarrow> RamFsNode" where
  "ram_new_file nm ino = (let len = min (length nm) 60 in
    \<lparr>rname = put_slice (replicate 60 0) 0 (take len nm), rname_len = len, ris_dir = False,
      rchildren = [], rdata = [], rinode = ino\<rparr>)"

definition ram_new_dir :: "bytes \<Rightarrow> u64 \<Rightarrow> RamFsNode" where
  "ram_new_dir nm ino = (let len = min (length nm) 60 in
    \<lparr>rname = put_slice (replicate 60 0) 0 (take len nm), rname_len = len, ris_dir = True,
      rchildren = [], rdata = [], rinode = ino\<rparr>)"

definition ram_name_str :: "RamFsNode \<Rightarrow> bytes" where
  "ram_name_str node = (let nm = take (rname_len node) (rname node) in if utf8_valid nm then nm else [])"

record RamFs =
  rnodes :: "RamFsNode list"
  rnext_inode :: u64

abbreviation upd_rnode :: "nat \<Rightarrow> (RamFsNode \<Rightarrow> RamFsNode) \<Rightarrow> RamFs \<Rightarrow> RamFs" where
  "upd_rnode i f fs \<equiv> fs\<lparr>rnodes := (rnodes fs)[i := f (rnodes fs ! i)]\<rparr>"

definition ramfs_new :: RamFs where
  "ramfs_new = \<lparr>rnodes = [ram_new_dir [SLASH] 1], rnext_inode = 2\<rparr>"

definition ram_alloc_inode :: "RamFs \<Rightarrow> u64 \<times> RamFs" where
  "ram_alloc_inode fs = (rnext_inode fs, fs\<lparr>rnext_inode := rnext_inode fs + 1\<rparr>)"

definition ram_create_file :: "nat \<Rightarrow> bytes \<Rightarrow> RamFs \<Rightarrow> ((nat, string) result \<times> RamFs) outcome" where
  "ram_create_file parent_idx nm fs = (let (ino, fs1) = ram_alloc_inode fs; child_idx = length (rnodes fs1);
      fs2 = fs1\<lparr>rnodes := rnodes fs1 @ [ram_new_file nm ino]\<rparr> in
    if parent_idx < length (rnodes fs2)
    then Ret (Ok child_idx, upd_rnode parent_idx (\<lambda>n. n\<lparr>rchildren := rchildren n @ [child_idx]\<rparr>) fs2)
    else Panic)"

definition ram_create_dir :: "nat \<Rightarrow> bytes \<Rightarrow> RamFs \<Rightarrow> ((nat, string) result \<times> RamFs) outcome" where
  "ram_create_dir parent_idx nm fs = (let (ino, fs1) = ram_alloc_inode fs; child_idx = length (rnodes fs1);
      fs2 = fs1\<lparr>rnodes := rnodes fs1 @ [ram_new_dir nm ino]\<rparr> in
    if parent_idx < length (rnodes fs2)
    then Ret (Ok child_idx, upd_rnode parent_idx (\<lambda>n. n\<lparr>rchildren := rchildren n @ [child_idx]\<rparr>) fs2)
    else Panic)"

text \<open>The loop of \<open>lookup\<close> over a list of child indices.\<close>

fun ram_scan :: "RamFs \<Rightarrow> bytes \<Rightarrow> nat list \<Rightarrow> nat option outcome" where
  "ram_scan fs nm [] = Ret None"
| "ram_scan fs nm (c # cs) =
    (if c \<ge> length (rnodes fs) then Panic
     else let child = rnodes fs ! c in
       if rname_len child = length nm \<and> take (rname_len child) (rname child) = nm then Ret (Some c)
       else ram_scan fs nm cs)"

definition ram_lookup :: "RamFs \<Rightarrow> nat \<Rightarrow> bytes \<Rightarrow> nat option outcome" where
  "ram_lookup fs parent_idx nm =
    (if parent_idx \<ge> length (rnodes fs) then Panic else ram_scan fs nm (rchildren (rnodes fs ! parent_idx)))"

fun ram_walk :: "RamFs \<Rightarrow> nat \<Rightarrow> bytes list \<Rightarrow> nat option outcome" where
  "ram_walk fs current [] = Ret (Some current)"
| "ram_walk fs current (component # rest) =
    (if component = [] \<or> component = [DOT] then ram_walk fs current rest
     else if component = [DOT, DOT] then ram_walk fs current rest
     else (case ram_lookup fs current component of
         Panic \<Rightarrow> Panic | Ret None \<Rightarrow> Ret None | Ret (Some c) \<Rightarrow> ram_walk fs c rest))"

definition ram_resolve :: "RamFs \<Rightarrow> bytes \<Rightarrow> nat option outcome" where
  "ram_resolve fs path = (let path = trim_start SLASH path in
    if path = [] then Ret (Some 0) else ram_walk fs 0 (split_on SLASH path))"

definition ram_read :: "RamFs \<Rightarrow> nat \<Rightarrow> usize \<Rightarrow> nat \<Rightarrow> (bytes, string) result" where
  "ram_read fs idx offset buflen =
    (if idx \<ge> length (rnodes fs) then Err ''invalid node''
     else let node = rnodes fs ! idx in
       if ris_dir node then Err ''is a directory''
       else if unat offset \<ge> length (rdata node) then Ok []
       else let avail = length (rdata node) - unat offset; n = min buflen avail in
         Ok (get_slice (rdata node) (unat offset) n))"

definition ram_write :: "nat \<Rightarrow> usize \<Rightarrow> bytes \<Rightarrow> RamFs \<Rightarrow> ((nat, string) result \<times> RamFs) outcome" where
  "ram_write idx offset buf fs =
    (if idx \<ge> length (rnodes fs) then Ret (Err ''invalid node'', fs)
     else let node = rnodes fs ! idx in
       if ris_dir node then Ret (Err ''is a directory'', fs)
       else let en = offset + of_nat (length buf);
           d = (if unat en > length (rdata node)
                then rdata node @ replicate (unat en - length (rdata node)) 0 else rdata node) in
         if unat offset > unat en then Panic
         else Ret (Ok (length buf), upd_rnode idx (\<lambda>n. n\<lparr>rdata := put_slice d (unat offset) buf\<rparr>) fs))"

definition ram_delete :: "nat \<Rightarrow> RamFs \<Rightarrow> ((unit, string) result \<times> RamFs) outcome" where
  "ram_delete idx fs =
    (if idx = 0 then Ret (Err ''cannot delete root'', fs)
     else if idx \<ge> length (rnodes fs) then Panic
     else if ris_dir (rnodes fs ! idx) \<and> rchildren (rnodes fs ! idx) \<noteq> [] then Ret (Err ''directory not empty'', fs)
     else Ret (Ok (), upd_rnode idx (\<lambda>n. n\<lparr>rname_len := 0, rdata := [], rchildren := [], ris_dir := False\<rparr>) fs))"

definition ram_readdir :: "RamFs \<Rightarrow> nat \<Rightarrow> (bytes \<times> u64 \<times> bool) list" where
  "ram_readdir fs idx =
    (if idx \<ge> length (rnodes fs) then []
     else let node = rnodes fs ! idx in
       if \<not> ris_dir node then []
       else map (\<lambda>c. let child = rnodes fs ! c in (ram_name_str child, rinode child, ris_dir child))
         (filter (\<lambda>c. c < length (rnodes fs) \<and> 0 < rname_len (rnodes fs ! c)) (rchildren node)))"

definition ram_node_count :: "RamFs \<Rightarrow> nat" where
  "ram_node_count fs = length (rnodes fs)"

section \<open>Invariant\<close>

definition ramfs_inv :: "RamFs \<Rightarrow> bool" where
  "ramfs_inv fs \<longleftrightarrow> rnodes fs \<noteq> [] \<and>
    (\<forall>i < length (rnodes fs). \<forall>c \<in> set (rchildren (rnodes fs ! i)). c < length (rnodes fs))"

lemma ramfs_new_inv [inv_intros]: "ramfs_inv ramfs_new"
  by (simp add: ramfs_inv_def ramfs_new_def ram_new_dir_def Let_def)

lemma ram_scan_ret:
  "(\<forall>c \<in> set cs. c < length (rnodes fs)) \<Longrightarrow>
     \<exists>r. ram_scan fs nm cs = Ret r \<and> (\<forall>c. r = Some c \<longrightarrow> c < length (rnodes fs))"
  by (induction cs) (auto simp: Let_def)

lemma ram_lookup_ret:
  assumes "ramfs_inv fs" "i < length (rnodes fs)"
  shows "\<exists>r. ram_lookup fs i nm = Ret r \<and> (\<forall>c. r = Some c \<longrightarrow> c < length (rnodes fs))"
  using assms ram_scan_ret[of "rchildren (rnodes fs ! i)" fs nm] by (auto simp: ram_lookup_def ramfs_inv_def)

lemma ram_walk_ret:
  assumes "ramfs_inv fs"
  shows "i < length (rnodes fs) \<Longrightarrow> \<exists>r. ram_walk fs i comps = Ret r \<and> (\<forall>c. r = Some c \<longrightarrow> c < length (rnodes fs))"
proof (induction comps arbitrary: i)
  case (Cons component rest)
  obtain r where r: "ram_lookup fs i component = Ret r" "\<forall>c. r = Some c \<longrightarrow> c < length (rnodes fs)"
    using ram_lookup_ret[OF assms Cons.prems] by blast
  show ?case using Cons.IH[OF Cons.prems] Cons.IH r by (cases r) auto
qed simp

text \<open>Resolving a path on a well-formed table returns.\<close>

lemma ram_resolve_ret:
  assumes "ramfs_inv fs"
  shows "\<exists>r. ram_resolve fs path = Ret r"
  using assms ram_walk_ret[OF assms, of 0 "split_on SLASH (trim_start SLASH path)"]
  by (auto simp: ram_resolve_def Let_def ramfs_inv_def)

lemma ram_read_write_same:
  assumes "i < length (rnodes fs)" "\<not> ris_dir (rnodes fs ! i)" "unat off + length buf < 2 ^ 64" "buf \<noteq> []"
  shows "\<exists>fs'. ram_write i off buf fs = Ret (Ok (length buf), fs') \<and> ram_read fs' i off (length buf) = Ok buf"
proof -
  let ?e = "unat off + length buf" and ?n = "rnodes fs ! i"
  have en: "unat (off + of_nat (length buf)) = ?e"
    using assms(3) by (subst unat_plus_simple_le) (auto simp: unat_of_nat)
  define d where "d = (if ?e > length (rdata ?n) then rdata ?n @ replicate (?e - length (rdata ?n)) 0 else rdata ?n)"
  have "unat off < ?e" "?e \<le> length d" using assms(4) by (auto simp: d_def)
  then have d: "unat off < length d" "?e \<le> length d" by linarith+
  then have m: "min (length buf) (length d - unat off) = length buf" by simp
  have "ram_write i off buf fs = Ret (Ok (length buf), upd_rnode i (\<lambda>n. n\<lparr>rdata := put_slice d (unat off) buf\<rparr>) fs)"
    using assms(1,2) en by (simp add: ram_write_def Let_def d_def)
  then show ?thesis using assms(1,2) d m by (simp add: ram_read_def Let_def)
qed


end
