(* ===== verification/Fd_Table.thy ===== *)
theory Fd_Table
  imports Vfs
begin

text \<open>
  File descriptors: the global table of \<open>src/fd_table.rs\<close> (one row of 32 entries per
  task) and the per-process table of \<open>src/fs/fd.rs\<close> (64 entries).  Both are
  interpretations of one contract: an entry is opened in the lowest free slot, a closed
  slot is free again, and the rows of other tasks are untouched.

  An \<open>i32\<close> is a 32-bit word read in two's complement; \<open>as i32\<close> truncates and \<open>as usize\<close>
  sign-extends.  The table is a function from the flat index; an index of the last row or
  beyond (\<open>task_id \<ge> MAX_TASKS\<close>) panics.
\<close>

section \<open>The global table\<close>

definition MAX_FDS :: nat where "MAX_FDS = 32"

record FdEntry =
  node_idx :: "32 word"
  offset :: usize

definition fd_empty :: FdEntry where
  "fd_empty = \<lparr>node_idx = - 1, offset = 0\<rparr>"

type_synonym fd_table = "nat \<Rightarrow> FdEntry"

definition FD_TABLE :: fd_table where
  "FD_TABLE = (\<lambda>_. fd_empty)"

definition fd_index :: "nat \<Rightarrow> nat \<Rightarrow> nat" where
  "fd_index task_id fd = task_id * MAX_FDS + fd"

abbreviation in_table :: "nat \<Rightarrow> bool" where
  "in_table task_id \<equiv> task_id < MAX_TASKS"

abbreviation slot_free :: "fd_table \<Rightarrow> nat \<Rightarrow> nat \<Rightarrow> bool" where
  "slot_free T task_id fd \<equiv> node_idx (T (fd_index task_id fd)) = - 1"

definition fd_open :: "nat \<Rightarrow> usize \<Rightarrow> fd_table \<Rightarrow> ((nat, string) result \<times> fd_table) outcome" where
  "fd_open task_id vfs_node_idx T =
    (if task_id = 0 then Ret (Err ''kernel task cannot open fds'', T)
     else if \<not> in_table task_id then Panic
     else case scan (slot_free T task_id) 0 MAX_FDS of
       Some fd \<Rightarrow> Ret (Ok fd, T(fd_index task_id fd := \<lparr>node_idx = ucast vfs_node_idx, offset = 0\<rparr>))
     | None \<Rightarrow> Ret (Err ''too many open files'', T))"

definition fd_close :: "nat \<Rightarrow> nat \<Rightarrow> fd_table \<Rightarrow> ((unit, string) result \<times> fd_table) outcome" where
  "fd_close task_id fd T =
    (if fd \<ge> MAX_FDS then Ret (Err ''bad file descriptor'', T)
     else if \<not> in_table task_id then Panic
     else if slot_free T task_id fd then Ret (Err ''bad file descriptor'', T)
     else Ret (Ok (), T(fd_index task_id fd := fd_empty)))"

definition fd_node :: "nat \<Rightarrow> nat \<Rightarrow> fd_table \<Rightarrow> (usize, string) result outcome" where
  "fd_node task_id fd T =
    (if fd \<ge> MAX_FDS then Ret (Err ''bad file descriptor'')
     else if \<not> in_table task_id then Panic
     else if slot_free T task_id fd then Ret (Err ''bad file descriptor'')
     else Ret (Ok (scast (node_idx (T (fd_index task_id fd))))))"

definition fd_offset :: "nat \<Rightarrow> nat \<Rightarrow> fd_table \<Rightarrow> usize outcome" where
  "fd_offset task_id fd T =
    (if fd \<ge> MAX_FDS then Ret 0
     else if \<not> in_table task_id then Panic
     else Ret (offset (T (fd_index task_id fd))))"

definition fd_set_offset :: "nat \<Rightarrow> nat \<Rightarrow> usize \<Rightarrow> fd_table \<Rightarrow> fd_table outcome" where
  "fd_set_offset task_id fd new_offset T =
    (if fd < MAX_FDS
     then if \<not> in_table task_id then Panic
       else Ret (T(fd_index task_id fd := (T (fd_index task_id fd))\<lparr>offset := new_offset\<rparr>))
     else Ret T)"

definition fd_open_count :: "nat \<Rightarrow> fd_table \<Rightarrow> nat outcome" where
  "fd_open_count task_id T =
    (if \<not> in_table task_id then Panic
     else Ret (length (filter (\<lambda>fd. \<not> slot_free T task_id fd) [0..<MAX_FDS])))"

text \<open>The lines \<open>dump\<close> prints: descriptor, node and offset of every open entry.\<close>

definition fd_dump :: "nat \<Rightarrow> fd_table \<Rightarrow> (nat \<times> 32 word \<times> usize) list outcome" where
  "fd_dump task_id T =
    (if \<not> in_table task_id then Panic
     else Ret (map (\<lambda>fd. let entry = T (fd_index task_id fd) in (fd, node_idx entry, offset entry))
       (filter (\<lambda>fd. \<not> slot_free T task_id fd) [0..<MAX_FDS])))"

definition fd_dup :: "nat \<Rightarrow> nat \<Rightarrow> fd_table \<Rightarrow> ((nat, string) result \<times> fd_table) outcome" where
  "fd_dup task_id old_fd T =
    (if old_fd \<ge> MAX_FDS then Ret (Err ''bad file descriptor'', T)
     else if \<not> in_table task_id then Panic
     else if slot_free T task_id old_fd then Ret (Err ''bad file descriptor'', T)
     else let old_entry = T (fd_index task_id old_fd) in
       case scan (slot_free T task_id) 0 MAX_FDS of
         Some fd \<Rightarrow> Ret (Ok fd, T(fd_index task_id fd := old_entry))
       | None \<Rightarrow> Ret (Err ''too many open files'', T))"

definition fd_dup2 :: "nat \<Rightarrow> nat \<Rightarrow> nat \<Rightarrow> fd_table \<Rightarrow> ((nat, string) result \<times> fd_table) outcome" where
  "fd_dup2 task_id old_fd new_fd T =
    (if old_fd \<ge> MAX_FDS \<or> new_fd \<ge> MAX_FDS then Ret (Err ''bad file descriptor'', T)
     else if old_fd = new_fd then Ret (Ok new_fd, T)
     else if \<not> in_table task_id then Panic
     else if slot_free T task_id old_fd then Ret (Err ''bad file descriptor'', T)
     else Ret (Ok new_fd, T(fd_index task_id new_fd := T (fd_index task_id old_fd))))"

text \<open>The result of \<open>lseek\<close> is an \<open>isize\<close>: \<open>-1\<close> is the word of all ones.\<close>

definition fd_lseek :: "nat \<Rightarrow> nat \<Rightarrow> usize \<Rightarrow> nat \<Rightarrow> Vfs option \<Rightarrow> fd_table \<Rightarrow> (usize \<times> fd_table) outcome" where
  "fd_lseek task_id fd off whence V T =
    (if fd \<ge> MAX_FDS then Ret (- 1, T)
     else if \<not> in_table task_id then Panic
     else if slot_free T task_id fd then Ret (- 1, T)
     else let idx = fd_index task_id fd; node = scast (node_idx (T idx)) in
       case get_file_size node V of
         Panic \<Rightarrow> Panic
       | Ret file_size \<Rightarrow>
           (let seek = (\<lambda>new_offset. Ret (new_offset, T(idx := (T idx)\<lparr>offset := new_offset\<rparr>))) in
            if whence = 0 then seek off
            else if whence = 1 then seek (offset (T idx) + off)
            else if whence = 2 then seek (of_nat file_size + off)
            else Ret (- 1, T)))"

section \<open>The per-process table\<close>

definition FD_MAX_FDS :: nat where "FD_MAX_FDS = 64"

datatype OpenMode = Read | Write | ReadWrite | Append

record PFdEntry =
  p_node_idx :: "32 word"
  p_offset :: usize
  p_mode :: OpenMode
  p_in_use :: bool

definition pfd_empty :: PFdEntry where
  "pfd_empty = \<lparr>p_node_idx = - 1, p_offset = 0, p_mode = Read, p_in_use = False\<rparr>"

type_synonym FdTable = "nat \<Rightarrow> PFdEntry"

definition pfd_new :: FdTable where
  "pfd_new = (\<lambda>_. pfd_empty)"

definition pfd_open :: "usize \<Rightarrow> OpenMode \<Rightarrow> FdTable \<Rightarrow> (nat, string) result \<times> FdTable" where
  "pfd_open n mode T = (case scan (\<lambda>i. \<not> p_in_use (T i)) 0 FD_MAX_FDS of
      Some i \<Rightarrow> (Ok i, T(i := \<lparr>p_node_idx = ucast n, p_offset = 0, p_mode = mode, p_in_use = True\<rparr>))
    | None \<Rightarrow> (Err ''too many open files'', T))"

definition pfd_close :: "nat \<Rightarrow> FdTable \<Rightarrow> (unit, string) result \<times> FdTable" where
  "pfd_close fd T = (if fd \<ge> FD_MAX_FDS \<or> \<not> p_in_use (T fd) then (Err ''bad file descriptor'', T)
    else (Ok (), T(fd := pfd_empty)))"

definition pfd_get :: "nat \<Rightarrow> FdTable \<Rightarrow> PFdEntry option" where
  "pfd_get fd T = (if fd < FD_MAX_FDS \<and> p_in_use (T fd) then Some (T fd) else None)"

text \<open>\<open>get_mut\<close>: a caller applies \<open>f\<close> through the reference.\<close>

definition pfd_get_mut :: "nat \<Rightarrow> (PFdEntry \<Rightarrow> PFdEntry) \<Rightarrow> FdTable \<Rightarrow> FdTable" where
  "pfd_get_mut fd f T = (if fd < FD_MAX_FDS \<and> p_in_use (T fd) then T(fd := f (T fd)) else T)"

definition pfd_is_valid :: "nat \<Rightarrow> FdTable \<Rightarrow> bool" where
  "pfd_is_valid fd T \<longleftrightarrow> fd < FD_MAX_FDS \<and> p_in_use (T fd)"

definition pfd_open_count :: "FdTable \<Rightarrow> nat" where
  "pfd_open_count T = length (filter (\<lambda>i. p_in_use (T i)) [0..<FD_MAX_FDS])"

section \<open>The contract\<close>

locale fd_alloc =
  fixes cap :: nat
    and key_ok :: "'k \<Rightarrow> bool"
    and ent_ok :: "'e \<Rightarrow> bool"
    and view :: "'k \<Rightarrow> 's \<Rightarrow> nat \<Rightarrow> 'e option"
    and opn :: "'k \<Rightarrow> 'e \<Rightarrow> 's \<Rightarrow> ((nat, string) result \<times> 's) outcome"
    and cls :: "'k \<Rightarrow> nat \<Rightarrow> 's \<Rightarrow> ((unit, string) result \<times> 's) outcome"
  assumes open_lowest: "\<lbrakk>key_ok k; ent_ok e; fd < cap; view k s fd = None; \<forall>j<fd. view k s j \<noteq> None\<rbrakk> \<Longrightarrow>
      \<exists>s'. opn k e s = Ret (Ok fd, s') \<and> view k s' = (view k s)(fd \<mapsto> e) \<and> (\<forall>k'. k' \<noteq> k \<longrightarrow> view k' s' = view k' s)"
    and open_full: "\<lbrakk>key_ok k; \<forall>fd<cap. view k s fd \<noteq> None\<rbrakk> \<Longrightarrow> opn k e s = Ret (Err ''too many open files'', s)"
    and close_open: "\<lbrakk>key_ok k; view k s fd \<noteq> None\<rbrakk> \<Longrightarrow>
      \<exists>s'. cls k fd s = Ret (Ok (), s') \<and> view k s' = (view k s)(fd := None) \<and> (\<forall>k'. k' \<noteq> k \<longrightarrow> view k' s' = view k' s)"
    and close_bad: "\<lbrakk>key_ok k; view k s fd = None\<rbrakk> \<Longrightarrow> cls k fd s = Ret (Err ''bad file descriptor'', s)"
    and view_cap: "view k s fd \<noteq> None \<Longrightarrow> fd < cap"
begin

lemma open_cases:
  assumes "key_ok k" "ent_ok e"
  obtains (full) "\<forall>fd<cap. view k s fd \<noteq> None" "opn k e s = Ret (Err ''too many open files'', s)"
  | (slot) fd s' where "fd < cap" "view k s fd = None" "\<forall>j<fd. view k s j \<noteq> None"
    "opn k e s = Ret (Ok fd, s')" "view k s' = (view k s)(fd \<mapsto> e)" "\<forall>k'. k' \<noteq> k \<longrightarrow> view k' s' = view k' s"
proof (cases "\<exists>fd<cap. view k s fd = None")
  case False
  then have full: "\<forall>fd<cap. view k s fd \<noteq> None" by auto
  show ?thesis by (rule that(1)[OF full open_full[OF assms(1) full]])
next
  case True
  define fd where "fd = (LEAST fd. fd < cap \<and> view k s fd = None)"
  have fd: "fd < cap" "view k s fd = None" using LeastI_ex[of "\<lambda>fd. fd < cap \<and> view k s fd = None"] True
    by (auto simp: fd_def)
  have "view k s j \<noteq> None" if "j < fd" for j
    using not_less_Least[of j "\<lambda>fd. fd < cap \<and> view k s fd = None"] that fd(1) unfolding fd_def by fastforce
  then show ?thesis using open_lowest[OF assms fd] that(2)[OF fd] by blast
qed

text \<open>Opening and then closing the descriptor gives back the old view of every key.\<close>

lemma open_close_restores:
  assumes "key_ok k" "ent_ok e" "opn k e s = Ret (Ok fd, s1)"
  shows "\<exists>s2. cls k fd s1 = Ret (Ok (), s2) \<and> view k s2 = view k s \<and> (\<forall>k'. k' \<noteq> k \<longrightarrow> view k' s2 = view k' s)"
  using assms(1,2)
proof (cases rule: open_cases[where s = s])
  case full
  then show ?thesis using assms(3) by simp
next
  case (slot fd0 s0)
  then have eq: "fd0 = fd" "s0 = s1" using assms(3) by auto
  have "view k s1 fd \<noteq> None" using slot(5) eq by simp
  from close_open[OF assms(1) this] obtain s2 where s2: "cls k fd s1 = Ret (Ok (), s2)"
      "view k s2 = (view k s1)(fd := None)" "\<forall>k'. k' \<noteq> k \<longrightarrow> view k' s2 = view k' s1" by blast
  then show ?thesis using slot(2,5,6) eq by (auto simp: fun_upd_idem)
qed

text \<open>Two descriptors opened one after the other differ, and the first stays what it was.\<close>

lemma open_open_distinct:
  assumes "key_ok k" "ent_ok e" "ent_ok e'" "opn k e s = Ret (Ok fd, s1)" "opn k e' s1 = Ret (Ok fd', s2)"
  shows "fd \<noteq> fd' \<and> view k s2 fd = Some e \<and> view k s2 fd' = Some e'"
proof -
  have 1: "view k s1 fd = Some e" using assms(1,2)
    by (cases rule: open_cases[where s = s]) (use assms(4) in auto)
  show ?thesis using assms(1,3)
    by (cases rule: open_cases[where s = s1]) (use assms(5) 1 in auto)
qed

end

section \<open>Both tables satisfy the contract\<close>

definition task_fds :: "nat \<Rightarrow> fd_table \<Rightarrow> nat \<Rightarrow> FdEntry option" where
  "task_fds task_id T fd = (if fd < MAX_FDS \<and> \<not> slot_free T task_id fd then Some (T (fd_index task_id fd)) else None)"

definition user_task :: "nat \<Rightarrow> bool" where
  "user_task t \<longleftrightarrow> 0 < t \<and> t < MAX_TASKS"

definition fresh_entry :: "FdEntry \<Rightarrow> bool" where
  "fresh_entry e \<longleftrightarrow> node_idx e \<noteq> - 1 \<and> offset e = 0"

lemma fd_index_inj:
  assumes "fd < MAX_FDS" "fd' < MAX_FDS" "fd_index t fd = fd_index t' fd'"
  shows "t = t' \<and> fd = fd'"
proof -
  have "fd_index t fd div MAX_FDS = t" "fd_index t' fd' div MAX_FDS = t'"
    "fd_index t fd mod MAX_FDS = fd" "fd_index t' fd' mod MAX_FDS = fd'"
    using assms(1,2) by (simp_all add: fd_index_def MAX_FDS_def)
  then show ?thesis using assms(3) by simp
qed

lemma task_fds_upd:
  assumes "fd < MAX_FDS"
  shows "task_fds t (T(fd_index t fd := e)) = (if node_idx e = - 1 then (task_fds t T)(fd := None) else (task_fds t T)(fd \<mapsto> e))"
    and "t' \<noteq> t \<Longrightarrow> task_fds t' (T(fd_index t fd := e)) = task_fds t' T"
proof -
  have *: "fd_index t' fd' = fd_index t fd \<longleftrightarrow> t' = t \<and> fd' = fd" if "fd' < MAX_FDS" for t' fd'
    using fd_index_inj[OF that assms] by auto
  show "task_fds t (T(fd_index t fd := e)) = (if node_idx e = - 1 then (task_fds t T)(fd := None) else (task_fds t T)(fd \<mapsto> e))"
    using assms by (auto simp: task_fds_def * fun_eq_iff)
  show "t' \<noteq> t \<Longrightarrow> task_fds t' (T(fd_index t fd := e)) = task_fds t' T"
    by (auto simp: task_fds_def * fun_eq_iff)
qed

lemma task_fds_None: "fd < MAX_FDS \<Longrightarrow> task_fds t T fd = None \<longleftrightarrow> slot_free T t fd"
  by (simp add: task_fds_def)

lemma scan_lowest:
  assumes "fd < n" "p fd" "\<forall>j<fd. \<not> p j"
  shows "scan p 0 n = Some fd"
  using assms by (simp add: scan_Some_iff)

lemma ucast_down_up: "ucast (ucast (w :: 32 word) :: usize) = w"
  by (rule bit_word_eqI) (simp add: bit_ucast_iff)

interpretation gfd: fd_alloc MAX_FDS user_task fresh_entry task_fds
  "\<lambda>t e T. fd_open t (ucast (node_idx e)) T" fd_close
proof (unfold_locales, goal_cases)
  case (1 t e fd T)
  have j: "\<forall>j<fd. \<not> slot_free T t j" using 1(3,5) by (auto simp: task_fds_def)
  have "scan (slot_free T t) 0 MAX_FDS = Some fd"
    using 1(3,4) j by (intro scan_lowest) (auto simp: task_fds_None)
  moreover have "\<lparr>node_idx = node_idx e, offset = 0\<rparr> = e" using 1(2) by (cases e) (simp add: fresh_entry_def)
  ultimately have "fd_open t (ucast (node_idx e)) T = Ret (Ok fd, T(fd_index t fd := e))"
    using 1(1) by (simp add: fd_open_def user_task_def ucast_down_up)
  then show ?case using task_fds_upd[OF 1(3)] 1(2) by (simp add: fresh_entry_def)
next
  case (2 t T e)
  then have "scan (slot_free T t) 0 MAX_FDS = None" by (auto simp: scan_None_iff task_fds_None)
  then show ?case using 2(1) by (simp add: fd_open_def user_task_def)
next
  case (3 t T fd)
  then have fd: "fd < MAX_FDS" "\<not> slot_free T t fd" by (auto simp: task_fds_def split: if_splits)
  then have "fd_close t fd T = Ret (Ok (), T(fd_index t fd := fd_empty))"
    using 3(1) by (simp add: fd_close_def user_task_def)
  then show ?case using task_fds_upd[OF fd(1)] by (simp add: fd_empty_def)
next
  case (4 t T fd)
  then show ?case by (auto simp: fd_close_def task_fds_def user_task_def split: if_splits)
next
  case (5 t T fd)
  then show ?case by (auto simp: task_fds_def split: if_splits)
qed

lemma pfd_get_upd:
  "fd < FD_MAX_FDS \<Longrightarrow> (\<lambda>fd'. pfd_get fd' (T(fd := e))) =
    (if p_in_use e then (\<lambda>fd'. pfd_get fd' T)(fd \<mapsto> e) else (\<lambda>fd'. pfd_get fd' T)(fd := None))"
  by (auto simp: pfd_get_def fun_eq_iff)

interpretation pfd: fd_alloc FD_MAX_FDS "\<lambda>_ :: unit. True" "\<lambda>e. p_in_use e \<and> p_offset e = 0" "\<lambda>_ T fd. pfd_get fd T"
  "\<lambda>_ e T. Ret (pfd_open (ucast (p_node_idx e)) (p_mode e) T)" "\<lambda>_ fd T. Ret (pfd_close fd T)"
proof (unfold_locales, goal_cases)
  case (1 k e fd T)
  have j: "\<forall>j<fd. \<not> \<not> p_in_use (T j)" using 1(3,5) by (auto simp: pfd_get_def split: if_splits)
  have "scan (\<lambda>i. \<not> p_in_use (T i)) 0 FD_MAX_FDS = Some fd"
    using 1(3,4) j by (intro scan_lowest) (auto simp: pfd_get_def split: if_splits)
  moreover have "\<lparr>p_node_idx = p_node_idx e, p_offset = 0, p_mode = p_mode e, p_in_use = True\<rparr> = e"
    using 1(2) by (cases e) simp
  ultimately have "pfd_open (ucast (p_node_idx e)) (p_mode e) T = (Ok fd, T(fd := e))"
    by (simp add: pfd_open_def ucast_down_up)
  then show ?case using pfd_get_upd[OF 1(3), of T e] 1(2) by simp
next
  case (2 k T e)
  then have "scan (\<lambda>i. \<not> p_in_use (T i)) 0 FD_MAX_FDS = None"
    by (auto simp: scan_None_iff pfd_get_def split: if_splits)
  then show ?case by (simp add: pfd_open_def)
next
  case (3 k T fd)
  then have fd: "fd < FD_MAX_FDS" "p_in_use (T fd)" by (auto simp: pfd_get_def split: if_splits)
  then show ?case using pfd_get_upd[OF fd(1), of T pfd_empty] by (simp add: pfd_close_def pfd_empty_def)
next
  case (4 k T fd)
  then show ?case by (auto simp: pfd_close_def pfd_get_def split: if_splits)
next
  case (5 k T fd)
  then show ?case by (auto simp: pfd_get_def split: if_splits)
qed

section \<open>Properties\<close>

lemma high_bits_clear:
  assumes "unat (w :: 'a::len word) < 2 ^ k" "k \<le> i"
  shows "\<not> bit w i"
proof
  assume "bit w i"
  then have "bit (unat w) i" by (simp add: bit_unsigned_iff)
  then have "0 < unat w div 2 ^ i" by (intro odd_pos) (simp add: bit_iff_odd)
  moreover have "(2 :: nat) ^ k \<le> 2 ^ i" using assms(2) by simp
  ultimately show False using assms(1) by (simp add: div_eq_0_iff)
qed

lemma ucast_small:
  assumes "unat (n :: usize) < 2 ^ 31"
  shows "(scast (ucast n :: 32 word) :: usize) = n" "(ucast n :: 32 word) \<noteq> - 1"
proof -
  note h = high_bits_clear[OF assms]
  show "(scast (ucast n :: 32 word) :: usize) = n"
    by (rule bit_word_eqI) (auto simp: bit_signed_iff bit_unsigned_iff min_def h)
  have "\<not> bit (ucast n :: 32 word) 31" using h[of 31] by (simp add: bit_unsigned_iff)
  moreover have "bit (- 1 :: 32 word) 31" by simp
  ultimately show "(ucast n :: 32 word) \<noteq> - 1" by metis
qed

lemma fd_open_cong: "(ucast n :: 32 word) = ucast m \<Longrightarrow> fd_open t n T = fd_open t m T"
  by (simp only: fd_open_def)

text \<open>
  C24: opening gives a fresh descriptor for the node. For a user task and a node index
  below \<open>2 ^ 31\<close>, a successful \<open>open\<close> returns the lowest free descriptor, \<open>node\<close>
  maps it to that index with offset 0, the descriptors of every other task are unchanged,
  and closing it restores the task's descriptors as they were.
\<close>

theorem fd_open_close_roundtrip:
  assumes "user_task t" "unat n < 2 ^ 31" "fd_open t n T = Ret (Ok fd, T1)"
  shows "fd < MAX_FDS \<and> task_fds t T fd = None \<and> (\<forall>j<fd. task_fds t T j \<noteq> None) \<and>
    fd_node t fd T1 = Ret (Ok n) \<and> fd_offset t fd T1 = Ret 0 \<and>
    (\<forall>u. u \<noteq> t \<longrightarrow> task_fds u T1 = task_fds u T) \<and>
    (\<exists>T2. fd_close t fd T1 = Ret (Ok (), T2) \<and> task_fds t T2 = task_fds t T)"
proof -
  define e where "e = \<lparr>node_idx = ucast n :: 32 word, offset = 0\<rparr>"
  have e: "fresh_entry e" using ucast_small[OF assms(2)] by (simp add: e_def fresh_entry_def)
  have "fd_open t (ucast (node_idx e)) T = fd_open t n T"
    by (rule fd_open_cong) (simp add: e_def ucast_down_up)
  then have op: "fd_open t (ucast (node_idx e)) T = Ret (Ok fd, T1)" using assms(3) by simp
  show ?thesis using assms(1) e
  proof (cases rule: gfd.open_cases[where s = T])
    case full
    then show ?thesis using op by simp
  next
    case (slot fd0 s0)
    have eq: "fd0 = fd" "s0 = T1" using slot(4) op by auto
    have v: "task_fds t T1 fd = Some e" using slot(5) eq by simp
    then have "fd_node t fd T1 = Ret (Ok n)" "fd_offset t fd T1 = Ret 0"
      using assms(1) ucast_small[OF assms(2)]
      by (auto simp: task_fds_def fd_node_def fd_offset_def user_task_def e_def split: if_splits)
    then show ?thesis using slot(1-3,6) eq gfd.open_close_restores[OF assms(1) e op] by blast
  qed
qed

theorem fd_open_close_roundtrip_witness:
  "\<exists>T1. fd_open 3 7 FD_TABLE = Ret (Ok 0, T1) \<and> fd_node 3 0 T1 = Ret (Ok 7)"
proof -
  have t: "user_task 3" by (simp add: user_task_def MAX_TASKS_def)
  have n: "unat (7 :: usize) < 2 ^ 31" by simp
  have "scan (slot_free FD_TABLE 3) 0 MAX_FDS = Some 0"
    by (simp add: scan_Some_iff FD_TABLE_def fd_empty_def MAX_FDS_def)
  then have o: "fd_open 3 7 FD_TABLE =
      Ret (Ok 0, FD_TABLE(fd_index 3 0 := \<lparr>node_idx = ucast (7 :: usize), offset = 0\<rparr>))"
    by (simp add: fd_open_def MAX_TASKS_def)
  from fd_open_close_roundtrip[OF t n o] o show ?thesis by blast
qed

end
