(* ===== verification/Elf.thy ===== *)
theory Elf
  imports Frame
begin

text \<open>
  The ELF64 parser (\<open>src/elf.rs\<close>) and the builder of flat executables
  (\<open>src/elf_builder.rs\<close>).  Offsets are 64-bit words: \<open>e_phoff\<close> comes from the file and
  the sums formed with it wrap.  A slice whose end wraps below its start, or lies beyond the
  file, panics.  \<open>base\<close> is the address of the file image in memory.
\<close>

section \<open>The parser\<close>

definition MAX_SEGMENTS :: nat where "MAX_SEGMENTS = 8"

datatype ElfError = BadMagic | NotElf64 | NotExecutable | BadMachine | BadPhdr | TooManySegments

record ElfSegment =
  vaddr :: usize
  paddr :: usize
  data_ptr :: usize
  filesz :: usize
  memsz :: usize
  flags :: u32

definition seg_readable :: "ElfSegment \<Rightarrow> bool" where "seg_readable s \<longleftrightarrow> flags s AND 4 \<noteq> 0"
definition seg_writable :: "ElfSegment \<Rightarrow> bool" where "seg_writable s \<longleftrightarrow> flags s AND 2 \<noteq> 0"
definition seg_executable :: "ElfSegment \<Rightarrow> bool" where "seg_executable s \<longleftrightarrow> flags s AND 1 \<noteq> 0"

record ElfImage =
  entry_point :: usize
  segments :: "ElfSegment list"
  segment_count :: nat

definition empty_segment :: ElfSegment where
  "empty_segment = \<lparr>vaddr = 0, paddr = 0, data_ptr = 0, filesz = 0, memsz = 0, flags = 0\<rparr>"

text \<open>\<open>&d[off..off + n]\<close> with the bounds check of the language.\<close>

definition slice_at :: "u8 list \<Rightarrow> usize \<Rightarrow> nat \<Rightarrow> u8 list outcome" where
  "slice_at d off n = (let en = off + of_nat n in
    if unat off \<le> unat en \<and> unat en \<le> length d then Ret (get_slice d (unat off) n) else Panic)"

definition u32_at :: "u8 list \<Rightarrow> usize \<Rightarrow> u32 outcome" where
  "u32_at d off = obind (slice_at d off 4) (\<lambda>s. Ret (of_nat (le_nat s)))"

definition u64_at :: "u8 list \<Rightarrow> usize \<Rightarrow> u64 outcome" where
  "u64_at d off = obind (slice_at d off 8) (\<lambda>s. Ret (of_nat (le_nat s)))"

definition u16_pair :: "u8 list \<Rightarrow> nat \<Rightarrow> u16" where
  "u16_pair d i = of_nat (le_nat [d ! i, d ! (i + 1)])"

fun elf_machine :: "arch \<Rightarrow> u16" where
  "elf_machine X86_64 = 0x3E"
| "elf_machine AArch64 = 0xB7"

text \<open>One program header: \<open>None\<close> when it is not \<open>PT_LOAD\<close>.\<close>

definition parse_phdr :: "usize \<Rightarrow> u8 list \<Rightarrow> usize \<Rightarrow> ElfSegment option outcome" where
  "parse_phdr base d off =
    obind (u32_at d off) (\<lambda>p_type.
    if p_type \<noteq> 1 then Ret None else
    obind (u32_at d (off + 4)) (\<lambda>p_flags.
    obind (u64_at d (off + 8)) (\<lambda>p_offset.
    obind (u64_at d (off + 16)) (\<lambda>p_vaddr.
    obind (u64_at d (off + 24)) (\<lambda>p_paddr.
    obind (u64_at d (off + 32)) (\<lambda>p_filesz.
    obind (u64_at d (off + 40)) (\<lambda>p_memsz.
    Ret (Some \<lparr>vaddr = p_vaddr, paddr = p_paddr, data_ptr = base + p_offset,
      filesz = p_filesz, memsz = p_memsz, flags = p_flags\<rparr>))))))))"

fun parse_phdrs :: "usize \<Rightarrow> u8 list \<Rightarrow> usize \<Rightarrow> usize \<Rightarrow> nat list \<Rightarrow> ElfImage
    \<Rightarrow> (ElfImage, ElfError) result outcome" where
  "parse_phdrs base d phoff phentsize [] img = Ret (Ok img)"
| "parse_phdrs base d phoff phentsize (i # is) img =
    (let off = phoff + of_nat i * phentsize in
     if unat (off + 56) > length d then Ret (Err BadPhdr)
     else obind (parse_phdr base d off) (\<lambda>r. case r of
         None \<Rightarrow> parse_phdrs base d phoff phentsize is img
       | Some seg \<Rightarrow>
           if segment_count img \<ge> MAX_SEGMENTS then Ret (Err TooManySegments)
           else parse_phdrs base d phoff phentsize is
             (img\<lparr>segments := (segments img)[segment_count img := seg],
               segment_count := segment_count img + 1\<rparr>)))"

definition parse_elf :: "arch \<Rightarrow> usize \<Rightarrow> u8 list \<Rightarrow> (ElfImage, ElfError) result outcome" where
  "parse_elf a base d =
    (if length d < 64 then Ret (Err BadMagic)
     else if d ! 0 \<noteq> 0x7F \<or> d ! 1 \<noteq> 0x45 \<or> d ! 2 \<noteq> 0x4C \<or> d ! 3 \<noteq> 0x46 then Ret (Err BadMagic)
     else if d ! 4 \<noteq> 2 then Ret (Err NotElf64)
     else if u16_pair d 0x10 \<noteq> 2 then Ret (Err NotExecutable)
     else if u16_pair d 0x12 \<noteq> elf_machine a then Ret (Err BadMachine)
     else let entry = get_u64 d 0x18; e_phoff = get_u64 d 0x20;
         e_phentsize = u16_pair d 0x36; e_phnum = u16_pair d 0x38 in
       if unat e_phentsize < 56 then Ret (Err BadPhdr)
       else parse_phdrs base d e_phoff (ucast e_phentsize) [0..<unat e_phnum]
         \<lparr>entry_point = entry, segments = replicate MAX_SEGMENTS empty_segment, segment_count = 0\<rparr>)"

section \<open>The builder\<close>

text \<open>The assignments to \<open>buf\<close>, in program order: offset and bytes.\<close>

definition flat_elf_writes :: "arch \<Rightarrow> u8 list \<Rightarrow> usize \<Rightarrow> (nat \<times> u8 list) list" where
  "flat_elf_writes a code load_addr =
    [(0, [0x7F]), (1, [0x45]), (2, [0x4C]), (3, [0x46]), (4, [2]), (5, [1]), (6, [1]), (7, [0]),
     (0x10, [2]), (0x11, [0]),
     (0x12, [case a of X86_64 \<Rightarrow> 0x3E | AArch64 \<Rightarrow> 0xB7]), (0x13, [0x00]),
     (0x14, [1]),
     (0x18, le_bytes 8 (unat load_addr)),
     (0x20, le_bytes 8 64),
     (0x34, le_bytes 2 64),
     (0x36, le_bytes 2 56),
     (0x38, le_bytes 2 1),
     (64, le_bytes 4 1),
     (68, le_bytes 4 7),
     (72, le_bytes 8 120),
     (80, le_bytes 8 (unat load_addr)),
     (88, le_bytes 8 (unat load_addr)),
     (96, le_bytes 8 (length code)),
     (104, le_bytes 8 (length code)),
     (112, le_bytes 8 0x1000),
     (120, code)]"

definition build_flat_elf :: "arch \<Rightarrow> u8 list \<Rightarrow> usize \<Rightarrow> u8 list" where
  "build_flat_elf a code load_addr =
    fold (\<lambda>(off, bs) buf. put_slice buf off bs) (flat_elf_writes a code load_addr) (replicate (120 + length code) 0)"

section \<open>The parser does not panic on honest offsets\<close>

lemma slice_at_ret:
  assumes "unat off + n \<le> length d" "unat off + n < 2 ^ 64"
  shows "slice_at d off n = Ret (get_slice d (unat off) n)"
proof -
  have "unat (off + of_nat n) = unat off + n"
    using assms(2) by (subst unat_plus_simple_le) (auto simp: unat_of_nat)
  then show ?thesis using assms(1) by (simp add: slice_at_def)
qed

lemma unat_add_small: "unat (off :: usize) + n < 2 ^ 64 \<Longrightarrow> unat (off + of_nat n) = unat off + n"
  by (subst unat_plus_simple_le) (auto simp: unat_of_nat)

lemma field_at_ret:
  assumes "unat off + 56 \<le> length d" "unat off + 56 < 2 ^ 64" "k \<le> 48"
  shows "u32_at d (off + of_nat k) = Ret (get_u32 d (unat off + k))"
    "u64_at d (off + of_nat k) = Ret (get_u64 d (unat off + k))"
proof -
  have k: "unat (off + of_nat k) = unat off + k" using assms by (intro unat_add_small) simp
  then show "u32_at d (off + of_nat k) = Ret (get_u32 d (unat off + k))"
    "u64_at d (off + of_nat k) = Ret (get_u64 d (unat off + k))"
    using assms by (simp_all add: u32_at_def u64_at_def slice_at_ret get_u32_def get_u64_def)
qed

text \<open>The header at \<open>off\<close> as a segment, in terms of the file's bytes.\<close>

definition phdr_segment :: "usize \<Rightarrow> u8 list \<Rightarrow> nat \<Rightarrow> ElfSegment" where
  "phdr_segment base d off = \<lparr>vaddr = get_u64 d (off + 16), paddr = get_u64 d (off + 24),
     data_ptr = base + get_u64 d (off + 8), filesz = get_u64 d (off + 32), memsz = get_u64 d (off + 40),
     flags = get_u32 d (off + 4)\<rparr>"

lemma parse_phdr_ret:
  assumes "unat off + 56 \<le> length d" "unat off + 56 < 2 ^ 64"
  shows "parse_phdr base d off = Ret (if get_u32 d (unat off) \<noteq> 1 then None else Some (phdr_segment base d (unat off)))"
  using field_at_ret[OF assms, of 0] field_at_ret[OF assms, of 4] field_at_ret[OF assms, of 8]
    field_at_ret[OF assms, of 16] field_at_ret[OF assms, of 24] field_at_ret[OF assms, of 32]
    field_at_ret[OF assms, of 40]
  by (simp add: parse_phdr_def phdr_segment_def)

lemma unat_phdr_off:
  assumes "unat phoff + i * unat ents + 56 < 2 ^ 64"
  shows "unat (phoff + of_nat i * ents :: usize) = unat phoff + i * unat ents"
proof -
  have m: "unat (of_nat i * ents) = i * unat ents"
    using assms by (simp add: unat_word_ariths unat_of_nat mod_mult_left_eq)
  show ?thesis using assms m by (subst unat_plus_simple_le) simp_all
qed

definition load_headers :: "u8 list \<Rightarrow> nat \<Rightarrow> nat \<Rightarrow> nat list \<Rightarrow> nat list" where
  "load_headers d phoff ents is = filter (\<lambda>off. get_u32 d off = 1) (map (\<lambda>i. phoff + i * ents) is)"

definition image_ok :: "ElfImage \<Rightarrow> bool" where
  "image_ok img \<longleftrightarrow> length (segments img) = MAX_SEGMENTS \<and> segment_count img \<le> MAX_SEGMENTS"

lemma parse_phdrs_spec:
  assumes "\<forall>i \<in> set is. unat phoff + i * unat ents + 56 < 2 ^ 64" "image_ok img"
  shows "\<exists>r. parse_phdrs base d phoff ents is img = Ret r \<and>
    (\<forall>img'. r = Ok img' \<longrightarrow> image_ok img' \<and> entry_point img' = entry_point img \<and>
      (\<forall>i \<in> set is. unat phoff + i * unat ents + 56 \<le> length d) \<and>
      take (segment_count img') (segments img') = take (segment_count img) (segments img) @
        map (phdr_segment base d) (load_headers d (unat phoff) (unat ents) is))"
  using assms
proof (induction "is" arbitrary: img)
  case Nil
  then show ?case by (simp add: load_headers_def)
next
  case (Cons i "is")
  let ?off = "phoff + of_nat i * ents" and ?o = "unat phoff + i * unat ents"
  have o: "unat ?off = ?o" "?o + 56 < 2 ^ 64" using Cons.prems(1) unat_phdr_off[of phoff i ents] by auto
  have o56: "unat (?off + 56) = ?o + 56" using unat_add_small[of ?off 56] o by simp
  show ?case
  proof (cases "?o + 56 \<le> length d")
    case False
    then show ?thesis using o56 by (simp add: Let_def)
  next
    case True
    have ph: "parse_phdr base d ?off = Ret (if get_u32 d ?o \<noteq> 1 then None else Some (phdr_segment base d ?o))"
      using parse_phdr_ret[of ?off d base] o True by simp
    have rest: "\<forall>i \<in> set is. unat phoff + i * unat ents + 56 < 2 ^ 64" using Cons.prems(1) by simp
    show ?thesis
    proof (cases "get_u32 d ?o = 1")
      case False
      then show ?thesis using Cons.IH[OF rest Cons.prems(2)] ph o56 True
        by (auto simp: Let_def load_headers_def)
    next
      case load: True
      show ?thesis
      proof (cases "segment_count img \<ge> MAX_SEGMENTS")
        case True
        then show ?thesis using ph load o56 \<open>?o + 56 \<le> length d\<close> by (simp add: Let_def)
      next
        case False
        let ?img = "img\<lparr>segments := (segments img)[segment_count img := phdr_segment base d ?o],
          segment_count := segment_count img + 1\<rparr>"
        have ok: "image_ok ?img" using Cons.prems(2) False by (simp add: image_ok_def)
        have tk: "take (segment_count ?img) (segments ?img) =
            take (segment_count img) (segments img) @ [phdr_segment base d ?o]"
          using Cons.prems(2) False by (simp add: image_ok_def take_Suc_conv_app_nth)
        have "parse_phdrs base d phoff ents (i # is) img = parse_phdrs base d phoff ents is ?img"
          using ph load o56 True False by (simp add: Let_def)
        then show ?thesis using Cons.IH[OF rest ok] tk load True
          by (auto simp: load_headers_def)
      qed
    qed
  qed
qed


section \<open>Building and parsing\<close>

text \<open>A sequence of writes: the last one that touches a range decides what is read there.\<close>

abbreviation writes :: "(nat \<times> u8 list) list \<Rightarrow> u8 list \<Rightarrow> u8 list" where
  "writes ws d \<equiv> fold (\<lambda>(off, bs) buf. put_slice buf off bs) ws d"

fun fits :: "nat \<Rightarrow> (nat \<times> u8 list) list \<Rightarrow> bool" where
  "fits n [] = True"
| "fits n ((off, bs) # ws) = (off + length bs \<le> n \<and> fits n ws)"

fun avoids :: "nat \<Rightarrow> nat \<Rightarrow> (nat \<times> u8 list) list \<Rightarrow> bool" where
  "avoids off n [] = True"
| "avoids off n ((p, bs) # ws) = ((p + length bs \<le> off \<or> off + n \<le> p) \<and> avoids off n ws)"

fun decides :: "nat \<Rightarrow> u8 list \<Rightarrow> (nat \<times> u8 list) list \<Rightarrow> bool" where
  "decides off bs [] = False"
| "decides off bs ((p, cs) # ws) = (p = off \<and> cs = bs \<and> avoids off (length bs) ws \<or> decides off bs ws)"

lemma length_writes: "fits (length d) ws \<Longrightarrow> length (writes ws d) = length d"
  by (induction ws arbitrary: d) auto

lemma writes_avoids:
  "\<lbrakk>fits (length d) ws; avoids off n ws; off + n \<le> length d\<rbrakk> \<Longrightarrow> get_slice (writes ws d) off n = get_slice d off n"
proof (induction ws arbitrary: d)
  case (Cons w ws)
  then show ?case by (cases w) (auto simp: get_put_slice_other)
qed simp

lemma writes_decides:
  "\<lbrakk>fits (length d) ws; decides off bs ws\<rbrakk> \<Longrightarrow> get_slice (writes ws d) off (length bs) = bs"
proof (induction ws arbitrary: d)
  case (Cons w ws)
  obtain p cs where w: "w = (p, cs)" by (cases w)
  have f: "p + length cs \<le> length d" "fits (length (put_slice d p cs)) ws" using Cons.prems(1) w by auto
  show ?case
  proof (cases "decides off bs ws")
    case True
    then show ?thesis using Cons.IH[OF f(2)] w by simp
  next
    case False
    then have "p = off" "cs = bs" "avoids off (length bs) ws" using Cons.prems(2) w by auto
    then show ?thesis using f writes_avoids[OF f(2), of off "length bs"] w by simp
  qed
qed simp

lemma u16_pair_get: "i + 2 \<le> length d \<Longrightarrow> u16_pair d i = of_nat (le_nat (get_slice d i 2))"
proof -
  assume i: "i + 2 \<le> length d"
  have "get_slice d i 2 = [d ! i, d ! (i + 1)]"
    using i by (intro nth_equalityI) (auto simp: less_Suc_eq numeral_2_eq_2)
  then show ?thesis by (simp add: u16_pair_def)
qed

lemma nth_get_slice_1: "\<lbrakk>get_slice d i (length [v]) = [v]; i < length d\<rbrakk> \<Longrightarrow> d ! i = v"
  using nth_get_slice[of i 1 d 0] by simp

text \<open>The header part of the built file, field by field.\<close>

lemma flat_elf_fits: "fits (120 + length code) (flat_elf_writes a code addr)"
  by (simp add: flat_elf_writes_def del: le_bytes.simps)

lemma built_length [simp]: "length (build_flat_elf a code addr) = 120 + length code"
  using length_writes[of "replicate (120 + length code) 0"] flat_elf_fits by (simp add: build_flat_elf_def)

lemma built_slice:
  assumes "decides off bs (flat_elf_writes a code addr)"
  shows "get_slice (build_flat_elf a code addr) off (length bs) = bs"
  unfolding build_flat_elf_def by (rule writes_decides) (use assms flat_elf_fits in simp_all)

lemma built_byte:
  assumes "decides off [v] (flat_elf_writes a code addr)" "off < 120"
  shows "build_flat_elf a code addr ! off = v"
  using nth_get_slice_1[OF built_slice[OF assms(1)]] assms(2) by simp

lemma built_uint:
  "decides off (le_bytes 2 v) (flat_elf_writes a code addr) \<Longrightarrow> get_slice (build_flat_elf a code addr) off 2 = le_bytes 2 v"
  "decides off (le_bytes 4 v) (flat_elf_writes a code addr) \<Longrightarrow> get_u32 (build_flat_elf a code addr) off = of_nat (v mod 2 ^ 32)"
  "decides off (le_bytes 8 v) (flat_elf_writes a code addr) \<Longrightarrow> get_u64 (build_flat_elf a code addr) off = of_nat (v mod 2 ^ 64)"
  using built_slice[of off "le_bytes 2 v" a code addr] built_slice[of off "le_bytes 4 v" a code addr]
    built_slice[of off "le_bytes 8 v" a code addr]
  by (simp_all add: get_u32_def get_u64_def le_nat_le_bytes del: le_bytes.simps)

lemmas decides_simps = flat_elf_writes_def decides.simps avoids.simps length_le_bytes

lemma built_ident:
  "build_flat_elf a code addr ! 0 = 0x7F" "build_flat_elf a code addr ! Suc 0 = 0x45"
  "build_flat_elf a code addr ! 2 = 0x4C" "build_flat_elf a code addr ! 3 = 0x46"
  "build_flat_elf a code addr ! 4 = 2"
  by (rule built_byte; simp add: decides_simps del: le_bytes.simps)+

lemma built_type:
  "u16_pair (build_flat_elf a code addr) 0x10 = 2"
  "u16_pair (build_flat_elf a code addr) 0x12 = elf_machine a"
proof -
  let ?d = "build_flat_elf a code addr"
  have "?d ! 0x10 = 2" "?d ! 0x11 = 0" "?d ! 0x12 = (case a of X86_64 \<Rightarrow> 0x3E | AArch64 \<Rightarrow> 0xB7)" "?d ! 0x13 = 0"
    by (rule built_byte; simp add: decides_simps del: le_bytes.simps)+
  then show "u16_pair ?d 0x10 = 2" "u16_pair ?d 0x12 = elf_machine a"
    by (simp_all add: u16_pair_def split: arch.splits)
qed

lemma built_header:
  "get_u64 (build_flat_elf a code addr) 0x18 = addr" "get_u64 (build_flat_elf a code addr) 0x20 = 64"
  "u16_pair (build_flat_elf a code addr) 0x36 = 56" "u16_pair (build_flat_elf a code addr) 0x38 = 1"
proof -
  show "get_u64 (build_flat_elf a code addr) 0x18 = addr"
    using built_uint(3)[of "0x18" "unat addr" a code addr] unat_bound[of addr]
    by (simp add: decides_simps del: le_bytes.simps)
  show "get_u64 (build_flat_elf a code addr) 0x20 = 64"
    using built_uint(3)[of "0x20" 64 a code addr] by (simp add: decides_simps del: le_bytes.simps)
  show "u16_pair (build_flat_elf a code addr) 0x36 = 56"
    using built_uint(1)[of "0x36" 56 a code addr]
    by (simp add: decides_simps u16_pair_get le_nat_le_bytes del: le_bytes.simps)
  show "u16_pair (build_flat_elf a code addr) 0x38 = 1"
    using built_uint(1)[of "0x38" 1 a code addr]
    by (simp add: decides_simps u16_pair_get le_nat_le_bytes del: le_bytes.simps)
qed

lemma built_phdr:
  "get_u32 (build_flat_elf a code addr) 64 = 1" "get_u32 (build_flat_elf a code addr) 68 = 7"
  "get_u64 (build_flat_elf a code addr) 72 = 120" "get_u64 (build_flat_elf a code addr) 80 = addr"
  "get_u64 (build_flat_elf a code addr) 88 = addr" "get_u64 (build_flat_elf a code addr) 96 = of_nat (length code)"
  "get_u64 (build_flat_elf a code addr) 104 = of_nat (length code)"
proof -
  let ?d = "build_flat_elf a code addr"
  have len: "(of_nat (length code mod 2 ^ 64) :: u64) = of_nat (length code)"
    by (rule word_unat_eq_iff[THEN iffD2]) (simp add: unat_of_nat)
  show "get_u32 ?d 64 = 1"
    using built_uint(2)[of 64 1 a code addr] by (simp add: decides_simps del: le_bytes.simps)
  show "get_u32 ?d 68 = 7"
    using built_uint(2)[of 68 7 a code addr] by (simp add: decides_simps del: le_bytes.simps)
  show "get_u64 ?d 72 = 120"
    using built_uint(3)[of 72 120 a code addr] by (simp add: decides_simps del: le_bytes.simps)
  show "get_u64 ?d 80 = addr"
    using built_uint(3)[of 80 "unat addr" a code addr] unat_bound[of addr] by (simp add: decides_simps del: le_bytes.simps)
  show "get_u64 ?d 88 = addr"
    using built_uint(3)[of 88 "unat addr" a code addr] unat_bound[of addr] by (simp add: decides_simps del: le_bytes.simps)
  show "get_u64 ?d 96 = of_nat (length code)" unfolding len[symmetric]
    by (rule built_uint(3)) (simp add: decides_simps del: le_bytes.simps)
  show "get_u64 ?d 104 = of_nat (length code)" unfolding len[symmetric]
    by (rule built_uint(3)) (simp add: decides_simps del: le_bytes.simps)
qed

lemma built_code: "get_slice (build_flat_elf a code addr) 120 (length code) = code"
  by (rule built_slice) (simp add: decides_simps del: le_bytes.simps)

text \<open>
  C6: what the builder writes the parser reads. The built file parses to one segment with
  the given load address and entry point, readable, writable and executable, whose file
  offset is 120 and whose data is exactly the code.
\<close>

theorem elf_build_parse_roundtrip:
  "\<exists>img. parse_elf a base (build_flat_elf a code addr) = Ret (Ok img) \<and> entry_point img = addr \<and>
    segment_count img = 1 \<and>
    segments img ! 0 = \<lparr>vaddr = addr, paddr = addr, data_ptr = base + 120, filesz = of_nat (length code),
      memsz = of_nat (length code), flags = 7\<rparr> \<and>
    get_slice (build_flat_elf a code addr) 120 (length code) = code"
proof -
  let ?d = "build_flat_elf a code addr"
  have "parse_phdr base ?d 64 = Ret (Some (phdr_segment base ?d 64))"
    using parse_phdr_ret[of 64 ?d base] by (simp add: built_phdr)
  then have "parse_elf a base ?d = Ret (Ok \<lparr>entry_point = addr,
      segments = (replicate MAX_SEGMENTS empty_segment)[0 := phdr_segment base ?d 64], segment_count = 1\<rparr>)"
    by (simp add: parse_elf_def built_ident built_type built_header MAX_SEGMENTS_def)
  then show ?thesis by (simp add: phdr_segment_def built_phdr built_code MAX_SEGMENTS_def)
qed


text \<open>
  C31: a file can make the parser panic. Take any built file (shorter than \<open>2 ^ 62\<close> bytes) and overwrite its \<open>e_phoff\<close>
  with \<open>2 ^ 64 - 8\<close>: the bounds check \<open>off + 56 > len\<close> is done with wrapping arithmetic
  and passes, and the slice that follows is out of range, so the parser aborts the kernel
  instead of returning \<open>BadPhdr\<close>.
\<close>

theorem elf_parse_panics_on_wrapping_phoff:
  assumes "length code < 2 ^ 62"
  shows "parse_elf a base (put_u64 (build_flat_elf a code addr) 0x20 (- 8)) = Panic"
proof -
  let ?b = "build_flat_elf a code addr"
  let ?d = "put_u64 ?b 0x20 (- 8)"
  have len: "length ?d = 120 + length code" by simp
  have nth: "?d ! i = ?b ! i" if "i < 0x20 \<or> 0x28 \<le> i" "i < 120" for i
    using that by (auto simp: put_u64_def nth_put_slice)
  have off: "get_u64 ?d 0x20 = - 8" by simp
  have p: "u16_pair ?d 0x10 = 2" "u16_pair ?d 0x12 = elf_machine a" "u16_pair ?d 0x36 = 56" "u16_pair ?d 0x38 = 1"
    using built_type[of a code addr] built_header[of a code addr] by (simp_all add: u16_pair_def nth)
  have id: "?d ! 0 = 0x7F" "?d ! Suc 0 = 0x45" "?d ! 2 = 0x4C" "?d ! 3 = 0x46" "?d ! 4 = 2"
    by (simp_all add: nth built_ident)
  have "slice_at ?d (- 8) 4 = Panic" using assms by (simp add: slice_at_def len)
  then have "parse_phdr base ?d (- 8) = Panic" by (simp add: parse_phdr_def u32_at_def)
  then show ?thesis using len by (simp add: parse_elf_def p id off)
qed

theorem elf_parse_panics_on_wrapping_phoff_witness:
  "parse_elf X86_64 0 (put_u64 (build_flat_elf X86_64 [0x90] 0x400000) 0x20 (- 8)) = Panic"
  by (rule elf_parse_panics_on_wrapping_phoff) simp

end
