(* ===== verification/Paging.thy ===== *)
theory Paging
  imports Frame
begin

text \<open>
  Page tables on x86-64 (\<open>src/arch/x86_64/paging.rs\<close>, \<open>src/paging.rs\<close>).  The store
  \<open>tabs\<close> holds the tables, by physical address and entry number; \<open>bytes\<close> holds the
  contents of data pages.  A physical frame is used as a table or as a data page, never
  both.  Running out of frames stops the machine (\<open>alloc_table_or_halt\<close>), as does a loop
  that does not end: both are \<open>None\<close>.
\<close>

section \<open>State and table entries\<close>

type_synonym table = "nat \<Rightarrow> u64"

record machine =
  tabs :: "usize \<Rightarrow> table"
  bytes :: "usize \<Rightarrow> u8"
  KERNEL_PML4_PA :: usize
  cr3 :: usize
  fr :: frame_state

abbreviation P_PRESENT :: u64 where "P_PRESENT \<equiv> 1"
abbreviation P_WRITE :: u64 where "P_WRITE \<equiv> 2"
abbreviation P_USER :: u64 where "P_USER \<equiv> 4"
abbreviation P_PCD :: u64 where "P_PCD \<equiv> 16"
abbreviation P_SIZE :: u64 where "P_SIZE \<equiv> 128"
abbreviation P_NX :: u64 where "P_NX \<equiv> 0x8000000000000000"
abbreviation ADDR_MASK :: u64 where "ADDR_MASK \<equiv> 0x000FFFFFFFFFF000"
abbreviation BLOCK_MASK :: u64 where "BLOCK_MASK \<equiv> 0x000FFFFFFFE00000"

definition table_entry :: "u64 \<Rightarrow> u64" where
  "table_entry pa = pa OR P_PRESENT OR P_WRITE"

definition table_entry_user :: "u64 \<Rightarrow> u64" where
  "table_entry_user pa = pa OR P_PRESENT OR P_WRITE OR P_USER"

definition page_2mb :: "u64 \<Rightarrow> u64" where
  "page_2mb pa = pa OR P_PRESENT OR P_WRITE OR P_SIZE"

definition page_4k :: "u64 \<Rightarrow> bool \<Rightarrow> bool \<Rightarrow> bool \<Rightarrow> u64" where
  "page_4k pa writable user executable =
    (let f = P_PRESENT;
         f = (if writable then f OR P_WRITE else f);
         f = (if user then f OR P_USER else f);
         f = (if \<not> executable then f OR P_NX else f)
     in pa OR f)"

definition page_4k_uc :: "u64 \<Rightarrow> u64" where
  "page_4k_uc pa = pa OR P_PRESENT OR P_WRITE OR P_PCD"

definition pml4_index :: "usize \<Rightarrow> nat" where "pml4_index virt = unat (drop_bit 39 virt AND 0x1FF)"
definition pdpt_index :: "usize \<Rightarrow> nat" where "pdpt_index virt = unat (drop_bit 30 virt AND 0x1FF)"
definition pd_index :: "usize \<Rightarrow> nat" where "pd_index virt = unat (drop_bit 21 virt AND 0x1FF)"
definition pt_index :: "usize \<Rightarrow> nat" where "pt_index virt = unat (drop_bit 12 virt AND 0x1FF)"

abbreviation set_entry :: "usize \<Rightarrow> nat \<Rightarrow> u64 \<Rightarrow> machine \<Rightarrow> machine" where
  "set_entry t i e m \<equiv> m\<lparr>tabs := (tabs m)(t := (tabs m t)(i := e))\<rparr>"

definition zero_table :: "usize \<Rightarrow> machine \<Rightarrow> machine" where
  "zero_table t m = m\<lparr>tabs := (tabs m)(t := (\<lambda>_. 0))\<rparr>"

definition alloc_table_or_halt :: "machine \<Rightarrow> (PhysFrame \<times> machine) option" where
  "alloc_table_or_halt m = (case allocate_frame (fr m) of
      (Some f, s) \<Rightarrow> Some (f, m\<lparr>fr := s\<rparr>)
    | (None, s) \<Rightarrow> None)"

section \<open>Kernel mappings\<close>

text \<open>
  One level of \<open>map_page\<close>: the table that entry \<open>idx\<close> of table \<open>t\<close> points to, allocated
  and entered when the entry is not present.
\<close>

definition next_table :: "usize \<Rightarrow> nat \<Rightarrow> machine \<Rightarrow> (usize \<times> machine) option" where
  "next_table t idx m =
    (if tabs m t idx AND P_PRESENT \<noteq> 0 then Some (tabs m t idx AND ADDR_MASK, m)
     else case alloc_table_or_halt m of
       None \<Rightarrow> None
     | Some (f, m1) \<Rightarrow> (let pa = start_address X86_64 f; m2 = zero_table pa m1 in
         Some (pa, set_entry t idx (table_entry pa) m2)))"

text \<open>The last table level: a 2 MiB block is first split into 512 small pages.\<close>

definition fill_small_pages :: "usize \<Rightarrow> u64 \<Rightarrow> machine \<Rightarrow> machine" where
  "fill_small_pages pt base m = m\<lparr>tabs := (tabs m)(pt := (\<lambda>i.
      if i < 512 then page_4k (base + of_nat i * 0x1000) True False True else tabs m pt i))\<rparr>"

definition next_pt :: "usize \<Rightarrow> nat \<Rightarrow> machine \<Rightarrow> (usize \<times> machine) option" where
  "next_pt pd idx m =
    (if tabs m pd idx AND P_PRESENT \<noteq> 0 \<and> tabs m pd idx AND P_SIZE \<noteq> 0 then
       (let old_2mb_base = tabs m pd idx AND BLOCK_MASK in
        case alloc_table_or_halt m of
          None \<Rightarrow> None
        | Some (f, m1) \<Rightarrow> (let new_pt_pa = start_address X86_64 f;
              m2 = fill_small_pages new_pt_pa old_2mb_base (zero_table new_pt_pa m1) in
            Some (new_pt_pa, set_entry pd idx (table_entry new_pt_pa) m2)))
     else next_table pd idx m)"

text \<open>\<open>map_page\<close> and \<open>map_page_uc\<close> differ only in the final entry \<open>leaf\<close>.\<close>

definition map_leaf :: "u64 \<Rightarrow> usize \<Rightarrow> machine \<Rightarrow> machine option" where
  "map_leaf leaf virt m = (case next_table (KERNEL_PML4_PA m) (pml4_index virt) m of
      None \<Rightarrow> None
    | Some (pdpt_pa, m1) \<Rightarrow> (case next_table pdpt_pa (pdpt_index virt) m1 of
        None \<Rightarrow> None
      | Some (pd_pa, m2) \<Rightarrow> (case next_pt pd_pa (pd_index virt) m2 of
          None \<Rightarrow> None
        | Some (pt_pa, m3) \<Rightarrow> Some (set_entry pt_pa (pt_index virt) leaf m3))))"

definition map_page :: "usize \<Rightarrow> machine \<Rightarrow> machine option" where
  "map_page virt m = map_leaf (page_4k virt True False True) virt m"

definition map_page_uc :: "usize \<Rightarrow> machine \<Rightarrow> machine option" where
  "map_page_uc virt m = map_leaf (page_4k_uc virt) virt m"

text \<open>The loop of \<open>init\<close> over the first two entries of the PDPT.\<close>

definition init_pd :: "usize \<Rightarrow> nat \<Rightarrow> machine \<Rightarrow> machine option" where
  "init_pd pdpt_pa pdpt_idx m = (case alloc_table_or_halt m of
      None \<Rightarrow> None
    | Some (f, m1) \<Rightarrow> (let pd_pa = start_address X86_64 f;
          m2 = zero_table pd_pa (set_entry pdpt_pa pdpt_idx (table_entry pd_pa) m1) in
        Some (m2\<lparr>tabs := (tabs m2)(pd_pa := (\<lambda>i. if i < 512
          then page_2mb (of_nat pdpt_idx * 0x40000000 + of_nat i * 0x200000) else tabs m2 pd_pa i))\<rparr>)))"

definition paging_init :: "machine \<Rightarrow> machine option" where
  "paging_init m = (case alloc_table_or_halt m of
      None \<Rightarrow> None
    | Some (pml4, m1) \<Rightarrow> (case alloc_table_or_halt m1 of
        None \<Rightarrow> None
      | Some (pdpt, m2) \<Rightarrow>
          (let pml4_pa = start_address X86_64 pml4; pdpt_pa = start_address X86_64 pdpt;
               m3 = zero_table pdpt_pa (set_entry pml4_pa 0 (table_entry pdpt_pa) (zero_table pml4_pa m2)) in
           case init_pd pdpt_pa 0 m3 of
             None \<Rightarrow> None
           | Some m4 \<Rightarrow> (case init_pd pdpt_pa 1 m4 of
               None \<Rightarrow> None
             | Some m5 \<Rightarrow> Some (m5\<lparr>KERNEL_PML4_PA := pml4_pa, cr3 := pml4_pa\<rparr>)))))"

section \<open>User mappings\<close>

definition USER_BASE_VA :: usize where "USER_BASE_VA = 0x00400000"

definition map_user_page :: "usize \<Rightarrow> usize \<Rightarrow> machine \<Rightarrow> (usize \<times> machine) option" where
  "map_user_page pml4_pa virt m =
    (let pdpt_pa = tabs m pml4_pa (pml4_index virt) AND ADDR_MASK;
         pd_pa = tabs m pdpt_pa (pdpt_index virt) AND ADDR_MASK;
         pd_entry = tabs m pd_pa (pd_index virt) in
     if pd_entry AND P_SIZE \<noteq> 0 then
       (case alloc_table_or_halt m of
          None \<Rightarrow> None
        | Some (f, m1) \<Rightarrow> (let pt_pa = start_address X86_64 f;
              m2 = fill_small_pages pt_pa (pd_entry AND BLOCK_MASK) (zero_table pt_pa m1) in
            Some (pt_pa, set_entry pd_pa (pd_index virt) (table_entry_user pt_pa) m2)))
     else Some (pd_entry AND ADDR_MASK, m))"

text \<open>Step 1 of \<open>create_user_page_tables\<close>, for one entry of the kernel's PDPT.\<close>

definition clone_pd :: "usize \<Rightarrow> usize \<Rightarrow> nat \<Rightarrow> machine \<Rightarrow> machine option" where
  "clone_pd kernel_pdpt_pa new_pdpt_pa pdpt_idx m =
    (let kernel_pd_entry = tabs m kernel_pdpt_pa pdpt_idx in
     if kernel_pd_entry AND P_PRESENT = 0 then Some m
     else if kernel_pd_entry AND P_SIZE \<noteq> 0 then Some (set_entry new_pdpt_pa pdpt_idx kernel_pd_entry m)
     else (let kernel_pd_pa = kernel_pd_entry AND ADDR_MASK in
       case alloc_table_or_halt m of
         None \<Rightarrow> None
       | Some (f, m1) \<Rightarrow> (let new_pd_pa = start_address X86_64 f; m2 = zero_table new_pd_pa m1;
             m3 = m2\<lparr>tabs := (tabs m2)(new_pd_pa := (\<lambda>k. if k < 512 then tabs m2 kernel_pd_pa k else tabs m2 new_pd_pa k))\<rparr> in
           Some (set_entry new_pdpt_pa pdpt_idx (table_entry_user new_pd_pa) m3))))"

fun clone_pds :: "usize \<Rightarrow> usize \<Rightarrow> nat list \<Rightarrow> machine \<Rightarrow> machine option" where
  "clone_pds kernel_pdpt_pa new_pdpt_pa [] m = Some m"
| "clone_pds kernel_pdpt_pa new_pdpt_pa (i # is) m = (case clone_pd kernel_pdpt_pa new_pdpt_pa i m of
      None \<Rightarrow> None | Some m1 \<Rightarrow> clone_pds kernel_pdpt_pa new_pdpt_pa is m1)"

definition zero_page :: "usize \<Rightarrow> machine \<Rightarrow> machine" where
  "zero_page pa m = m\<lparr>bytes := (\<lambda>a. if pa \<le> a \<and> unat (a - pa) < 4096 then 0 else bytes m a)\<rparr>"

text \<open>One page of step 2: a fresh zeroed frame entered at \<open>addr\<close>.\<close>

definition map_fresh :: "usize \<Rightarrow> usize \<Rightarrow> bool \<Rightarrow> bool \<Rightarrow> machine \<Rightarrow> (usize \<times> machine) option" where
  "map_fresh pml4_pa addr writable executable m = (case alloc_table_or_halt m of
      None \<Rightarrow> None
    | Some (f, m1) \<Rightarrow> (let fresh_pa = start_address X86_64 f; m2 = zero_page fresh_pa m1 in
        case map_user_page pml4_pa addr m2 of
          None \<Rightarrow> None
        | Some (pt_pa, m3) \<Rightarrow>
            Some (fresh_pa, set_entry pt_pa (pt_index addr) (page_4k fresh_pa writable True executable) m3)))"

type_synonym phys_frame_rec = "usize \<times> nat \<times> usize"   \<comment> \<open>virtual address, size, physical address\<close>

partial_function (option) map_range ::
    "usize \<Rightarrow> u32 \<Rightarrow> usize \<Rightarrow> usize \<Rightarrow> phys_frame_rec list \<Rightarrow> machine \<Rightarrow> (phys_frame_rec list \<times> machine) option" where
  [code]: "map_range pml4_pa flags addr en acc m =
    (if addr < en then
       (case map_fresh pml4_pa addr (flags AND 2 \<noteq> 0) (flags AND 1 \<noteq> 0) m of
          None \<Rightarrow> None
        | Some (fresh_pa, m1) \<Rightarrow> map_range pml4_pa flags (addr + 0x1000) en (acc @ [(addr, 4096, fresh_pa)]) m1)
     else Some (acc, m))"

type_synonym elf_seg_tuple = "usize \<times> usize \<times> usize \<times> usize \<times> u32"

fun map_segments :: "usize \<Rightarrow> elf_seg_tuple list \<Rightarrow> phys_frame_rec list \<Rightarrow> machine
    \<Rightarrow> (phys_frame_rec list \<times> machine) option" where
  "map_segments pml4_pa [] acc m = Some (acc, m)"
| "map_segments pml4_pa ((vaddr, _, _, memsz, flags) # segs) acc m =
    (if memsz = 0 then map_segments pml4_pa segs acc m
     else case map_range pml4_pa flags (vaddr AND NOT 0xFFF) (vaddr + memsz) acc m of
       None \<Rightarrow> None
     | Some (acc1, m1) \<Rightarrow> map_segments pml4_pa segs acc1 m1)"

definition create_user_page_tables :: "elf_seg_tuple list \<Rightarrow> machine \<Rightarrow> ((usize \<times> phys_frame_rec list) \<times> machine) option" where
  "create_user_page_tables elf_segments m = (case alloc_table_or_halt m of
      None \<Rightarrow> None
    | Some (new_pml4, m1) \<Rightarrow>
        (let new_pml4_pa = start_address X86_64 new_pml4; m2 = zero_table new_pml4_pa m1;
             kernel_pdpt_pa = tabs m2 (KERNEL_PML4_PA m2) 0 AND ADDR_MASK in
         case alloc_table_or_halt m2 of
           None \<Rightarrow> None
         | Some (new_pdpt, m3) \<Rightarrow>
             (let new_pdpt_pa = start_address X86_64 new_pdpt; m4 = zero_table new_pdpt_pa m3 in
              case clone_pds kernel_pdpt_pa new_pdpt_pa [0..<512] m4 of
                None \<Rightarrow> None
              | Some m5 \<Rightarrow>
                  (let m6 = set_entry new_pml4_pa 0 (table_entry_user new_pdpt_pa) m5 in
                   case map_segments new_pml4_pa elf_segments [] m6 of
                     None \<Rightarrow> None
                   | Some (frames, m7) \<Rightarrow>
                       (let stack_vaddr = USER_BASE_VA + 0x100000 in
                        case map_fresh new_pml4_pa stack_vaddr True False m7 of
                          None \<Rightarrow> None
                        | Some (fresh_pa, m8) \<Rightarrow>
                            Some ((new_pml4_pa, frames @ [(stack_vaddr, 4096, fresh_pa)]), m8))))))"

definition is_user_mapped :: "usize \<Rightarrow> usize \<Rightarrow> machine \<Rightarrow> bool" where
  "is_user_mapped pml4_pa virt m =
    (let e1 = tabs m pml4_pa (pml4_index virt) in
     if e1 AND P_PRESENT = 0 then False
     else let e2 = tabs m (e1 AND ADDR_MASK) (pdpt_index virt) in
       if e2 AND P_PRESENT = 0 then False
       else let e3 = tabs m (e2 AND ADDR_MASK) (pd_index virt) in
         if e3 AND P_PRESENT = 0 then False
         else if e3 AND P_SIZE \<noteq> 0 then e3 AND P_USER \<noteq> 0
         else let e4 = tabs m (e3 AND ADDR_MASK) (pt_index virt) in
           if e4 AND P_PRESENT = 0 then False else e4 AND P_USER \<noteq> 0)"

text \<open>
  \<open>free_user_page_tables\<close>: the tables it gives back, in order.  The table contents do not
  change while it runs, only the frame allocator does.
\<close>

definition freed_pts :: "usize \<Rightarrow> machine \<Rightarrow> usize list" where
  "freed_pts pd_pa m = map (\<lambda>i. tabs m pd_pa i AND ADDR_MASK)
    (filter (\<lambda>i. tabs m pd_pa i AND P_PRESENT \<noteq> 0 \<and> tabs m pd_pa i AND P_SIZE = 0) [0..<512])"

definition freed_pds :: "usize \<Rightarrow> machine \<Rightarrow> usize list" where
  "freed_pds pdpt_pa m = concat (map (\<lambda>i. let pd_pa = tabs m pdpt_pa i AND ADDR_MASK in freed_pts pd_pa m @ [pd_pa])
    (filter (\<lambda>i. tabs m pdpt_pa i AND P_PRESENT \<noteq> 0 \<and> tabs m pdpt_pa i AND P_SIZE = 0) [0..<512]))"

definition freed_tables :: "usize \<Rightarrow> machine \<Rightarrow> usize list" where
  "freed_tables pml4_pa m =
    concat (map (\<lambda>i. let pdpt_pa = tabs m pml4_pa i AND ADDR_MASK in freed_pds pdpt_pa m @ [pdpt_pa])
      (filter (\<lambda>i. tabs m pml4_pa i AND P_PRESENT \<noteq> 0 \<and> tabs m pml4_pa i \<noteq> tabs m (KERNEL_PML4_PA m) i) [0..<512]))
    @ [pml4_pa]"

definition free_user_page_tables :: "usize \<Rightarrow> machine \<Rightarrow> machine" where
  "free_user_page_tables pml4_pa m =
    m\<lparr>fr := fold (\<lambda>pa s. deallocate_frame (from_addr X86_64 pa) s) (freed_tables pml4_pa m) (fr m)\<rparr>"

section \<open>Giving frames back\<close>

definition frames_at :: "arch \<Rightarrow> frame_state \<Rightarrow> usize set \<Rightarrow> nat set" where
  "frames_at a s pas = {number (from_addr a pa) | pa. pa \<in> pas} \<inter> {..<ACTUAL_FRAME_COUNT s}"

lemma fold_deallocate:
  assumes "frame_inv s"
  shows "free_frames (fold (\<lambda>pa s. deallocate_frame (from_addr a pa) s) pas s) = free_frames s \<union> frames_at a s (set pas) \<and>
    frame_inv (fold (\<lambda>pa s. deallocate_frame (from_addr a pa) s) pas s) \<and>
    ACTUAL_FRAME_COUNT (fold (\<lambda>pa s. deallocate_frame (from_addr a pa) s) pas s) = ACTUAL_FRAME_COUNT s"
  using assms
proof (induction pas arbitrary: s)
  case (Cons pa pas)
  let ?s = "deallocate_frame (from_addr a pa) s"
  note d = deallocate_frame_frees[OF Cons.prems, of "from_addr a pa"]
  have "free_frames ?s \<union> frames_at a ?s (set pas) = free_frames s \<union> frames_at a s (set (pa # pas))"
    using d(1,3) by (auto simp: frames_at_def)
  then show ?case using Cons.IH[OF d(2)] d(3) by simp
qed (simp add: frames_at_def)

lemma free_user_page_tables_frees:
  assumes "frame_inv (fr m)"
  shows "free_frames (fr (free_user_page_tables pml4_pa m)) =
      free_frames (fr m) \<union> frames_at X86_64 (fr m) (set (freed_tables pml4_pa m))"
    "frame_inv (fr (free_user_page_tables pml4_pa m))"
    "ACTUAL_FRAME_COUNT (fr (free_user_page_tables pml4_pa m)) = ACTUAL_FRAME_COUNT (fr m)"
  using fold_deallocate[OF assms, of X86_64 "freed_tables pml4_pa m"] by (simp_all add: free_user_page_tables_def)

end
