(* ===== verification/Page_Walk.thy ===== *)
theory Page_Walk
  imports Paging
begin

text \<open>
  What the page tables mean: the translation the x86-64 MMU computes from them, the shape
  of a well-formed hierarchy, and that the operations of \<open>src/arch/x86_64/paging.rs\<close> act
  on translations the way their callers rely on.
\<close>

section \<open>The translation of an address\<close>

record mapping_of =
  phys :: u64
  may_write :: bool
  may_user :: bool
  may_exec :: bool
  uncached :: bool

text \<open>
  The hardware walk.  A right holds only when every level grants it; \<open>PAGE SIZE\<close> ends the
  walk at the page directory.  A 1 GiB page is not used by this kernel and is not walked.
\<close>

definition translate :: "usize \<Rightarrow> usize \<Rightarrow> machine \<Rightarrow> mapping_of option" where
  "translate r va m =
    (let e1 = tabs m r (pml4_index va);
         e2 = tabs m (e1 AND ADDR_MASK) (pdpt_index va);
         e3 = tabs m (e2 AND ADDR_MASK) (pd_index va);
         e4 = tabs m (e3 AND ADDR_MASK) (pt_index va);
         granted = (\<lambda>es. \<lparr>phys = 0, may_write = (\<forall>e \<in> set es. e AND P_WRITE \<noteq> 0),
           may_user = (\<forall>e \<in> set es. e AND P_USER \<noteq> 0), may_exec = (\<forall>e \<in> set es. e AND P_NX = 0),
           uncached = (last es AND P_PCD \<noteq> 0)\<rparr>) in
     if e1 AND P_PRESENT = 0 \<or> e1 AND P_SIZE \<noteq> 0 \<or> e2 AND P_PRESENT = 0 \<or> e2 AND P_SIZE \<noteq> 0 \<or> e3 AND P_PRESENT = 0 then None
     else if e3 AND P_SIZE \<noteq> 0
       then Some ((granted [e1, e2, e3])\<lparr>phys := (e3 AND BLOCK_MASK) + of_nat (pt_index va) * 0x1000\<rparr>)
     else if e4 AND P_PRESENT = 0 then None
     else Some ((granted [e1, e2, e3, e4])\<lparr>phys := e4 AND ADDR_MASK\<rparr>))"

text \<open>The table at the end of a path of entry numbers, the last one first.\<close>

fun tab :: "machine \<Rightarrow> usize \<Rightarrow> nat list \<Rightarrow> usize option" where
  "tab m r [] = Some r"
| "tab m r (i # p) = (case tab m r p of
      None \<Rightarrow> None
    | Some t \<Rightarrow> if i < 512 \<and> tabs m t i AND P_PRESENT \<noteq> 0 \<and> tabs m t i AND P_SIZE = 0
        then Some (tabs m t i AND ADDR_MASK) else None)"

definition aligned :: "u64 \<Rightarrow> bool" where "aligned pa \<longleftrightarrow> pa AND ADDR_MASK = pa"

definition owned :: "machine \<Rightarrow> usize \<Rightarrow> bool" where
  "owned m t \<longleftrightarrow> unat t div FRAME_SIZE \<notin> free_frames (fr m)"

text \<open>Entries above the last level: pointers to tables, or 2 MiB supervisor blocks in a directory.\<close>

definition upper_entry :: "nat \<Rightarrow> u64 \<Rightarrow> bool" where
  "upper_entry level e \<longleftrightarrow> (e AND P_PRESENT \<noteq> 0 \<longrightarrow> e AND P_WRITE \<noteq> 0 \<and> e AND P_NX = 0 \<and>
     (e AND P_SIZE \<noteq> 0 \<longrightarrow> level = 2 \<and> e AND P_USER = 0 \<and> e AND P_PCD = 0))"

definition table_tree :: "usize \<Rightarrow> machine \<Rightarrow> bool" where
  "table_tree r m \<longleftrightarrow> frame_inv (fr m) \<and>
     (\<forall>p t. length p \<le> 3 \<longrightarrow> tab m r p = Some t \<longrightarrow> owned m t) \<and>
     (\<forall>p q t. length p \<le> 3 \<longrightarrow> length q \<le> 3 \<longrightarrow> tab m r p = Some t \<longrightarrow> tab m r q = Some t \<longrightarrow> p = q) \<and>
     (\<forall>p t i. length p \<le> 2 \<longrightarrow> tab m r p = Some t \<longrightarrow> i < 512 \<longrightarrow> upper_entry (length p) (tabs m t i))"

lemma tree_frame_inv: "table_tree r m \<Longrightarrow> frame_inv (fr m)"
  by (simp add: table_tree_def)

lemma tree_owned: "\<lbrakk>table_tree r m; tab m r p = Some t; length p \<le> 3\<rbrakk> \<Longrightarrow> owned m t"
  unfolding table_tree_def by blast

lemma tree_inj: "\<lbrakk>table_tree r m; tab m r p = Some t; tab m r q = Some t; length p \<le> 3; length q \<le> 3\<rbrakk> \<Longrightarrow> p = q"
  unfolding table_tree_def by blast

lemma tree_upper: "\<lbrakk>table_tree r m; tab m r p = Some t; length p \<le> 2; i < 512\<rbrakk> \<Longrightarrow> upper_entry (length p) (tabs m t i)"
  unfolding table_tree_def by blast

lemma table_treeI:
  assumes "frame_inv (fr m)"
    "\<And>p t. \<lbrakk>length p \<le> 3; tab m r p = Some t\<rbrakk> \<Longrightarrow> owned m t"
    "\<And>p q t. \<lbrakk>length p \<le> 3; length q \<le> 3; tab m r p = Some t; tab m r q = Some t\<rbrakk> \<Longrightarrow> p = q"
    "\<And>p t i. \<lbrakk>length p \<le> 2; tab m r p = Some t; i < 512\<rbrakk> \<Longrightarrow> upper_entry (length p) (tabs m t i)"
  shows "table_tree r m"
  unfolding table_tree_def using assms by blast

section \<open>Bits of table entries\<close>

lemma index_less: "pml4_index va < 512" "pdpt_index va < 512" "pd_index va < 512" "pt_index va < 512"
proof -
  have "unat (w AND 0x1FF) < 512" for w :: u64
  proof -
    have "w AND 0x1FF = take_bit 9 w" using take_bit_eq_mask[of 9 w] by (simp add: mask_eq_exp_minus_1)
    then have "unat (w AND 0x1FF) = take_bit 9 (unat w)" by (simp add: unsigned_take_bit_eq)
    then show ?thesis using take_bit_nat_less_exp[of 9 "unat w"] by simp
  qed
  then show "pml4_index va < 512" "pdpt_index va < 512" "pd_index va < 512" "pt_index va < 512"
    by (simp_all add: pml4_index_def pdpt_index_def pd_index_def pt_index_def)
qed

lemma aligned_or_addr: "\<lbrakk>aligned pa; x AND ADDR_MASK = 0\<rbrakk> \<Longrightarrow> (pa OR x) AND ADDR_MASK = pa"
  by (simp add: aligned_def bit.conj_disj_distrib2)

lemma and_within:
  fixes pa :: "'a::len word"
  assumes "pa AND M = pa" "y AND M = 0"
  shows "(pa OR x) AND y = x AND y"
proof -
  have "pa AND y = (pa AND M) AND y" using assms(1) by (rule arg_cong[where f = "\<lambda>w. w AND y", symmetric])
  also have "\<dots> = pa AND (y AND M)" by (simp only: ac_simps)
  also have "\<dots> = 0" by (simp only: assms(2) bit.conj_zero_right)
  finally have "pa AND y = 0" .
  then show ?thesis by (simp only: bit.conj_disj_distrib2 or.left_neutral)
qed

lemma aligned_or_bits: "\<lbrakk>aligned pa; y AND ADDR_MASK = 0\<rbrakk> \<Longrightarrow> (pa OR x) AND y = x AND y"
  unfolding aligned_def by (rule and_within)

lemma entry_simps:
  assumes "aligned pa"
  shows "table_entry pa AND ADDR_MASK = pa" "table_entry_user pa AND ADDR_MASK = pa"
    "page_4k pa w u x AND ADDR_MASK = pa" "page_4k_uc pa AND ADDR_MASK = pa"
    "upper_entry n (table_entry pa)" "upper_entry n (table_entry_user pa)"
    "table_entry pa AND P_PRESENT \<noteq> 0" "table_entry_user pa AND P_PRESENT \<noteq> 0" "page_4k pa w u x AND P_PRESENT \<noteq> 0"
    "page_4k_uc pa AND P_PRESENT \<noteq> 0"
    "table_entry pa AND P_SIZE = 0" "table_entry_user pa AND P_SIZE = 0"
    "table_entry_user pa AND P_USER \<noteq> 0" "table_entry pa AND P_USER = 0"
    "(page_4k pa w u x AND P_WRITE \<noteq> 0) = w" "(page_4k pa w u x AND P_USER \<noteq> 0) = u"
    "(page_4k pa w u x AND P_NX = 0) = x" "page_4k pa w u x AND P_PCD = 0"
    "page_4k_uc pa AND P_WRITE \<noteq> 0" "page_4k_uc pa AND P_USER = 0" "page_4k_uc pa AND P_NX = 0"
    "page_4k_uc pa AND P_PCD \<noteq> 0"
  using assms
  by (simp_all add: table_entry_def table_entry_user_def page_4k_def page_4k_uc_def Let_def or.assoc
      aligned_or_addr aligned_or_bits upper_entry_def)

lemma addr_mask_bits: "bit ADDR_MASK k \<longleftrightarrow> 12 \<le> k \<and> k < 52"
proof -
  have "ADDR_MASK = push_bit 12 (mask 40)" by (simp add: push_bit_eq_mult mask_eq_exp_minus_1)
  then have "bit ADDR_MASK k \<longleftrightarrow> bit (push_bit 12 (mask 40) :: u64) k" by (rule arg_cong)
  also have "\<dots> \<longleftrightarrow> 12 \<le> k \<and> k < 52" by (auto simp: bit_push_bit_iff bit_mask_iff)
  finally show ?thesis .
qed

lemma bit_page_addr:
  assumes "q < 2 ^ 40"
  shows "bit (of_nat (4096 * q) :: u64) k \<longleftrightarrow> 12 \<le> k \<and> k < 52 \<and> bit q (k - 12)"
proof -
  have q: "bit q j \<Longrightarrow> j < 40" for j
    using assms bit_take_bit_iff[of 40 q j] by (simp add: take_bit_nat_eq_self)
  have "(of_nat (4096 * q) :: u64) = push_bit 12 (of_nat q)" by (simp add: push_bit_eq_mult)
  then have "bit (of_nat (4096 * q) :: u64) k \<longleftrightarrow> bit (push_bit 12 (of_nat q) :: u64) k" by (rule arg_cong)
  also have "\<dots> \<longleftrightarrow> 12 \<le> k \<and> k < 52 \<and> bit q (k - 12)"
    using q[of "k - 12"] by (auto simp: bit_push_bit_iff bit_of_nat_iff)
  finally show ?thesis .
qed

lemma alignedI:
  assumes "unat pa < 2 ^ 52" "unat pa mod 4096 = 0"
  shows "aligned pa"
proof -
  obtain q where q: "unat pa = 4096 * q" using assms(2) by (metis mod_eq_0_iff_dvd dvdE)
  have "q < 2 ^ 40" using assms(1) q by simp
  moreover have "pa = of_nat (4096 * q)" unfolding q[symmetric] by simp
  ultimately show ?thesis unfolding aligned_def
    by (intro bit_word_eqI) (simp only: bit_and_iff bit_page_addr addr_mask_bits, blast)
qed

lemma fresh_addr:
  assumes "frame_inv s" "number f < ACTUAL_FRAME_COUNT s"
  shows "unat (start_address X86_64 f) = 4096 * number f" "aligned (start_address X86_64 f)"
    "unat (start_address X86_64 f) div FRAME_SIZE = number f"
proof -
  have n: "number f < 2097152" using frame_inv_count[OF assms(1)] assms(2) by (simp add: MAX_WORDS_def)
  have "start_address X86_64 f = of_nat (4096 * number f)" by (simp add: start_address_def FRAME_SIZE_def)
  then show u: "unat (start_address X86_64 f) = 4096 * number f" using n by (simp only: unat_of_nat) simp
  show "aligned (start_address X86_64 f)" using n u by (intro alignedI) simp_all
  show "unat (start_address X86_64 f) div FRAME_SIZE = number f" using u by (simp add: FRAME_SIZE_def)
qed

section \<open>Entering a new table\<close>

definition enter_table :: "usize \<Rightarrow> nat \<Rightarrow> usize \<Rightarrow> u64 \<Rightarrow> table \<Rightarrow> frame_state \<Rightarrow> machine \<Rightarrow> machine" where
  "enter_table t i pa e c s m = set_entry t i e (m\<lparr>fr := s, tabs := (tabs m)(pa := c)\<rparr>)"

text \<open>A table at the given level without pointers to further tables.\<close>

definition no_tables :: "nat \<Rightarrow> table \<Rightarrow> bool" where
  "no_tables level c \<longleftrightarrow> (\<forall>j < 512. upper_entry level (c j) \<and> (c j AND P_PRESENT \<noteq> 0 \<longrightarrow> c j AND P_SIZE \<noteq> 0))"

lemma no_tables_zero [simp]: "no_tables level (\<lambda>_. 0)"
  by (simp add: no_tables_def upper_entry_def)

text \<open>The conditions under which the operations enter the new table \<open>pa\<close> at entry \<open>i\<close> of \<open>t\<close>.\<close>

definition can_enter :: "usize \<Rightarrow> machine \<Rightarrow> nat list \<Rightarrow> usize \<Rightarrow> nat \<Rightarrow> usize \<Rightarrow> u64 \<Rightarrow> table \<Rightarrow> frame_state \<Rightarrow> bool" where
  "can_enter r m p t i pa e c s \<longleftrightarrow> table_tree r m \<and> tab m r p = Some t \<and> length p \<le> 2 \<and> i < 512 \<and>
     tab m r (i # p) = None \<and> \<not> owned m pa \<and> e AND P_PRESENT \<noteq> 0 \<and> e AND P_SIZE = 0 \<and> e AND ADDR_MASK = pa \<and>
     upper_entry (length p) e \<and> (length p < 2 \<longrightarrow> no_tables (Suc (length p)) c) \<and>
     frame_inv s \<and> free_frames s = free_frames (fr m) - {unat pa div FRAME_SIZE}"

lemma can_enterD:
  assumes "can_enter r m p t i pa e c s"
  shows "table_tree r m" "tab m r p = Some t" "length p \<le> 2" "i < 512" "tab m r (i # p) = None" "\<not> owned m pa"
    "e AND P_PRESENT \<noteq> 0" "e AND P_SIZE = 0" "e AND ADDR_MASK = pa" "upper_entry (length p) e"
    "length p < 2 \<Longrightarrow> no_tables (Suc (length p)) c" "frame_inv s" "free_frames s = free_frames (fr m) - {unat pa div FRAME_SIZE}"
  using assms unfolding can_enter_def by blast+

lemma enter_entries:
  assumes "can_enter r m p t i pa e c s"
  shows "tabs (enter_table t i pa e c s m) pa = c"
    "t' \<noteq> pa \<Longrightarrow> tabs (enter_table t i pa e c s m) t' j = (if t' = t \<and> j = i then e else tabs m t' j)"
proof -
  have "t \<noteq> pa" using can_enterD[OF assms] tree_owned[of r m p t] by auto
  then show "tabs (enter_table t i pa e c s m) pa = c"
    "t' \<noteq> pa \<Longrightarrow> tabs (enter_table t i pa e c s m) t' j = (if t' = t \<and> j = i then e else tabs m t' j)"
    by (auto simp: enter_table_def)
qed

lemma enter_tab:
  assumes c: "can_enter r m p t i pa e c s"
  shows "length q \<le> 3 \<Longrightarrow> tab (enter_table t i pa e c s m) r q = (if q = i # p then Some pa else tab m r q)"
proof (induction q)
  case Nil
  show ?case by simp
next
  case (Cons j q)
  note d = can_enterD[OF c] and en = enter_entries[OF c]
  have IH: "tab (enter_table t i pa e c s m) r q = (if q = i # p then Some pa else tab m r q)"
    using Cons by simp
  show ?case
  proof (cases "q = i # p")
    case True
    then have "length p < 2" using Cons.prems by simp
    then have "no_tables (Suc (length p)) c" by (rule d(11))
    then have "\<not> (j < 512 \<and> c j AND P_PRESENT \<noteq> 0 \<and> c j AND P_SIZE = 0)" by (auto simp: no_tables_def)
    then show ?thesis using IH True d(5) en(1) by simp
  next
    case False
    show ?thesis
    proof (cases "tab m r q")
      case None
      moreover have "q \<noteq> p" using None d(2) by auto
      ultimately show ?thesis using IH False by auto
    next
      case (Some t')
      have ne: "t' \<noteq> pa" using tree_owned[OF d(1) Some] d(6) Cons.prems by auto
      have tq: "t' = t \<longleftrightarrow> q = p" using tree_inj[OF d(1) Some, of p] d(2,3) Some Cons.prems by auto
      have IH': "tab (enter_table t i pa e c s m) r q = Some t'" using IH False Some by simp
      show ?thesis
      proof (cases "j = i \<and> q = p")
        case True
        then have "tabs (enter_table t i pa e c s m) t' j = e" using en(2)[OF ne, of j] tq by simp
        then show ?thesis using True IH' d(4,7,8,9) by simp
      next
        case False
        then have "tabs (enter_table t i pa e c s m) t' j = tabs m t' j" using en(2)[OF ne, of j] tq by auto
        moreover have "j # q \<noteq> i # p" using False by simp
        ultimately show ?thesis unfolding if_not_P[OF \<open>j # q \<noteq> i # p\<close>] using IH' Some by simp
      qed
    qed
  qed
qed

lemma enter_tree:
  assumes c: "can_enter r m p t i pa e c s"
  shows "table_tree r (enter_table t i pa e c s m)"
proof (rule table_treeI)
  note d = can_enterD[OF c] and en = enter_entries[OF c] and tb = enter_tab[OF c]
  let ?m = "enter_table t i pa e c s m"
  have fr: "fr ?m = s" by (simp add: enter_table_def)
  show "frame_inv (fr ?m)" using d(12) fr by simp
  have ow: "owned ?m t'" if "t' = pa \<or> owned m t'" for t' using that d(13) fr by (auto simp: owned_def)
  show "owned ?m t'" if "length q \<le> 3" "tab ?m r q = Some t'" for q t'
    using that tb[of q] tree_owned[OF d(1), of q t'] ow by (auto split: if_splits)
  have pa: "tab m r q \<noteq> Some pa" if "length q \<le> 3" for q
    using tree_owned[OF d(1), of q pa] d(6) that by auto
  show "q = q'" if "length q \<le> 3" "length q' \<le> 3" "tab ?m r q = Some t'" "tab ?m r q' = Some t'" for q q' t'
    using that tb[of q] tb[of q'] pa tree_inj[OF d(1), of q t' q'] by (auto split: if_splits)
  show "upper_entry (length q) (tabs ?m t' j)" if q: "length q \<le> 2" "tab ?m r q = Some t'" "j < 512" for q t' j
  proof (cases "q = i # p")
    case True
    then have "t' = pa" "length p < 2" using q tb[of q] by auto
    then show ?thesis using en(1) d(11) q(3) True by (simp add: no_tables_def)
  next
    case False
    then have t': "tab m r q = Some t'" using q tb[of q] by simp
    then have "t' \<noteq> pa" using pa[of q] q(1) by auto
    moreover have "t' = t \<Longrightarrow> q = p" using tree_inj[OF d(1) t', of p] d(2,3) q(1) by simp
    ultimately show ?thesis using en(2)[of t' j] tree_upper[OF d(1) t' q(1,3)] d(10) by auto
  qed
qed

section \<open>The translation over paths\<close>

abbreviation pd_path :: "usize \<Rightarrow> nat list" where "pd_path va \<equiv> [pdpt_index va, pml4_index va]"
abbreviation pt_path :: "usize \<Rightarrow> nat list" where "pt_path va \<equiv> [pd_index va, pdpt_index va, pml4_index va]"

definition same_page :: "usize \<Rightarrow> usize \<Rightarrow> bool" where
  "same_page va vb \<longleftrightarrow> pt_index va = pt_index vb \<and> pt_path va = pt_path vb"

fun user_path :: "machine \<Rightarrow> usize \<Rightarrow> nat list \<Rightarrow> bool" where
  "user_path m r [] = True"
| "user_path m r (i # p) = (user_path m r p \<and> tabs m (the (tab m r p)) i AND P_USER \<noteq> 0)"

definition block_mapping :: "u64 \<Rightarrow> nat \<Rightarrow> mapping_of" where
  "block_mapping e i = \<lparr>phys = (e AND BLOCK_MASK) + of_nat i * 0x1000, may_write = True, may_user = False,
     may_exec = True, uncached = False\<rparr>"

definition leaf_mapping :: "bool \<Rightarrow> u64 \<Rightarrow> mapping_of option" where
  "leaf_mapping usr e = (if e AND P_PRESENT = 0 then None else
     Some \<lparr>phys = e AND ADDR_MASK, may_write = (e AND P_WRITE \<noteq> 0), may_user = (usr \<and> e AND P_USER \<noteq> 0),
       may_exec = (e AND P_NX = 0), uncached = (e AND P_PCD \<noteq> 0)\<rparr>)"

lemma translate_path:
  assumes "table_tree r m"
  shows "translate r va m = (case tab m r (pd_path va) of
      None \<Rightarrow> None
    | Some pd \<Rightarrow> (let e3 = tabs m pd (pd_index va) in
        if e3 AND P_PRESENT = 0 then None
        else if e3 AND P_SIZE \<noteq> 0 then Some (block_mapping e3 (pt_index va))
        else leaf_mapping (user_path m r (pt_path va)) (tabs m (e3 AND ADDR_MASK) (pt_index va))))"
proof -
  let ?e1 = "tabs m r (pml4_index va)" let ?t2 = "?e1 AND ADDR_MASK"
  let ?e2 = "tabs m ?t2 (pdpt_index va)" let ?t3 = "?e2 AND ADDR_MASK"
  let ?e3 = "tabs m ?t3 (pd_index va)"
  have u1: "upper_entry 0 ?e1" using tree_upper[OF assms, of "[]"] index_less by simp
  show ?thesis
  proof (cases "tab m r (pd_path va)")
    case None
    then have "?e1 AND P_PRESENT = 0 \<or> ?e1 AND P_SIZE \<noteq> 0 \<or> ?e2 AND P_PRESENT = 0 \<or> ?e2 AND P_SIZE \<noteq> 0"
      using index_less by (auto split: if_splits)
    then show ?thesis using None by (auto simp: translate_def Let_def)
  next
    case (Some pd)
    then have e: "?e1 AND P_PRESENT \<noteq> 0" "?e1 AND P_SIZE = 0" "?e2 AND P_PRESENT \<noteq> 0" "?e2 AND P_SIZE = 0" "pd = ?t3"
      by (auto split: if_splits)
    have t2: "tab m r [pml4_index va] = Some ?t2" using e index_less by simp
    have u2: "upper_entry 1 ?e2" using tree_upper[OF assms t2] index_less by simp
    have u3: "upper_entry 2 ?e3" using tree_upper[OF assms Some] index_less e(5) by (simp add: numeral_2_eq_2)
    have "user_path m r (pt_path va) \<longleftrightarrow> ?e1 AND P_USER \<noteq> 0 \<and> ?e2 AND P_USER \<noteq> 0 \<and> ?e3 AND P_USER \<noteq> 0"
      using e index_less by auto
    then show ?thesis using Some u1 u2 u3 e
      by (simp add: translate_def Let_def upper_entry_def block_mapping_def leaf_mapping_def)
  qed
qed

lemma leaf_mapping_simps:
  "leaf_mapping usr 0 = None"
  "aligned pa \<Longrightarrow> leaf_mapping usr (page_4k pa w u x) =
     Some \<lparr>phys = pa, may_write = w, may_user = (usr \<and> u), may_exec = x, uncached = False\<rparr>"
  "aligned pa \<Longrightarrow> leaf_mapping usr (page_4k_uc pa) =
     Some \<lparr>phys = pa, may_write = True, may_user = False, may_exec = True, uncached = True\<rparr>"
  by (simp_all add: leaf_mapping_def entry_simps)

lemma enter_user_path:
  assumes c: "can_enter r m p t i pa e c s"
  shows "\<lbrakk>length q \<le> 3; tab m r q \<noteq> None\<rbrakk> \<Longrightarrow> user_path (enter_table t i pa e c s m) r q = user_path m r q"
proof (induction q)
  case (Cons j q)
  note d = can_enterD[OF c]
  obtain t' where t': "tab m r q = Some t'" using Cons.prems(2) by (auto split: option.splits)
  have "q \<noteq> i # p" using t' d(5) by auto
  then have t'': "tab (enter_table t i pa e c s m) r q = Some t'" using enter_tab[OF c, of q] t' Cons.prems by simp
  have "t' \<noteq> pa" using tree_owned[OF d(1) t'] d(6) Cons.prems by auto
  moreover have "\<not> (t' = t \<and> j = i)"
    using tree_inj[OF d(1) t', of p] d(2,3,5) Cons.prems by auto
  ultimately have "tabs (enter_table t i pa e c s m) t' j = tabs m t' j" using enter_entries(2)[OF c, of t' j] by auto
  then show ?case using Cons t' t'' by simp
qed simp

declare tab.simps(2) [simp del]

lemma tab_next:
  assumes "tab m r p = Some t" "i < 512"
  shows "tab m r (i # p) = (if tabs m t i AND P_PRESENT \<noteq> 0 \<and> tabs m t i AND P_SIZE = 0
    then Some (tabs m t i AND ADDR_MASK) else None)"
  using assms by (simp add: tab.simps(2))

lemma tab_prev: "tab m r (i # p) = Some t \<Longrightarrow> \<exists>t'. tab m r p = Some t'"
  by (auto simp: tab.simps(2) split: option.splits)

text \<open>Addresses whose directory entry is not the one that changes keep their translation.\<close>

lemma enter_elsewhere:
  assumes c: "can_enter r m p t i pa e c s" and pd: "tab m r (pd_path va) = Some pd" "\<not> (pd = t \<and> pd_index va = i)"
  shows "translate r va (enter_table t i pa e c s m) = translate r va m"
proof -
  note d = can_enterD[OF c] and en = enter_entries[OF c] and tb = enter_tab[OF c]
  let ?m = "enter_table t i pa e c s m"
  note tr = translate_path[OF enter_tree[OF c], of va] translate_path[OF d(1), of va]
  have "pd_path va \<noteq> i # p" using pd(1) d(5) by auto
  then have pd': "tab ?m r (pd_path va) = Some pd" using tb[of "pd_path va"] pd(1) by auto
  have "pd \<noteq> pa" using tree_owned[OF d(1) pd(1)] d(6) by auto
  then have e3: "tabs ?m pd (pd_index va) = tabs m pd (pd_index va)" using en(2)[of pd] pd(2) by auto
  show ?thesis
  proof (cases "tab m r (pt_path va)")
    case None
    then show ?thesis using tr pd(1) pd' e3 tab_next[OF pd(1) index_less(3), of va]
      by (auto simp: Let_def split: if_splits)
  next
    case (Some pt)
    have "pt \<noteq> pa" using tree_owned[OF d(1) Some] d(6) by auto
    moreover have "pt \<noteq> t" using tree_inj[OF d(1) Some, of p] d(2,3) by auto
    ultimately have "tabs ?m pt = tabs m pt" using en(2)[of pt] by auto
    moreover have "pt = tabs m pd (pd_index va) AND ADDR_MASK"
      using Some tab_next[OF pd(1) index_less(3), of va] by (auto split: if_splits)
    ultimately show ?thesis using tr pd(1) pd' e3 enter_user_path[OF c, of "pt_path va"] Some by (simp add: Let_def)
  qed
qed

text \<open>Entering an empty table changes no translation.\<close>

lemma enter_empty_translate:
  assumes c: "can_enter r m p t i pa e (\<lambda>_. 0) s" and absent: "tabs m t i AND P_PRESENT = 0"
  shows "translate r va (enter_table t i pa e (\<lambda>_. 0) s m) = translate r va m"
proof -
  note d = can_enterD[OF c] and en = enter_entries[OF c] and tb = enter_tab[OF c, of "pd_path va"]
  note tr = translate_path[OF enter_tree[OF c], of va] translate_path[OF d(1), of va]
  show ?thesis
  proof (cases "tab m r (pd_path va)")
    case None
    then show ?thesis using tr tb en(1) by (auto simp: Let_def)
  next
    case (Some pd)
    show ?thesis
    proof (cases "pd = t \<and> pd_index va = i")
      case True
      have "pd_path va \<noteq> i # p" using Some d(5) by auto
      then have "tab (enter_table t i pa e (\<lambda>_. 0) s m) r (pd_path va) = Some pd" using tb Some by auto
      moreover have "pd \<noteq> pa" using tree_owned[OF d(1) Some] d(6) by auto
      ultimately show ?thesis using tr Some True absent d(7,8,9) en by (simp add: Let_def leaf_mapping_simps)
    qed (use enter_elsewhere[OF c Some] in blast)
  qed
qed

text \<open>Splitting a 2 MiB block into small pages changes no translation either.\<close>

definition small_pages :: "u64 \<Rightarrow> table" where
  "small_pages base = (\<lambda>i. if i < 512 then page_4k (base + of_nat i * 0x1000) True False True else 0)"

lemma block_mask_bits: "bit BLOCK_MASK k \<longleftrightarrow> 21 \<le> k \<and> k < 52"
proof -
  have "BLOCK_MASK = push_bit 21 (mask 31)" by (simp add: push_bit_eq_mult mask_eq_exp_minus_1)
  then have "bit BLOCK_MASK k \<longleftrightarrow> bit (push_bit 21 (mask 31) :: u64) k" by (rule arg_cong)
  also have "\<dots> \<longleftrightarrow> 21 \<le> k \<and> k < 52" by (auto simp: bit_push_bit_iff bit_mask_iff)
  finally show ?thesis .
qed

lemma block_page_aligned:
  assumes "i < 512"
  shows "aligned ((e AND BLOCK_MASK) + of_nat i * 0x1000)"
proof -
  have i: "i < 2 ^ 40" "\<And>j. bit i j \<Longrightarrow> j < 9"
    using assms bit_take_bit_iff[of 9 i] by (auto simp: take_bit_nat_eq_self)
  have off: "of_nat i * 0x1000 = (of_nat (4096 * i) :: u64)" by simp
  have disj: "\<not> bit (e AND BLOCK_MASK) k \<or> \<not> bit (of_nat (4096 * i) :: u64) k" for k
    using i(2)[of "k - 12"] by (auto simp only: bit_and_iff block_mask_bits bit_page_addr[OF i(1)]) arith
  have "(e AND BLOCK_MASK) + of_nat (4096 * i) = (e AND BLOCK_MASK) OR of_nat (4096 * i)"
    by (rule disjunctive_add) (use disj in blast)
  then show ?thesis unfolding aligned_def off
    by (intro bit_word_eqI)
      (auto simp only: bit_and_iff bit_or_iff block_mask_bits bit_page_addr[OF i(1)] addr_mask_bits)
qed

lemma split_translate:
  assumes c: "can_enter r m p t i pa e (small_pages (tabs m t i AND BLOCK_MASK)) s"
    and p: "length p = 2" and block: "tabs m t i AND P_PRESENT \<noteq> 0" "tabs m t i AND P_SIZE \<noteq> 0"
  shows "translate r va (enter_table t i pa e (small_pages (tabs m t i AND BLOCK_MASK)) s m) = translate r va m"
proof -
  note d = can_enterD[OF c] and en = enter_entries[OF c] and tb = enter_tab[OF c]
  let ?m = "enter_table t i pa e (small_pages (tabs m t i AND BLOCK_MASK)) s m"
  note tr = translate_path[OF enter_tree[OF c], of va] translate_path[OF d(1), of va]
  have same: "tab ?m r (pd_path va) = tab m r (pd_path va)" using tb[of "pd_path va"] p by auto
  show ?thesis
  proof (cases "tab m r (pd_path va)")
    case None
    then show ?thesis using tr same by simp
  next
    case (Some pd)
    show ?thesis
    proof (cases "pd = t \<and> pd_index va = i")
      case True
      moreover have "pd \<noteq> pa" using tree_owned[OF d(1) Some] d(6) by auto
      ultimately have "tabs ?m pd (pd_index va) = e" using en(2)[of pd] by simp
      then show ?thesis
        using tr same Some True block d(7,8,9) en(1) index_less(4)[of va] block_page_aligned[OF index_less(4)[of va]]
        by (simp add: Let_def block_mapping_def small_pages_def leaf_mapping_simps)
    qed (use enter_elsewhere[OF c Some] in blast)
  qed
qed

text \<open>Writing an entry of a last-level table.\<close>

definition set_leaf :: "usize \<Rightarrow> nat \<Rightarrow> u64 \<Rightarrow> machine \<Rightarrow> machine" where
  "set_leaf t i e m = set_entry t i e m"

lemma set_leaf_simps [simp]:
  "tabs (set_leaf t i e m) t' j = (if t' = t \<and> j = i then e else tabs m t' j)"
  "t' \<noteq> t \<Longrightarrow> tabs (set_leaf t i e m) t' = tabs m t'"
  "fr (set_leaf t i e m) = fr m" "KERNEL_PML4_PA (set_leaf t i e m) = KERNEL_PML4_PA m"
  "bytes (set_leaf t i e m) = bytes m"
  by (auto simp: set_leaf_def)

lemma leaf_tab:
  assumes "table_tree r m" "tab m r p = Some pt" "length p = 3"
  shows "length q \<le> 3 \<Longrightarrow> tab (set_leaf pt i e m) r q = tab m r q"
proof (induction q)
  case (Cons j q)
  then have IH: "tab (set_leaf pt i e m) r q = tab m r q" by simp
  have "tab m r q = Some t \<Longrightarrow> t \<noteq> pt" for t using tree_inj[OF assms(1), of q t p] assms(2,3) Cons.prems by auto
  then show ?case using IH by (auto simp: tab.simps(2) split: option.splits)
qed simp

lemma leaf_tree:
  assumes "table_tree r m" "tab m r p = Some pt" "length p = 3"
  shows "table_tree r (set_leaf pt i e m)"
proof (rule table_treeI)
  note same = leaf_tab[OF assms, of _ i e]
  show "frame_inv (fr (set_leaf pt i e m))" using assms(1) by (simp add: table_tree_def)
  show "owned (set_leaf pt i e m) t" if "length q \<le> 3" "tab (set_leaf pt i e m) r q = Some t" for q t
    using that same[of q] tree_owned[OF assms(1), of q t] by (auto simp: owned_def)
  show "q = q'" if "length q \<le> 3" "length q' \<le> 3" "tab (set_leaf pt i e m) r q = Some t"
    "tab (set_leaf pt i e m) r q' = Some t" for q q' t
    using that same[of q] same[of q'] tree_inj[OF assms(1), of q t q'] by auto
  show "upper_entry (length q) (tabs (set_leaf pt i e m) t j)"
    if q: "length q \<le> 2" "tab (set_leaf pt i e m) r q = Some t" "j < 512" for q t j
  proof -
    have t: "tab m r q = Some t" using q same[of q] by simp
    then have "t \<noteq> pt" using tree_inj[OF assms(1) t, of p] assms(2,3) q(1) by auto
    then show ?thesis using tree_upper[OF assms(1) t q(1,3)] by simp
  qed
qed

lemma leaf_user_path:
  assumes "table_tree r m" "tab m r p = Some pt" "length p = 3"
  shows "\<lbrakk>length q \<le> 3; tab m r q \<noteq> None\<rbrakk> \<Longrightarrow> user_path (set_leaf pt i e m) r q = user_path m r q"
proof (induction q)
  case (Cons j q)
  obtain t where t: "tab m r q = Some t" using Cons.prems(2) by (auto simp: tab.simps(2) split: option.splits)
  have "t \<noteq> pt" using tree_inj[OF assms(1) t, of p] assms(2,3) Cons.prems by auto
  then show ?case using Cons t leaf_tab[OF assms, of q i e] by simp
qed simp

lemma leaf_translate:
  assumes tree: "table_tree r m" and pt: "tab m r (pt_path va) = Some pt"
  shows "translate r vb (set_leaf pt (pt_index va) e m) =
    (if same_page vb va then leaf_mapping (user_path m r (pt_path va)) e else translate r vb m)"
proof -
  let ?m = "set_leaf pt (pt_index va) e m"
  have l3: "length (pt_path va) = 3" by simp
  note tr = translate_path[OF leaf_tree[OF tree pt l3, of "pt_index va" e], of vb] translate_path[OF tree, of vb]
  have same: "tab ?m r (pd_path vb) = tab m r (pd_path vb)" using leaf_tab[OF tree pt l3, of "pd_path vb"] by simp
  show ?thesis
  proof (cases "tab m r (pd_path vb)")
    case None
    moreover have "pd_path vb \<noteq> pd_path va" using None tab_prev[OF pt] by auto
    ultimately show ?thesis using tr same by (auto simp: same_page_def)
  next
    case (Some pd)
    have "pd \<noteq> pt" using tree_inj[OF tree Some, of "pt_path va"] pt by auto
    then have e3: "tabs ?m pd = tabs m pd" by simp
    note nx = tab_next[OF Some index_less(3), of vb]
    show ?thesis
    proof (cases "tab m r (pt_path vb)")
      case None
      then have "\<not> same_page vb va" using pt by (auto simp: same_page_def)
      then show ?thesis using tr same Some e3 None nx by (auto simp: Let_def split: if_splits)
    next
      case pt': (Some pt')
      have eq: "pt' = pt \<longleftrightarrow> pt_path vb = pt_path va" using tree_inj[OF tree pt', of "pt_path va"] pt pt' by auto
      have pe: "pt' = tabs m pd (pd_index vb) AND ADDR_MASK" "tabs m pd (pd_index vb) AND P_PRESENT \<noteq> 0"
          "tabs m pd (pd_index vb) AND P_SIZE = 0"
        using pt' nx by (auto split: if_splits)
      have up: "user_path ?m r (pt_path vb) = user_path m r (pt_path vb)"
        using leaf_user_path[OF tree pt l3, of "pt_path vb"] pt' by simp
      show ?thesis
      proof (cases "same_page vb va")
        case True
        then show ?thesis using tr(1) same Some e3 pe eq up by (simp add: Let_def same_page_def)
      next
        case False
        then have "tabs ?m pt' (pt_index vb) = tabs m pt' (pt_index vb)" using eq by (auto simp: same_page_def)
        then show ?thesis using tr same Some e3 pe up False by (simp add: Let_def)
      qed
    qed
  qed
qed

section \<open>Mapping a kernel page\<close>

definition extends_tree :: "usize \<Rightarrow> machine \<Rightarrow> machine \<Rightarrow> bool" where
  "extends_tree r m m' \<longleftrightarrow> table_tree r m' \<and> KERNEL_PML4_PA m' = KERNEL_PML4_PA m \<and>
     (\<forall>va. translate r va m' = translate r va m) \<and>
     (\<forall>q t. length q \<le> 3 \<longrightarrow> tab m r q = Some t \<longrightarrow> tab m' r q = Some t) \<and>
     card (free_frames (fr m)) \<le> Suc (card (free_frames (fr m')))"

lemma extends_treeD:
  assumes "extends_tree r m m'"
  shows "table_tree r m'" "KERNEL_PML4_PA m' = KERNEL_PML4_PA m" "translate r va m' = translate r va m"
    "\<lbrakk>length q \<le> 3; tab m r q = Some t\<rbrakk> \<Longrightarrow> tab m' r q = Some t"
    "card (free_frames (fr m)) \<le> Suc (card (free_frames (fr m')))"
  using assms unfolding extends_tree_def by blast+

lemma extends_tree_refl: "table_tree r m \<Longrightarrow> extends_tree r m m"
  by (simp add: extends_tree_def)

lemma alloc_table:
  assumes "frame_inv (fr m)" "free_frames (fr m) \<noteq> {}"
  obtains f s where "alloc_table_or_halt m = Some (f, m\<lparr>fr := s\<rparr>)" "number f \<in> free_frames (fr m)"
    "free_frames s = free_frames (fr m) - {number f}" "frame_inv s"
    "aligned (start_address X86_64 f)" "unat (start_address X86_64 f) div FRAME_SIZE = number f"
proof -
  obtain f s where a: "allocate_frame (fr m) = (Some f, s)"
    using fra.alloc_None[OF assms(1)] assms(2) by (metis old.prod.exhaust option.exhaust)
  note law = fra.alloc_Some[OF assms(1) a]
  have "number f < ACTUAL_FRAME_COUNT (fr m)" using law by (auto simp: free_frames_def)
  then show ?thesis using that[of f s] a law fresh_addr[OF assms(1)] by (simp add: alloc_table_or_halt_def)
qed

lemma card_free_remove:
  "\<lbrakk>free_frames s' = free_frames s - {n}\<rbrakk> \<Longrightarrow> card (free_frames s) \<le> Suc (card (free_frames s'))"
  by (simp add: card_Diff_singleton_if) linarith

lemma enter_extends:
  assumes c: "can_enter r m p t i pa e c s"
    and tr: "\<And>va. translate r va (enter_table t i pa e c s m) = translate r va m"
  shows "extends_tree r m (enter_table t i pa e c s m)" "tab (enter_table t i pa e c s m) r (i # p) = Some pa"
proof -
  note d = can_enterD[OF c]
  have "fr (enter_table t i pa e c s m) = s" "KERNEL_PML4_PA (enter_table t i pa e c s m) = KERNEL_PML4_PA m"
    by (simp_all add: enter_table_def)
  moreover have "tab (enter_table t i pa e c s m) r q = Some t'" if "length q \<le> 3" "tab m r q = Some t'" for q t'
    using that enter_tab[OF c that(1)] d(5) by auto
  ultimately show "extends_tree r m (enter_table t i pa e c s m)"
    unfolding extends_tree_def using enter_tree[OF c] tr card_free_remove[OF d(13)] by simp
  show "tab (enter_table t i pa e c s m) r (i # p) = Some pa" using enter_tab[OF c, of "i # p"] d(3) by simp
qed

lemma next_table_ret:
  assumes tree: "table_tree r m" and t: "tab m r p = Some t" and p: "length p \<le> 2" and i: "i < 512"
    and nb: "tabs m t i AND P_PRESENT \<noteq> 0 \<Longrightarrow> tabs m t i AND P_SIZE = 0" and free: "free_frames (fr m) \<noteq> {}"
  shows "\<exists>t' m'. next_table t i m = Some (t', m') \<and> tab m' r (i # p) = Some t' \<and> extends_tree r m m'"
proof (cases "tabs m t i AND P_PRESENT \<noteq> 0")
  case True
  then show ?thesis using nb tab_next[OF t i] extends_tree_refl[OF tree] by (simp add: next_table_def)
next
  case False
  obtain f s where f: "alloc_table_or_halt m = Some (f, m\<lparr>fr := s\<rparr>)" "number f \<in> free_frames (fr m)"
      "free_frames s = free_frames (fr m) - {number f}" "frame_inv s"
      "aligned (start_address X86_64 f)" "unat (start_address X86_64 f) div FRAME_SIZE = number f"
    by (rule alloc_table[OF tree_frame_inv[OF tree] free])
  let ?pa = "start_address X86_64 f"
  have c: "can_enter r m p t i ?pa (table_entry ?pa) (\<lambda>_. 0) s"
    unfolding can_enter_def using tree t p i False tab_next[OF t i] f entry_simps[OF f(5)] by (simp add: owned_def)
  have "next_table t i m = Some (?pa, enter_table t i ?pa (table_entry ?pa) (\<lambda>_. 0) s m)"
    using False f(1) by (simp add: next_table_def enter_table_def zero_table_def Let_def)
  then show ?thesis using enter_extends[OF c enter_empty_translate[OF c]] False by blast
qed

lemma fill_zero: "fill_small_pages pt base (zero_table pt m) = m\<lparr>tabs := (tabs m)(pt := small_pages base)\<rparr>"
  by (simp add: fill_small_pages_def zero_table_def small_pages_def cong: if_cong)

lemma next_pt_ret:
  assumes tree: "table_tree r m" and t: "tab m r p = Some t" and p: "length p = 2" and i: "i < 512"
    and free: "free_frames (fr m) \<noteq> {}"
  shows "\<exists>t' m'. next_pt t i m = Some (t', m') \<and> tab m' r (i # p) = Some t' \<and> extends_tree r m m'"
proof (cases "tabs m t i AND P_PRESENT \<noteq> 0 \<and> tabs m t i AND P_SIZE \<noteq> 0")
  case False
  then show ?thesis unfolding next_pt_def if_not_P[OF False] using next_table_ret[OF tree t _ i _ free] p by auto
next
  case True
  obtain f s where f: "alloc_table_or_halt m = Some (f, m\<lparr>fr := s\<rparr>)" "number f \<in> free_frames (fr m)"
      "free_frames s = free_frames (fr m) - {number f}" "frame_inv s"
      "aligned (start_address X86_64 f)" "unat (start_address X86_64 f) div FRAME_SIZE = number f"
    by (rule alloc_table[OF tree_frame_inv[OF tree] free])
  let ?pa = "start_address X86_64 f" and ?c = "small_pages (tabs m t i AND BLOCK_MASK)"
  have c: "can_enter r m p t i ?pa (table_entry ?pa) ?c s"
    unfolding can_enter_def using tree t p i True tab_next[OF t i] f entry_simps[OF f(5)] by (simp add: owned_def)
  have "next_pt t i m = Some (?pa, enter_table t i ?pa (table_entry ?pa) ?c s m)"
    using True f(1) by (simp add: next_pt_def enter_table_def fill_zero Let_def)
  then show ?thesis using enter_extends[OF c split_translate[OF c p]] True by blast
qed

definition kernel_map :: "u64 \<Rightarrow> bool \<Rightarrow> mapping_of" where
  "kernel_map pa uc = \<lparr>phys = pa, may_write = True, may_user = False, may_exec = True, uncached = uc\<rparr>"

lemma map_leaf_ret:
  assumes tree: "table_tree (KERNEL_PML4_PA m) m" and free: "3 \<le> card (free_frames (fr m))"
  shows "\<exists>m'. map_leaf leaf virt m = Some m' \<and> KERNEL_PML4_PA m' = KERNEL_PML4_PA m \<and>
    table_tree (KERNEL_PML4_PA m) m' \<and> (\<exists>usr. \<forall>va. translate (KERNEL_PML4_PA m) va m' =
      (if same_page va virt then leaf_mapping usr leaf else translate (KERNEL_PML4_PA m) va m))"
proof -
  let ?r = "KERNEL_PML4_PA m"
  have ne: "1 \<le> card (free_frames s) \<Longrightarrow> free_frames s \<noteq> {}" for s by auto
  have upper: "tabs m' t' i AND P_SIZE = 0"
    if "table_tree ?r m'" "tab m' ?r p = Some t'" "length p \<le> 1" "i < 512" "tabs m' t' i AND P_PRESENT \<noteq> 0" for m' t' p i
    using tree_upper[OF that(1,2) _ that(4)] that(3,5) by (auto simp: upper_entry_def)
  obtain t1 m1 where n1: "next_table ?r (pml4_index virt) m = Some (t1, m1)"
      "tab m1 ?r [pml4_index virt] = Some t1" "extends_tree ?r m m1"
    using next_table_ret[OF tree tab.simps(1) _ index_less(1) upper[OF tree tab.simps(1) _ index_less(1)] ne] free by fastforce
  note e1 = extends_treeD[OF n1(3)]
  obtain t2 m2 where n2: "next_table t1 (pdpt_index virt) m1 = Some (t2, m2)"
      "tab m2 ?r (pd_path virt) = Some t2" "extends_tree ?r m1 m2"
    using next_table_ret[OF e1(1) n1(2) _ index_less(2) upper[OF e1(1) n1(2) _ index_less(2)] ne] free e1(5) by fastforce
  note e2 = extends_treeD[OF n2(3)]
  obtain t3 m3 where n3: "next_pt t2 (pd_index virt) m2 = Some (t3, m3)"
      "tab m3 ?r (pt_path virt) = Some t3" "extends_tree ?r m2 m3"
    using next_pt_ret[OF e2(1) n2(2) _ index_less(3) ne] free e1(5) e2(5) by fastforce
  note e3 = extends_treeD[OF n3(3)]
  let ?m = "set_leaf t3 (pt_index virt) leaf m3"
  have "map_leaf leaf virt m = Some ?m" using n1(1) n2(1) n3(1) by (simp add: map_leaf_def set_leaf_def)
  moreover have "KERNEL_PML4_PA ?m = ?r" using e1(2) e2(2) e3(2) by simp
  moreover have "table_tree ?r ?m" using leaf_tree[OF e3(1) n3(2)] by simp
  moreover have "translate ?r va ?m =
      (if same_page va virt then leaf_mapping (user_path m3 ?r (pt_path virt)) leaf else translate ?r va m)" for va
    using leaf_translate[OF e3(1) n3(2)] e1(3) e2(3) e3(3) by simp
  ultimately show ?thesis by blast
qed

section \<open>The initial kernel mapping\<close>

lemma index_nat:
  "pml4_index va = unat va div 2 ^ 39 mod 512" "pdpt_index va = unat va div 2 ^ 30 mod 512"
  "pd_index va = unat va div 2 ^ 21 mod 512" "pt_index va = unat va div 2 ^ 12 mod 512"
proof -
  have "unat (drop_bit k va AND 0x1FF) = unat va div 2 ^ k mod 512" for k
  proof -
    have "drop_bit k va AND 0x1FF = take_bit 9 (drop_bit k va)"
      using take_bit_eq_mask[of 9 "drop_bit k va"] by (simp add: mask_eq_exp_minus_1)
    then have "unat (drop_bit k va AND 0x1FF) = take_bit 9 (unat (drop_bit k va))" by (simp only: unsigned_take_bit_eq)
    also have "unat (drop_bit k va) = drop_bit k (unat va)" by (rule unat_drop_bit_eq)
    also have "\<dots> = unat va div 2 ^ k" by (rule drop_bit_eq_div)
    finally show ?thesis by (simp add: take_bit_eq_mod)
  qed
  then show "pml4_index va = unat va div 2 ^ 39 mod 512" "pdpt_index va = unat va div 2 ^ 30 mod 512"
    "pd_index va = unat va div 2 ^ 21 mod 512" "pt_index va = unat va div 2 ^ 12 mod 512"
    by (simp_all only: pml4_index_def pdpt_index_def pd_index_def pt_index_def)
qed

lemma page_2mb_simps:
  assumes "pa AND BLOCK_MASK = pa"
  shows "page_2mb pa AND BLOCK_MASK = pa" "page_2mb pa AND P_PRESENT \<noteq> 0" "page_2mb pa AND P_SIZE \<noteq> 0"
    "upper_entry 2 (page_2mb pa)"
proof -
  have e: "page_2mb pa = pa OR 131" by (simp add: page_2mb_def or.assoc)
  show "page_2mb pa AND BLOCK_MASK = pa" using assms by (simp add: e bit.conj_disj_distrib2)
  have "page_2mb pa AND y = 131 AND y" if "y AND BLOCK_MASK = 0" for y unfolding e by (rule and_within[OF assms that])
  then show "page_2mb pa AND P_PRESENT \<noteq> 0" "page_2mb pa AND P_SIZE \<noteq> 0" "upper_entry 2 (page_2mb pa)"
    by (simp_all add: upper_entry_def)
qed

lemma block_addr: "\<lbrakk>i < 512; k < 2\<rbrakk> \<Longrightarrow>
  (of_nat k * 0x40000000 + of_nat i * 0x200000 :: u64) AND BLOCK_MASK = of_nat k * 0x40000000 + of_nat i * 0x200000"
proof -
  assume a: "i < 512" "k < 2"
  define q where "q = k * 512 + i"
  have q: "bit q j \<Longrightarrow> j < 10" for j
    using a bit_take_bit_iff[of 10 q j] by (simp add: take_bit_nat_eq_self q_def)
  have eq: "of_nat k * 0x40000000 + of_nat i * 0x200000 = (push_bit 21 (of_nat q) :: u64)"
    by (simp add: push_bit_eq_mult algebra_simps q_def)
  have "bit (push_bit 21 (of_nat q) :: u64) n \<Longrightarrow> 21 \<le> n \<and> n < 52" for n
    using q[of "n - 21"] by (auto simp: bit_push_bit_iff bit_of_nat_iff)
  then show ?thesis unfolding eq by (intro bit_word_eqI) (auto simp only: bit_and_iff block_mask_bits)
qed

lemma zero_root_tree:
  assumes "frame_inv (fr m)" "owned m r" "tabs m r = (\<lambda>_. 0)"
  shows "table_tree r m" "translate r va m = None"
proof -
  have t: "tab m r q = Some t \<longleftrightarrow> q = [] \<and> t = r" for q t
  proof (induction q arbitrary: t)
    case (Cons j q)
    then show ?case using assms(3) by (auto simp: tab.simps(2) split: option.splits)
  qed auto
  show "table_tree r m" by (rule table_treeI) (use assms t in \<open>auto simp: upper_entry_def\<close>)
  show "translate r va m = None" using assms(3) by (simp add: translate_def Let_def)
qed

text \<open>Entering a directory of 2 MiB blocks.\<close>

lemma enter_blocks_translate:
  assumes c: "can_enter r m p t i pa e c s" and p: "length p = 1"
  shows "translate r va (enter_table t i pa e c s m) =
    (if pd_path va = i # p then if c (pd_index va) AND P_PRESENT = 0 then None
       else Some (block_mapping (c (pd_index va)) (pt_index va))
     else translate r va m)"
proof (cases "pd_path va = i # p")
  case True
  have "no_tables 2 c" using can_enterD(11)[OF c] p by (simp add: numeral_2_eq_2)
  then have "c (pd_index va) AND P_PRESENT \<noteq> 0 \<Longrightarrow> c (pd_index va) AND P_SIZE \<noteq> 0"
    using index_less(3)[of va] by (simp add: no_tables_def)
  moreover have "tab (enter_table t i pa e c s m) r (pd_path va) = Some pa" using enter_tab[OF c, of "pd_path va"] True p by simp
  ultimately show ?thesis
    using translate_path[OF enter_tree[OF c], of va] enter_entries(1)[OF c] True by (simp add: Let_def)
next
  case False
  show ?thesis
  proof (cases "tab m r (pd_path va)")
    case None
    then show ?thesis using False enter_tab[OF c, of "pd_path va"]
      translate_path[OF enter_tree[OF c], of va] translate_path[OF can_enterD(1)[OF c], of va] by auto
  next
    case (Some pd)
    have "pd \<noteq> t" using tree_inj[OF can_enterD(1)[OF c] Some, of p] can_enterD(2)[OF c] p by auto
    then show ?thesis using enter_elsewhere[OF c Some] False by auto
  qed
qed

definition gib_blocks :: "nat \<Rightarrow> table" where
  "gib_blocks k = (\<lambda>i. if i < 512 then page_2mb (of_nat k * 0x40000000 + of_nat i * 0x200000) else 0)"

lemma gib_blocks_simps:
  assumes "k < 2"
  shows "no_tables 2 (gib_blocks k)" "gib_blocks k (pd_index va) AND P_PRESENT \<noteq> 0"
    "block_mapping (gib_blocks k (pd_index va)) i =
      kernel_map (of_nat k * 0x40000000 + of_nat (pd_index va) * 0x200000 + of_nat i * 0x1000) False"
  using page_2mb_simps[OF block_addr[OF _ assms]] index_less(3)[of va]
  by (auto simp: gib_blocks_def no_tables_def block_mapping_def kernel_map_def)

lemma init_pd_ret:
  assumes tree: "table_tree r m" and pdpt: "tab m r [0] = Some pdpt_pa" and k: "k < 2"
    and absent: "tabs m pdpt_pa k AND P_PRESENT = 0" and free: "free_frames (fr m) \<noteq> {}"
  shows "\<exists>m'. init_pd pdpt_pa k m = Some m' \<and> table_tree r m' \<and> tab m' r [0] = Some pdpt_pa \<and>
    (\<forall>va. translate r va m' = (if pd_path va = [k, 0]
      then Some (kernel_map (of_nat k * 0x40000000 + of_nat (pd_index va) * 0x200000 + of_nat (pt_index va) * 0x1000) False)
      else translate r va m)) \<and>
    (\<forall>j. j \<noteq> k \<longrightarrow> tabs m' pdpt_pa j = tabs m pdpt_pa j) \<and> card (free_frames (fr m)) \<le> Suc (card (free_frames (fr m')))"
proof -
  obtain f s where f: "alloc_table_or_halt m = Some (f, m\<lparr>fr := s\<rparr>)" "number f \<in> free_frames (fr m)"
      "free_frames s = free_frames (fr m) - {number f}" "frame_inv s"
      "aligned (start_address X86_64 f)" "unat (start_address X86_64 f) div FRAME_SIZE = number f"
    by (rule alloc_table[OF tree_frame_inv[OF tree] free])
  let ?pa = "start_address X86_64 f"
  have c: "can_enter r m [0] pdpt_pa k ?pa (table_entry ?pa) (gib_blocks k) s"
    unfolding can_enter_def using tree pdpt k absent f tab_next[OF pdpt, of k] entry_simps[OF f(5)] gib_blocks_simps(1)[OF k]
    by (simp add: owned_def numeral_2_eq_2)
  let ?m = "enter_table pdpt_pa k ?pa (table_entry ?pa) (gib_blocks k) s m"
  have ne: "pdpt_pa \<noteq> ?pa" using tree_owned[OF tree pdpt] can_enterD(6)[OF c] by auto
  then have "init_pd pdpt_pa k m = Some ?m"
    using f(1) by (simp add: init_pd_def enter_table_def zero_table_def gib_blocks_def Let_def fun_upd_twist cong: if_cong)
  moreover have "tab ?m r [0] = Some pdpt_pa" using enter_tab[OF c, of "[0]"] pdpt by simp
  moreover have "tabs ?m pdpt_pa j = tabs m pdpt_pa j" if "j \<noteq> k" for j using enter_entries(2)[OF c ne] that by simp
  moreover have "fr ?m = s" by (simp add: enter_table_def)
  ultimately show ?thesis
    using enter_tree[OF c] enter_blocks_translate[OF c] gib_blocks_simps[OF k] card_free_remove[OF f(3)] by simp
qed

lemma root_regs [simp]:
  "tab (m\<lparr>KERNEL_PML4_PA := a, cr3 := b\<rparr>) r q = tab m r q"
  "table_tree r (m\<lparr>KERNEL_PML4_PA := a, cr3 := b\<rparr>) = table_tree r m"
  "translate r va (m\<lparr>KERNEL_PML4_PA := a, cr3 := b\<rparr>) = translate r va m"
proof -
  show t: "tab (m\<lparr>KERNEL_PML4_PA := a, cr3 := b\<rparr>) r q = tab m r q" for q
    by (induction q) (simp_all add: tab.simps(2) split: option.splits)
  show "table_tree r (m\<lparr>KERNEL_PML4_PA := a, cr3 := b\<rparr>) = table_tree r m"
    by (simp add: table_tree_def t owned_def)
  show "translate r va (m\<lparr>KERNEL_PML4_PA := a, cr3 := b\<rparr>) = translate r va m" by (simp add: translate_def)
qed

lemma low_paths:
  assumes "unat va < 2 ^ 48"
  shows "pd_path va = [k, 0] \<longleftrightarrow> k = unat va div 2 ^ 30 \<and> unat va < 2 ^ 39"
proof
  assume "pd_path va = [k, 0]"
  then have "unat va div 2 ^ 39 mod 512 = 0" "k = unat va div 2 ^ 30 mod 512" by (simp_all add: index_nat)
  moreover have "unat va div 2 ^ 39 < 512" using assms by (simp add: div_less_iff_less_mult)
  ultimately have "unat va < 2 ^ 39" by (simp add: div_eq_0_iff)
  then show "k = unat va div 2 ^ 30 \<and> unat va < 2 ^ 39"
    using \<open>k = unat va div 2 ^ 30 mod 512\<close> by (simp add: div_less_iff_less_mult)
next
  assume "k = unat va div 2 ^ 30 \<and> unat va < 2 ^ 39"
  then show "pd_path va = [k, 0]" by (simp add: index_nat div_less_iff_less_mult)
qed

lemma page_split:
  assumes "(v :: nat) < 2 ^ 39"
  shows "v div 2 ^ 30 * 0x40000000 + (v div 2 ^ 21 mod 512) * 0x200000 + (v div 2 ^ 12 mod 512) * 0x1000 = v div 4096 * 4096"
proof -
  have "v div 2 ^ 12 div 512 = v div 2 ^ 21" "v div 2 ^ 21 div 512 = v div 2 ^ 30" by (simp_all add: div_mult2_eq[symmetric])
  then show ?thesis
    using div_mult_mod_eq[of "v div 2 ^ 12" 512] div_mult_mod_eq[of "v div 2 ^ 21" 512] by simp
qed

lemma low_identity:
  assumes "unat va < 2 ^ 48"
  defines "m \<equiv> \<lambda>k :: nat. Some (kernel_map (of_nat k * 0x40000000 + of_nat (pd_index va) * 0x200000 + of_nat (pt_index va) * 0x1000) False)"
  shows "(if pd_path va = [1, 0] then m 1 else if pd_path va = [0, 0] then m 0 else None) =
    (if unat va < 2 ^ 31 then Some (kernel_map (of_nat (unat va div 4096 * 4096)) False) else None)"
proof -
  let ?k = "unat va div 2 ^ 30"
  have lp: "(pd_path va = [1, 0]) = (1 = ?k \<and> unat va < 2 ^ 39)" "(pd_path va = [0, 0]) = (0 = ?k \<and> unat va < 2 ^ 39)"
    by (rule low_paths[OF assms(1)])+
  show ?thesis
  proof (cases "unat va < 2 ^ 31")
    case True
    then have l: "unat va < 2 ^ 39" by simp
    have k: "m ?k = Some (kernel_map (of_nat (unat va div 4096 * 4096)) False)"
      unfolding page_split[OF l, symmetric] index_nat m_def by simp
    have "?k < 2" using True by (simp add: div_less_iff_less_mult)
    then consider "?k = 0" | "?k = 1" by linarith
    then show ?thesis unfolding lp if_P[OF True] k[symmetric] by cases (use l in \<open>simp_all only: simp_thms if_True if_False zero_neq_one one_neq_zero\<close>)
  next
    case False
    then have "2 \<le> ?k" by (simp add: less_eq_div_iff_mult_less_eq)
    then have "1 \<noteq> ?k" "0 \<noteq> ?k" by linarith+
    then show ?thesis unfolding lp if_not_P[OF False] by (simp only: simp_thms if_False)
  qed
qed

text \<open>The first half of \<open>init\<close>: the root and one empty second-level table.\<close>

lemma init_top:
  assumes "frame_inv (fr m)" "4 \<le> card (free_frames (fr m))"
  obtains r pdpt m3 where "table_tree r m3" "tab m3 r [0] = Some pdpt" "\<And>va. translate r va m3 = None"
    "tabs m3 pdpt = (\<lambda>_. 0)" "card (free_frames (fr m)) \<le> card (free_frames (fr m3)) + 2"
    "paging_init m = (case init_pd pdpt 0 m3 of None \<Rightarrow> None | Some m4 \<Rightarrow> (case init_pd pdpt 1 m4 of
       None \<Rightarrow> None | Some m5 \<Rightarrow> Some (m5\<lparr>KERNEL_PML4_PA := r, cr3 := r\<rparr>)))"
proof -
  have ne: "1 \<le> card (free_frames s) \<Longrightarrow> free_frames s \<noteq> {}" for s by auto
  obtain f1 s1 where f1: "alloc_table_or_halt m = Some (f1, m\<lparr>fr := s1\<rparr>)" "number f1 \<in> free_frames (fr m)"
      "free_frames s1 = free_frames (fr m) - {number f1}" "frame_inv s1"
      "aligned (start_address X86_64 f1)" "unat (start_address X86_64 f1) div FRAME_SIZE = number f1"
    using alloc_table[OF assms(1) ne] assms(2) by (metis le_trans one_le_numeral)
  note n1 = card_free_remove[OF f1(3)]
  define r where "r = start_address X86_64 f1"
  define m0 where "m0 = m\<lparr>fr := s1, tabs := (tabs m)(r := (\<lambda>_. 0))\<rparr>"
  have tree0: "table_tree r m0" and none: "translate r va m0 = None" for va
    using zero_root_tree[of m0 r] f1(3,4,6) by (auto simp: m0_def owned_def r_def)
  have free0: "free_frames (fr (m\<lparr>fr := s1\<rparr>)) \<noteq> {}" using n1 assms(2) ne[of s1] by simp
  obtain f2 s2 where f2: "alloc_table_or_halt (m\<lparr>fr := s1\<rparr>) = Some (f2, m\<lparr>fr := s1\<rparr>\<lparr>fr := s2\<rparr>)" "number f2 \<in> free_frames s1"
      "free_frames s2 = free_frames s1 - {number f2}" "frame_inv s2"
      "aligned (start_address X86_64 f2)" "unat (start_address X86_64 f2) div FRAME_SIZE = number f2"
    by (rule alloc_table[of "m\<lparr>fr := s1\<rparr>", OF _ free0]) (use f1(4) in auto)
  note n2 = card_free_remove[OF f2(3)]
  define pdpt where "pdpt = start_address X86_64 f2"
  have c: "can_enter r m0 [] r 0 pdpt (table_entry pdpt) (\<lambda>_. 0) s2"
    unfolding can_enter_def using tree0 f2 entry_simps[OF f2(5)] tab_next[of m0 r "[]" r 0]
    by (simp add: owned_def m0_def pdpt_def)
  define m3 where "m3 = enter_table r 0 pdpt (table_entry pdpt) (\<lambda>_. 0) s2 m0"
  have ner: "r \<noteq> pdpt" using tree_owned[OF tree0, of "[]"] can_enterD(6)[OF c] by auto
  then have m3: "zero_table pdpt (set_entry r 0 (table_entry pdpt) (zero_table r (m\<lparr>fr := s1\<rparr>\<lparr>fr := s2\<rparr>))) = m3"
    by (simp add: m3_def m0_def enter_table_def zero_table_def fun_upd_twist)
  have t3: "table_tree r m3" "tab m3 r [0] = Some pdpt" "\<And>va. translate r va m3 = None" "fr m3 = s2"
    using enter_tree[OF c] enter_tab[OF c, of "[0]"] enter_empty_translate[OF c] none by (auto simp: m3_def m0_def) (simp add: enter_table_def)
  show ?thesis
  proof (rule that[of r m3 pdpt])
    show "tabs m3 pdpt = (\<lambda>_. 0)" using enter_entries(1)[OF c] by (simp add: m3_def)
    show "card (free_frames (fr m)) \<le> card (free_frames (fr m3)) + 2" using n1 n2 t3(4) by simp
    show "paging_init m = (case init_pd pdpt 0 m3 of None \<Rightarrow> None | Some m4 \<Rightarrow> (case init_pd pdpt 1 m4 of
       None \<Rightarrow> None | Some m5 \<Rightarrow> Some (m5\<lparr>KERNEL_PML4_PA := r, cr3 := r\<rparr>)))"
      using f1(1) f2(1) unfolding paging_init_def r_def[symmetric] pdpt_def[symmetric]
      by (simp add: Let_def m3[simplified] flip: r_def pdpt_def) (unfold pdpt_def, rule refl)
  qed (use t3 in auto)
qed

text \<open>A machine with 64 KiB of RAM, all of it free, and empty tables.\<close>

definition bare_machine :: machine where
  "bare_machine = \<lparr>tabs = (\<lambda>_ _. 0), bytes = (\<lambda>_. 0), KERNEL_PML4_PA = 0x100000, cr3 = 0x100000,
     fr = set_total_ram 0x10000 frame_boot\<rparr>"

lemma bare_machine_simps:
  "frame_inv (fr bare_machine)" "card (free_frames (fr bare_machine)) = 16"
  "table_tree (KERNEL_PML4_PA bare_machine) bare_machine"
proof -
  have "free_frames (fr bare_machine) = {..<16}"
    by (auto simp: bare_machine_def free_frames_def frame_used_def set_total_ram_def frame_boot_def Let_def
        MAX_FRAME_COUNT_def MAX_WORDS_def FRAME_SIZE_def)
  then show "card (free_frames (fr bare_machine)) = 16" by simp
  show inv: "frame_inv (fr bare_machine)" using set_total_ram_inv by (simp add: bare_machine_def)
  show "table_tree (KERNEL_PML4_PA bare_machine) bare_machine"
    by (rule zero_root_tree(1)[OF inv]) (simp_all add: owned_def \<open>free_frames (fr bare_machine) = {..<16}\<close>,
      simp_all add: bare_machine_def FRAME_SIZE_def)
qed

text \<open>
  C14: the initial address space.  With four free frames, \<open>init\<close> returns and installs a
  well-formed hierarchy that identity-maps the addresses below 2 GiB (writable,
  supervisor, executable) and no other address of the 48-bit address space.
\<close>

theorem paging_init_identity:
  assumes "frame_inv (fr m)" "4 \<le> card (free_frames (fr m))"
  shows "\<exists>m'. paging_init m = Some m' \<and> cr3 m' = KERNEL_PML4_PA m' \<and> table_tree (KERNEL_PML4_PA m') m' \<and>
    card (free_frames (fr m)) \<le> card (free_frames (fr m')) + 4 \<and>
    (\<forall>va. unat va < 2 ^ 48 \<longrightarrow> translate (KERNEL_PML4_PA m') va m' =
      (if unat va < 2 ^ 31 then Some (kernel_map (of_nat (unat va div 4096 * 4096)) False) else None))"
proof -
  have ne: "1 \<le> card (free_frames s) \<Longrightarrow> free_frames s \<noteq> {}" for s by auto
  have lt: "(0 :: nat) < 2" "(1 :: nat) < 2" by simp_all
  obtain r pdpt m3 where t3: "table_tree r m3" "tab m3 r [0] = Some pdpt" "\<And>va. translate r va m3 = None"
    "tabs m3 pdpt = (\<lambda>_. 0)" "card (free_frames (fr m)) \<le> card (free_frames (fr m3)) + 2"
    "paging_init m = (case init_pd pdpt 0 m3 of None \<Rightarrow> None | Some m4 \<Rightarrow> (case init_pd pdpt 1 m4 of
       None \<Rightarrow> None | Some m5 \<Rightarrow> Some (m5\<lparr>KERNEL_PML4_PA := r, cr3 := r\<rparr>)))"
    by (rule init_top[OF assms], rule that)
  have a3: "tabs m3 pdpt 0 AND P_PRESENT = 0" "free_frames (fr m3) \<noteq> {}" using t3(4,5) assms(2) ne[of "fr m3"] by simp_all
  obtain m4 where m4: "init_pd pdpt 0 m3 = Some m4" "table_tree r m4" "tab m4 r [0] = Some pdpt"
      "\<And>va. translate r va m4 = (if pd_path va = [0, 0]
        then Some (kernel_map (of_nat 0 * 0x40000000 + of_nat (pd_index va) * 0x200000 + of_nat (pt_index va) * 0x1000) False)
        else translate r va m3)" "\<And>j. j \<noteq> 0 \<Longrightarrow> tabs m4 pdpt j = tabs m3 pdpt j"
      "card (free_frames (fr m3)) \<le> Suc (card (free_frames (fr m4)))"
    using init_pd_ret[OF t3(1,2) lt(1) a3] by blast
  have a4: "tabs m4 pdpt 1 AND P_PRESENT = 0" "free_frames (fr m4) \<noteq> {}"
    using t3(4,5) m4(5)[of 1] m4(6) assms(2) ne[of "fr m4"] by simp_all
  obtain m5 where m5: "init_pd pdpt 1 m4 = Some m5" "table_tree r m5"
      "\<And>va. translate r va m5 = (if pd_path va = [1, 0]
        then Some (kernel_map (of_nat 1 * 0x40000000 + of_nat (pd_index va) * 0x200000 + of_nat (pt_index va) * 0x1000) False)
        else translate r va m4)" "card (free_frames (fr m4)) \<le> Suc (card (free_frames (fr m5)))"
    using init_pd_ret[OF m4(2,3) lt(2) a4] by blast
  let ?m = "m5\<lparr>KERNEL_PML4_PA := r, cr3 := r\<rparr>"
  have "paging_init m = Some ?m" using t3(6) m4(1) m5(1) by simp
  moreover have "card (free_frames (fr m)) \<le> card (free_frames (fr ?m)) + 4" using m4(6) m5(4) t3(5) by simp
  moreover have "translate r va m5 =
      (if unat va < 2 ^ 31 then Some (kernel_map (of_nat (unat va div 4096 * 4096)) False) else None)"
    if va: "unat va < 2 ^ 48" for va
    unfolding low_identity[OF va, symmetric] m5(3) m4(4) t3(3) by (rule refl)
  ultimately show ?thesis using m5(2) by (intro exI[of _ ?m]) simp
qed

theorem paging_init_identity_witness:
  "\<exists>m'. paging_init bare_machine = Some m' \<and>
    translate (KERNEL_PML4_PA m') 0x7FFFF123 m' = Some (kernel_map 0x7FFFF000 False) \<and>
    translate (KERNEL_PML4_PA m') 0x80000000 m' = None"
proof -
  obtain m' where "paging_init bare_machine = Some m'" and va: "\<And>va. unat va < 2 ^ 48 \<Longrightarrow> translate (KERNEL_PML4_PA m') va m' =
      (if unat va < 2 ^ 31 then Some (kernel_map (of_nat (unat va div 4096 * 4096)) False) else None)"
    using paging_init_identity[OF bare_machine_simps(1)] bare_machine_simps(2) by auto
  then show ?thesis using va[of "0x7FFFF123"] va[of "0x80000000"] by auto
qed

text \<open>
  C10: identity mapping of one kernel page.  On a well-formed hierarchy with three free
  frames left, \<open>map_page\<close> and \<open>map_page_uc\<close> return, keep the hierarchy well formed, map the
  page of \<open>virt\<close> to the physical page of the same address (writable, supervisor,
  executable, uncached for the second) and change the translation of no other
  address, even when they split a 2 MiB block or add tables on the way.
\<close>

theorem map_page_refines:
  assumes "table_tree (KERNEL_PML4_PA m) m" "3 \<le> card (free_frames (fr m))" "aligned virt"
  shows "(\<exists>m'. map_page virt m = Some m' \<and> KERNEL_PML4_PA m' = KERNEL_PML4_PA m \<and> table_tree (KERNEL_PML4_PA m) m' \<and>
      (\<forall>va. translate (KERNEL_PML4_PA m) va m' =
        (if same_page va virt then Some (kernel_map virt False) else translate (KERNEL_PML4_PA m) va m))) \<and>
    (\<exists>m'. map_page_uc virt m = Some m' \<and> KERNEL_PML4_PA m' = KERNEL_PML4_PA m \<and> table_tree (KERNEL_PML4_PA m) m' \<and>
      (\<forall>va. translate (KERNEL_PML4_PA m) va m' =
        (if same_page va virt then Some (kernel_map virt True) else translate (KERNEL_PML4_PA m) va m)))"
  using map_leaf_ret[OF assms(1,2), of "page_4k virt True False True" virt] map_leaf_ret[OF assms(1,2), of "page_4k_uc virt" virt]
  by (auto simp: map_page_def map_page_uc_def leaf_mapping_simps kernel_map_def assms(3))


theorem map_page_refines_witness:
  "\<exists>m'. map_page_uc 0xFEE00000 bare_machine = Some m' \<and>
    translate 0x100000 0xFEE00000 m' = Some (kernel_map 0xFEE00000 True) \<and> table_tree 0x100000 m'"
proof -
  have "aligned 0xFEE00000" by (simp add: aligned_def)
  moreover have "KERNEL_PML4_PA bare_machine = 0x100000" by (simp add: bare_machine_def)
  ultimately show ?thesis using map_page_refines[OF bare_machine_simps(3), of "0xFEE00000"] bare_machine_simps(2)
    by (auto simp: same_page_def)
qed

end
