(* ===== verification/Task.thy ===== *)
theory Task
  imports Paging
begin

text \<open>
  Tasks, the timer and the scheduler (\<open>src/task.rs\<close>, \<open>src/timer.rs\<close>).  The kernel stacks
  are words of \<open>kmem\<close>; the addresses the linker gives them are the parameter \<open>stk\<close>
  (\<open>stk i\<close> is the address of \<open>TASKS[i].stack\<close>).  A call that waits for the scheduler is
  its state change up to the wait together with the condition that ends the wait.
  A call that never comes back is \<open>None\<close>; a panic is \<open>Panic\<close>.
\<close>

section \<open>State\<close>

definition STACK_SIZE :: nat where "STACK_SIZE = 32768"
definition MAX_USER_FRAMES :: nat where "MAX_USER_FRAMES = 32"

datatype TaskState = Unused | Ready | Running | Sleeping

record Task =
  saved_sp :: usize
  state :: TaskState
  page_table_root :: usize
  user_data_frames :: "usize list"
  user_data_frame_count :: nat
  wake_tick :: usize
  user_id :: u32

definition UNUSED_TASK :: Task where
  "UNUSED_TASK = \<lparr>saved_sp = 0, state = Unused, page_table_root = 0,
     user_data_frames = replicate MAX_USER_FRAMES 0, user_data_frame_count = 0, wake_tick = 0, user_id = 1000\<rparr>"

record sched =
  TASKS :: "nat \<Rightarrow> Task"
  CURRENT_TASK :: nat
  TICKS :: usize
  kmem :: "usize \<Rightarrow> u64"
  RSP0 :: usize
  mach :: machine

definition sched_boot :: "machine \<Rightarrow> sched" where
  "sched_boot m = \<lparr>TASKS = (\<lambda>_. UNUSED_TASK), CURRENT_TASK = 0, TICKS = 0, kmem = (\<lambda>_. 0), RSP0 = 0, mach = m\<rparr>"

abbreviation upd_task :: "nat \<Rightarrow> (Task \<Rightarrow> Task) \<Rightarrow> sched \<Rightarrow> sched" where
  "upd_task i f s \<equiv> s\<lparr>TASKS := (TASKS s)(i := f (TASKS s i))\<rparr>"

abbreviation upd_stats :: "(KernelStats \<Rightarrow> KernelStats) \<Rightarrow> sched \<Rightarrow> sched" where
  "upd_stats f s \<equiv> s\<lparr>mach := (mach s)\<lparr>fr := (fr (mach s))\<lparr>STATS := f (STATS (fr (mach s)))\<rparr>\<rparr>\<rparr>"

definition get_task_state :: "nat \<Rightarrow> sched \<Rightarrow> TaskState outcome" where
  "get_task_state idx s = (if idx < MAX_TASKS then Ret (state (TASKS s idx)) else Panic)"

definition get_task_uid :: "nat \<Rightarrow> sched \<Rightarrow> u32 outcome" where
  "get_task_uid idx s = (if idx < MAX_TASKS then Ret (user_id (TASKS s idx)) else Panic)"

definition init_scheduler :: "sched \<Rightarrow> sched" where
  "init_scheduler s = upd_task 0 (\<lambda>t. t\<lparr>state := Running, user_id := 0, page_table_root := cr3 (mach s)\<rparr>) s"

definition current_task :: "sched \<Rightarrow> nat" where
  "current_task s = CURRENT_TASK s"

definition current_task_ref :: "sched \<Rightarrow> Task outcome" where
  "current_task_ref s = (if CURRENT_TASK s < MAX_TASKS then Ret (TASKS s (CURRENT_TASK s)) else Panic)"

definition task_page_table_root :: "nat \<Rightarrow> sched \<Rightarrow> usize outcome" where
  "task_page_table_root idx s = (if idx < MAX_TASKS then Ret (page_table_root (TASKS s idx)) else Panic)"

definition current_page_table_root :: "sched \<Rightarrow> usize outcome" where
  "current_page_table_root s = task_page_table_root (CURRENT_TASK s) s"

definition current_user_id :: "sched \<Rightarrow> u32 outcome" where
  "current_user_id s = get_task_uid (CURRENT_TASK s) s"

definition current_state :: "sched \<Rightarrow> TaskState outcome" where
  "current_state s = get_task_state (CURRENT_TASK s) s"

definition set_state :: "TaskState \<Rightarrow> sched \<Rightarrow> sched outcome" where
  "set_state st s = (if CURRENT_TASK s < MAX_TASKS
    then Ret (upd_task (CURRENT_TASK s) (\<lambda>t. t\<lparr>state := st\<rparr>) s) else Panic)"

definition set_task_wake_tick :: "nat \<Rightarrow> usize \<Rightarrow> sched \<Rightarrow> sched outcome" where
  "set_task_wake_tick idx tk s = (if idx < MAX_TASKS
    then Ret (upd_task idx (\<lambda>t. t\<lparr>wake_tick := tk\<rparr>) s) else Panic)"

definition free_slot :: "sched \<Rightarrow> nat option" where
  "free_slot s = scan (\<lambda>i. state (TASKS s i) = Unused) 1 MAX_TASKS"

definition has_free_slot :: "sched \<Rightarrow> bool" where
  "has_free_slot s = (free_slot s \<noteq> None)"

definition active_task_count :: "sched \<Rightarrow> nat" where
  "active_task_count s = length (filter (\<lambda>i. state (TASKS s i) \<noteq> Unused) [1..<MAX_TASKS])"

section \<open>Time\<close>

definition MS_PER_TICK :: usize where "MS_PER_TICK = 10"

definition ticks :: "sched \<Rightarrow> usize" where
  "ticks s = TICKS s"

definition uptime_ms :: "sched \<Rightarrow> usize" where
  "uptime_ms s = ticks s * MS_PER_TICK"

definition ms_to_ticks :: "usize \<Rightarrow> usize" where
  "ms_to_ticks ms = (ms + MS_PER_TICK - 1) div MS_PER_TICK"

definition tick :: "sched \<Rightarrow> sched" where
  "tick s = s\<lparr>TICKS := TICKS s + 1\<rparr>"

text \<open>The loop that wakes sleepers, in \<open>timer_handler_rust\<close> and in \<open>wake_sleeping\<close>.\<close>

definition wake_sleeping :: "sched \<Rightarrow> sched" where
  "wake_sleeping s = s\<lparr>TASKS := (\<lambda>i.
     if 1 \<le> i \<and> i < MAX_TASKS \<and> state (TASKS s i) = Sleeping \<and> TICKS s \<ge> wake_tick (TASKS s i)
     then (TASKS s i)\<lparr>state := Ready\<rparr> else TASKS s i)\<rparr>"

text \<open>\<open>sleep_until\<close>: up to the wait, and when the wait ends.\<close>

definition sleep_until :: "usize \<Rightarrow> sched \<Rightarrow> sched outcome" where
  "sleep_until wake s = obind (set_task_wake_tick (current_task s) wake s) (set_state Sleeping)"

definition sleep_over :: "sched \<Rightarrow> bool outcome" where
  "sleep_over s = obind (current_state s) (\<lambda>st. Ret (st \<noteq> Sleeping))"

definition sleep_ms :: "usize \<Rightarrow> sched \<Rightarrow> sched outcome" where
  "sleep_ms duration_ms s = sleep_until (ticks s + ms_to_ticks duration_ms) s"

section \<open>Creating tasks\<close>

text \<open>\<open>sp -= 8; *sp = v\<close>\<close>

definition push64 :: "u64 \<Rightarrow> usize \<times> (usize \<Rightarrow> u64) \<Rightarrow> usize \<times> (usize \<Rightarrow> u64)" where
  "push64 v p = (case p of (sp, mem) \<Rightarrow> (sp - 8, mem(sp - 8 := v)))"

definition zero_area :: "usize \<times> (usize \<Rightarrow> u64) \<Rightarrow> usize \<times> (usize \<Rightarrow> u64)" where
  "zero_area p = (case p of (sp, mem) \<Rightarrow> (sp - 256, fold (\<lambda>j m. m(sp - 256 + of_nat j * 8 := 0)) [0..<32] mem))"

definition build_kernel_frame_x86_64 :: "usize \<Rightarrow> usize \<Rightarrow> (usize \<Rightarrow> u64) \<Rightarrow> usize \<times> (usize \<Rightarrow> u64)" where
  "build_kernel_frame_x86_64 stack func mem = (let stack_top = stack + of_nat STACK_SIZE in
     zero_area (fold push64 ([0x10, stack_top, 0x202, 0x08, func] @ replicate 15 0) (stack_top, mem)))"

definition build_userspace_frame_x86_64 :: "usize \<Rightarrow> usize \<Rightarrow> usize \<Rightarrow> (usize \<Rightarrow> u64) \<Rightarrow> usize \<times> (usize \<Rightarrow> u64)" where
  "build_userspace_frame_x86_64 stack user_entry user_sp mem = (let stack_top = stack + of_nat STACK_SIZE in
     zero_area (fold push64 ([0x23, user_sp, 0x202, 0x1B, user_entry] @ replicate 15 0) (stack_top, mem)))"

definition build_kernel_frame_aarch64 :: "usize \<Rightarrow> usize \<Rightarrow> (usize \<Rightarrow> u64) \<Rightarrow> usize \<times> (usize \<Rightarrow> u64)" where
  "build_kernel_frame_aarch64 stack func mem = (let stack_top = stack + of_nat STACK_SIZE in
     zero_area (fold push64 [func, 0x3C5, 0] (stack_top, mem)))"

definition build_userspace_frame_aarch64 :: "usize \<Rightarrow> usize \<Rightarrow> usize \<Rightarrow> (usize \<Rightarrow> u64) \<Rightarrow> usize \<times> (usize \<Rightarrow> u64)" where
  "build_userspace_frame_aarch64 stack user_entry user_sp mem = (let stack_top = stack + of_nat STACK_SIZE in
     zero_area (fold push64 [user_entry, 0, user_sp] (stack_top, mem)))"

fun build_kernel_frame :: "arch \<Rightarrow> usize \<Rightarrow> usize \<Rightarrow> (usize \<Rightarrow> u64) \<Rightarrow> usize \<times> (usize \<Rightarrow> u64)" where
  "build_kernel_frame X86_64 = build_kernel_frame_x86_64"
| "build_kernel_frame AArch64 = build_kernel_frame_aarch64"

fun build_userspace_frame :: "arch \<Rightarrow> usize \<Rightarrow> usize \<Rightarrow> usize \<Rightarrow> (usize \<Rightarrow> u64) \<Rightarrow> usize \<times> (usize \<Rightarrow> u64)" where
  "build_userspace_frame X86_64 = build_userspace_frame_x86_64"
| "build_userspace_frame AArch64 = build_userspace_frame_aarch64"

definition spawn :: "arch \<Rightarrow> (nat \<Rightarrow> usize) \<Rightarrow> usize \<Rightarrow> sched \<Rightarrow> sched" where
  "spawn a stk func s = (case free_slot s of
      None \<Rightarrow> s
    | Some i \<Rightarrow> (let (sp, mem) = build_kernel_frame a (stk i) func (kmem s) in
        upd_stats count_task_spawn (upd_task i (\<lambda>t. t\<lparr>page_table_root := cr3 (mach s), saved_sp := sp, state := Ready\<rparr>)
          (s\<lparr>kmem := mem\<rparr>))))"

definition spawn_userspace :: "arch \<Rightarrow> (nat \<Rightarrow> usize) \<Rightarrow> usize \<Rightarrow> usize \<Rightarrow> usize \<Rightarrow> usize list \<Rightarrow> sched
    \<Rightarrow> (nat, string) result \<times> sched" where
  "spawn_userspace a stk user_entry user_sp root frames s = (case free_slot s of
      None \<Rightarrow> (Err ''out of task slots'', s)
    | Some i \<Rightarrow> (let (sp, mem) = build_userspace_frame a (stk i) user_entry user_sp (kmem s);
          count = min (length frames) MAX_USER_FRAMES in
        (Ok i, upd_stats count_task_spawn (upd_task i (\<lambda>t. t\<lparr>page_table_root := root, saved_sp := sp, state := Ready,
            user_data_frames := put_slice (user_data_frames t) 0 (take count frames), user_data_frame_count := count\<rparr>)
          (s\<lparr>kmem := mem\<rparr>)))))"

section \<open>The tick\<close>

text \<open>The search for the next task.\<close>

partial_function (option) next_loop :: "(nat \<Rightarrow> Task) \<Rightarrow> nat \<Rightarrow> nat \<Rightarrow> nat option" where
  [code]: "next_loop T start next_task =
    (if state (T next_task) = Ready then Some next_task
     else let next' = (next_task + 1) mod MAX_TASKS in
       if next' = start then Some 0 else next_loop T start next')"

text \<open>The second half of \<open>timer_handler_rust\<close>, on every tenth tick.\<close>

definition reschedule :: "arch \<Rightarrow> (nat \<Rightarrow> usize) \<Rightarrow> usize \<Rightarrow> sched \<Rightarrow> (usize \<times> sched) option" where
  "reschedule a stk sp s =
    (let cur = CURRENT_TASK s;
         s1 = upd_task cur (\<lambda>t. t\<lparr>saved_sp := sp, state := if state t = Running then Ready else state t\<rparr>) s;
         start = (cur + 1) mod MAX_TASKS in
     case next_loop (TASKS s1) start start of
       None \<Rightarrow> None
     | Some next_task \<Rightarrow>
         if next_task = cur then Some (sp, upd_task next_task (\<lambda>t. t\<lparr>state := Running\<rparr>) s1)
         else (let s2 = upd_task next_task (\<lambda>t. t\<lparr>state := Running\<rparr>) (s1\<lparr>CURRENT_TASK := next_task\<rparr>);
                   s3 = upd_stats count_context_switch s2;
                   s4 = s3\<lparr>mach := (mach s3)\<lparr>cr3 := page_table_root (TASKS s3 next_task)\<rparr>\<rparr>;
                   s5 = (if a = X86_64 then s4\<lparr>RSP0 := stk next_task + of_nat STACK_SIZE\<rparr> else s4) in
           Some (saved_sp (TASKS s5 next_task), s5)))"

definition timer_handler_rust :: "arch \<Rightarrow> (nat \<Rightarrow> usize) \<Rightarrow> usize \<Rightarrow> sched \<Rightarrow> (usize \<times> sched) outcome option" where
  "timer_handler_rust a stk sp s =
    (let s1 = wake_sleeping (upd_stats count_tick (tick s)); current_tick = ticks s1 in
     if current_tick = 0 \<or> current_tick mod 10 \<noteq> 0 then Some (Ret (sp, s1))
     else if CURRENT_TASK s1 \<ge> MAX_TASKS then Some Panic
     else (case reschedule a stk sp s1 of None \<Rightarrow> None | Some r \<Rightarrow> Some (Ret r)))"

section \<open>The end of a task\<close>

definition free_data_frames :: "arch \<Rightarrow> Task \<Rightarrow> frame_state \<Rightarrow> frame_state outcome" where
  "free_data_frames a t s = (if user_data_frame_count t \<le> length (user_data_frames t)
    then Ret (fold (\<lambda>pa s. if pa \<noteq> 0 then deallocate_frame (from_addr a pa) s else s)
      (take (user_data_frame_count t) (user_data_frames t)) s)
    else Panic)"

text \<open>
  \<open>exit_current_task\<close> on x86-64.  The first component is the value returned, \<open>None\<close> when the
  call ends in the idle loop that only the scheduler leaves.
\<close>

definition exit_current_task :: "sched \<Rightarrow> (u64 option \<times> sched) outcome" where
  "exit_current_task s =
    (if CURRENT_TASK s = 0 then Ret (Some (- 1), s)
     else if CURRENT_TASK s \<ge> MAX_TASKS then Panic
     else let task = TASKS s (CURRENT_TASK s) in
       obind (free_data_frames X86_64 task (fr (mach s))) (\<lambda>f1.
       let m1 = (mach s)\<lparr>fr := f1\<rparr>; kernel_cr3 = page_table_root (TASKS s 0);
           m2 = (if page_table_root task \<noteq> kernel_cr3 \<and> page_table_root task \<noteq> 0
             then free_user_page_tables (page_table_root task) m1 else m1);
           s1 = upd_task (CURRENT_TASK s) (\<lambda>t. t\<lparr>state := Unused\<rparr>) (s\<lparr>mach := m2\<rparr>) in
       Ret (None, s1\<lparr>mach := (mach s1)\<lparr>cr3 := kernel_cr3\<rparr>\<rparr>)))"

section \<open>The choice of the next task\<close>

definition round_robin :: "(nat \<Rightarrow> Task) \<Rightarrow> nat \<Rightarrow> nat" where
  "round_robin T start = (case scan (\<lambda>k. state (T ((start + k) mod MAX_TASKS)) = Ready) 0 MAX_TASKS of
     Some k \<Rightarrow> (start + k) mod MAX_TASKS | None \<Rightarrow> 0)"

lemma scan_skip: "\<lbrakk>lo < hi; \<not> p lo\<rbrakk> \<Longrightarrow> scan p lo hi = scan p (Suc lo) hi"
  by (simp add: scan_def upt_conv_Cons)

lemma scan_skip_all: "\<lbrakk>lo \<le> k; k \<le> hi; \<And>j. \<lbrakk>lo \<le> j; j < k\<rbrakk> \<Longrightarrow> \<not> p j\<rbrakk> \<Longrightarrow> scan p lo hi = scan p k hi"
proof (induction "k - lo" arbitrary: lo)
  case (Suc d)
  then have "scan p lo hi = scan p (Suc lo) hi" by (intro scan_skip) auto
  also have "\<dots> = scan p k hi" using Suc by auto
  finally show ?case .
qed auto

lemma cyclic_next:
  assumes "start < MAX_TASKS" "k < MAX_TASKS"
  shows "((start + k) mod MAX_TASKS + 1) mod MAX_TASKS = start \<longleftrightarrow> Suc k = MAX_TASKS"
proof -
  have "((start + k) mod MAX_TASKS + 1) mod MAX_TASKS = (start + Suc k) mod MAX_TASKS"
    by (simp add: mod_simps)
  moreover have "(start + Suc k) mod MAX_TASKS = start \<longleftrightarrow> Suc k = MAX_TASKS"
  proof (cases "start + Suc k < MAX_TASKS")
    case True
    then show ?thesis by simp
  next
    case False
    then have "(start + Suc k) mod MAX_TASKS = start + Suc k - MAX_TASKS"
      using assms by (simp add: le_mod_geq)
    then show ?thesis using False assms by auto
  qed
  ultimately show ?thesis by simp
qed

lemma next_loop_from:
  assumes start: "start < MAX_TASKS" and k: "k < MAX_TASKS"
    and skipped: "\<And>j. j < k \<Longrightarrow> state (T ((start + j) mod MAX_TASKS)) \<noteq> Ready"
  shows "next_loop T start ((start + k) mod MAX_TASKS) = Some (round_robin T start)"
  using k skipped
proof (induction "MAX_TASKS - k" arbitrary: k)
  case (Suc d)
  let ?p = "\<lambda>k. state (T ((start + k) mod MAX_TASKS)) = Ready"
  have from_k: "scan ?p 0 MAX_TASKS = scan ?p k MAX_TASKS" using Suc.prems by (intro scan_skip_all) auto
  show ?case
  proof (cases "?p k")
    case True
    then have "scan ?p k MAX_TASKS = Some k" using Suc.prems by (auto simp: scan_Some_iff)
    then show ?thesis using True from_k
      by (subst next_loop.simps) (simp add: round_robin_def)
  next
    case False
    show ?thesis
    proof (cases "Suc k = MAX_TASKS")
      case True
      then have "scan ?p k MAX_TASKS = None" 
        unfolding scan_None_iff using False by (metis le_less_Suc_eq)
      then show ?thesis using False True from_k cyclic_next[OF start, of k]
        by (subst next_loop.simps) (simp add: round_robin_def Let_def)
    next
      case next': False
      have eq: "((start + k) mod MAX_TASKS + 1) mod MAX_TASKS = (start + Suc k) mod MAX_TASKS"
        by (simp add: mod_simps)
      have "next_loop T start ((start + Suc k) mod MAX_TASKS) = Some (round_robin T start)"
        using Suc next' False by (intro Suc.hyps(1)) (auto simp: less_Suc_eq)
      moreover have "(start + Suc k) mod MAX_TASKS \<noteq> start"
        using cyclic_next[OF start, of k] next' Suc.prems(1) eq by simp
      ultimately show ?thesis using False eq by (subst next_loop.simps) (simp add: Let_def)
    qed
  qed
qed simp

lemma next_loop_round_robin:
  assumes "start < MAX_TASKS"
  shows "next_loop T start start = Some (round_robin T start)"
  using next_loop_from[OF assms, of 0 T] assms by (simp add: MAX_TASKS_def)

lemma round_robin_less: "start < MAX_TASKS \<Longrightarrow> round_robin T start < MAX_TASKS"
  by (simp add: round_robin_def MAX_TASKS_def split: option.split)

section \<open>The first frame of a task\<close>

lemma push64_eq: "push64 v p = (fst p - 8, (snd p)(fst p - 8 := v))"
  by (simp add: push64_def split: prod.split)

lemma push_words:
  assumes "8 * length vs < 2 ^ 64"
  shows "fst (fold push64 vs (sp, mem)) = sp - of_nat (8 * length vs)"
    "i < length vs \<Longrightarrow> snd (fold push64 vs (sp, mem)) (sp - of_nat (8 * Suc i)) = vs ! i"
    "(\<And>i. i < length vs \<Longrightarrow> b \<noteq> sp - of_nat (8 * Suc i)) \<Longrightarrow> snd (fold push64 vs (sp, mem)) b = mem b"
  using assms
proof (induction vs arbitrary: sp mem i rule: rev_induct)
  case (snoc v vs)
  {
    case 1
    then show ?case using snoc(1)[of sp mem] by (simp add: push64_eq[of v])
  next
    case 2
    have neq: "(of_nat (8 * Suc i) :: u64) \<noteq> of_nat (8 * Suc (length vs))" if "i < length vs"
      using that 2(2) by (subst word_of_nat_eq_iff) (simp add: take_bit_nat_eq_self)
    show ?case
    proof (cases "i = length vs")
      case True
      then show ?thesis using snoc(1)[of sp mem] 2(2) by (simp add: push64_eq[of v])
    next
      case False
      then have "i < length vs" using 2 by simp
      then show ?thesis using snoc(1)[of sp mem] snoc(2)[of i sp mem] 2(2) neq
        by (simp add: push64_eq[of v] nth_append)
    qed
  next
    case 3
    have "b \<noteq> sp - of_nat (8 * Suc (length vs))" using 3(1)[of "length vs"] by simp
    moreover have "sp - of_nat (8 * Suc (length vs)) = sp - of_nat (8 * length vs) - 8" by (simp add: algebra_simps)
    moreover have "fst (fold push64 vs (sp, mem)) = sp - of_nat (8 * length vs)" using snoc(1)[of sp mem] 3(2) by simp
    ultimately have "b \<noteq> fst (fold push64 vs (sp, mem)) - 8" by metis
    moreover have "snd (fold push64 vs (sp, mem)) b = mem b" using snoc(3)[of sp mem] 3 by simp
    ultimately show ?case by (simp add: push64_eq[of v])
  }
qed simp_all

lemma zero_area_eq:
  "fst (zero_area p) = fst p - 256"
  "(\<And>j. j < 32 \<Longrightarrow> b \<noteq> fst p - 256 + of_nat j * 8) \<Longrightarrow> snd (zero_area p) b = snd p b"
proof -
  have keep: "(\<And>j. j \<in> set js \<Longrightarrow> b \<noteq> x + of_nat j * 8) \<Longrightarrow> fold (\<lambda>j m. m(x + of_nat j * 8 := 0)) js mem b = mem b"
    for js x and mem :: "usize \<Rightarrow> u64"
    by (induction js arbitrary: mem) auto
  show "(\<And>j. j < 32 \<Longrightarrow> b \<noteq> fst p - 256 + of_nat j * 8) \<Longrightarrow> snd (zero_area p) b = snd p b"
    by (cases p) (simp only: zero_area_def prod.case snd_conv fst_conv, rule keep, simp)
  show "fst (zero_area p) = fst p - 256" by (cases p) (simp add: zero_area_def)
qed

lemma word_neq_by_unat: "unat a \<noteq> unat b \<Longrightarrow> a \<noteq> b" by auto



end
