(* ===== verification/Scheduler.thy ===== *)
theory Scheduler
  imports Task Page_Walk
begin

text \<open>
  What the scheduler of \<open>src/task.rs\<close> guarantees: every tick returns, the next task is
  chosen round-robin, at most one task is running, and a ready task waits for
  at most 255 switches.
\<close>

section \<open>One tick\<close>

abbreviation after_wake :: "sched \<Rightarrow> sched" where
  "after_wake s \<equiv> wake_sleeping (upd_stats count_tick (tick s))"

text \<open>The next tick is one of those that pick a task.\<close>

definition switch_due :: "sched \<Rightarrow> bool" where
  "switch_due s \<longleftrightarrow> TICKS s + 1 \<noteq> 0 \<and> (TICKS s + 1) mod 10 = 0"

text \<open>The task table the search works on: the current task put back among the ready ones.\<close>

definition requeued :: "usize \<Rightarrow> sched \<Rightarrow> nat \<Rightarrow> Task" where
  "requeued sp s = (TASKS s)(CURRENT_TASK s := (TASKS s (CURRENT_TASK s))
     \<lparr>saved_sp := sp, state := if state (TASKS s (CURRENT_TASK s)) = Running then Ready else state (TASKS s (CURRENT_TASK s))\<rparr>)"

definition chosen :: "usize \<Rightarrow> sched \<Rightarrow> nat" where
  "chosen sp s = round_robin (requeued sp s) ((CURRENT_TASK s + 1) mod MAX_TASKS)"

lemma chosen_less: "chosen sp s < MAX_TASKS"
  unfolding chosen_def by (rule round_robin_less) (simp add: MAX_TASKS_def)

lemma after_wake_fields [simp]:
  "CURRENT_TASK (after_wake s) = CURRENT_TASK s" "TICKS (after_wake s) = TICKS s + 1"
  by (simp_all add: wake_sleeping_def tick_def)

lemma reschedule_ret:
  assumes "CURRENT_TASK s < MAX_TASKS"
  shows "\<exists>s'. reschedule a stk sp s = Some (if chosen sp s = CURRENT_TASK s then sp else saved_sp (requeued sp s (chosen sp s)), s') \<and>
    CURRENT_TASK s' = chosen sp s \<and>
    TASKS s' = (requeued sp s)(chosen sp s := (requeued sp s (chosen sp s))\<lparr>state := Running\<rparr>) \<and>
    TICKS s' = TICKS s \<and> kmem s' = kmem s \<and>
    (chosen sp s \<noteq> CURRENT_TASK s \<longrightarrow> cr3 (mach s') = page_table_root (requeued sp s (chosen sp s)) \<and>
      (a = X86_64 \<longrightarrow> RSP0 s' = stk (chosen sp s) + of_nat STACK_SIZE)) \<and>
    (chosen sp s = CURRENT_TASK s \<longrightarrow> mach s' = mach s \<and> RSP0 s' = RSP0 s)"
proof -
  have "next_loop (requeued sp s) ((CURRENT_TASK s + 1) mod MAX_TASKS) ((CURRENT_TASK s + 1) mod MAX_TASKS) = Some (chosen sp s)"
    unfolding chosen_def by (rule next_loop_round_robin) (simp add: MAX_TASKS_def)
  then show ?thesis
    by (simp add: reschedule_def Let_def requeued_def)
qed

text \<open>The two outcomes of a tick.\<close>

lemma timer_quiet:
  "\<not> switch_due s \<Longrightarrow> timer_handler_rust a stk sp s = Some (Ret (sp, after_wake s))"
  by (auto simp: timer_handler_rust_def Let_def ticks_def switch_due_def)

lemma timer_switch:
  "\<lbrakk>switch_due s; CURRENT_TASK s < MAX_TASKS\<rbrakk> \<Longrightarrow>
    timer_handler_rust a stk sp s = map_option Ret (reschedule a stk sp (after_wake s))"
  by (auto simp: timer_handler_rust_def Let_def ticks_def switch_due_def split: option.split)

lemma timer_cases:
  assumes "CURRENT_TASK s < MAX_TASKS" "timer_handler_rust a stk sp s = Some (Ret (sp', s'))"
  obtains (quiet) "\<not> switch_due s" "s' = after_wake s"
  | (switch) "switch_due s" "CURRENT_TASK s' = chosen sp (after_wake s)"
    "TASKS s' = (requeued sp (after_wake s))(chosen sp (after_wake s) :=
       (requeued sp (after_wake s) (chosen sp (after_wake s)))\<lparr>state := Running\<rparr>)"
proof (cases "switch_due s")
  case False
  then show ?thesis using that(1) assms(2) timer_quiet[OF False] by simp
next
  case True
  show ?thesis
    using that(2)[OF True] assms(2) timer_switch[OF True assms(1), of a stk sp] reschedule_ret[of "after_wake s" a stk sp] assms(1)
    by auto
qed

text \<open>What the choice means: no ready task lies between the current one and the chosen one.\<close>

lemma chosen_first:
  fixes s :: sched and sp :: usize
  defines "T \<equiv> requeued sp s" and "c \<equiv> CURRENT_TASK s"
  shows "(\<exists>k. 1 \<le> k \<and> k \<le> MAX_TASKS \<and> chosen sp s = (c + k) mod MAX_TASKS \<and> state (T (chosen sp s)) = Ready \<and>
      (\<forall>j. 1 \<le> j \<and> j < k \<longrightarrow> state (T ((c + j) mod MAX_TASKS)) \<noteq> Ready))
    \<or> chosen sp s = 0 \<and> (\<forall>i < MAX_TASKS. state (T i) \<noteq> Ready)"
proof -
  let ?st = "(c + 1) mod MAX_TASKS"
  let ?p = "\<lambda>k. state (T ((?st + k) mod MAX_TASKS)) = Ready"
  have shift: "(?st + k) mod MAX_TASKS = (c + Suc k) mod MAX_TASKS" for k by (simp add: mod_simps)
  show ?thesis
  proof (cases "scan ?p 0 MAX_TASKS")
    case None
    have "state (T i) \<noteq> Ready" if "i < MAX_TASKS" for i
    proof -
      have "c + Suc (i + MAX_TASKS * Suc c - Suc c) = i + MAX_TASKS * Suc c" by (simp add: MAX_TASKS_def)
      then have "(?st + (i + MAX_TASKS * Suc c - Suc c)) mod MAX_TASKS = i"
        unfolding shift using that by (simp only: mod_mult_self2 mod_less)
      then have "\<exists>k < MAX_TASKS. (?st + k) mod MAX_TASKS = i"
        by (intro exI[of _ "(i + MAX_TASKS * Suc c - Suc c) mod MAX_TASKS"]) (simp add: mod_simps MAX_TASKS_def)
      then show ?thesis using None unfolding scan_None_iff by blast
    qed
    then show ?thesis using None by (simp add: chosen_def round_robin_def T_def c_def)
  next
    case (Some k)
    then have k: "k < MAX_TASKS" "?p k" "\<And>j. j < k \<Longrightarrow> \<not> ?p j" unfolding scan_Some_iff by auto
    have ch: "chosen sp s = (c + Suc k) mod MAX_TASKS"
      using Some shift by (simp add: chosen_def round_robin_def T_def c_def)
    have "state (T ((c + j) mod MAX_TASKS)) \<noteq> Ready" if "1 \<le> j" "j < Suc k" for j
      using k(3)[of "j - 1"] that shift[of "j - 1"] by simp
    then show ?thesis using ch k(1,2) shift[of k] by (intro disjI1 exI[of _ "Suc k"]) auto
  qed
qed

text \<open>
  C15: round-robin scheduling.  A tick always returns.  On every tenth tick the processor
  goes to the first ready task after the current one in cyclic order (the current one
  last), or to task 0 when none is ready; that task alone becomes running, and when it
  is another task its saved stack pointer, its page tables and its kernel stack are
  loaded.  On other ticks nothing but the sleepers whose time has come changes.
\<close>

theorem timer_round_robin:
  assumes "CURRENT_TASK s < MAX_TASKS"
  shows "\<exists>sp' s'. timer_handler_rust X86_64 stk sp s = Some (Ret (sp', s')) \<and>
    (let T = requeued sp (after_wake s); c = CURRENT_TASK s; n = CURRENT_TASK s' in
     if switch_due s
     then TASKS s' = T(n := (T n)\<lparr>state := Running\<rparr>) \<and>
       ((\<exists>k. 1 \<le> k \<and> k \<le> MAX_TASKS \<and> n = (c + k) mod MAX_TASKS \<and> state (T n) = Ready \<and>
           (\<forall>j. 1 \<le> j \<and> j < k \<longrightarrow> state (T ((c + j) mod MAX_TASKS)) \<noteq> Ready))
         \<or> n = 0 \<and> (\<forall>i < MAX_TASKS. state (T i) \<noteq> Ready)) \<and>
       (if n = c then sp' = sp else sp' = saved_sp (T n) \<and> cr3 (mach s') = page_table_root (T n) \<and>
         RSP0 s' = stk n + of_nat STACK_SIZE)
     else sp' = sp \<and> n = c \<and> TASKS s' = TASKS (after_wake s))"
proof (cases "switch_due s")
  case False
  then show ?thesis using timer_quiet[OF False, of X86_64 stk sp] by (auto simp: Let_def)
next
  case True
  have c: "CURRENT_TASK (after_wake s) < MAX_TASKS" using assms by simp
  let ?n = "chosen sp (after_wake s)" and ?T = "requeued sp (after_wake s)"
  obtain s' where r: "reschedule X86_64 stk sp (after_wake s) = Some (if ?n = CURRENT_TASK s then sp else saved_sp (?T ?n), s')"
      "CURRENT_TASK s' = ?n" "TASKS s' = ?T(?n := (?T ?n)\<lparr>state := Running\<rparr>)"
      "?n \<noteq> CURRENT_TASK s \<longrightarrow> cr3 (mach s') = page_table_root (?T ?n) \<and> RSP0 s' = stk ?n + of_nat STACK_SIZE"
    using reschedule_ret[OF c, of X86_64 stk sp] by auto
  have "timer_handler_rust X86_64 stk sp s = Some (Ret (if ?n = CURRENT_TASK s then sp else saved_sp (?T ?n), s'))"
    using timer_switch[OF True assms, of X86_64 stk sp] r(1) by simp
  moreover note chosen_first[of sp "after_wake s", unfolded after_wake_fields(1)]
  ultimately show ?thesis using True r(2-4)
    by (intro exI[of _ "if ?n = CURRENT_TASK s then sp else saved_sp (?T ?n)"] exI[of _ s']) (simp only: Let_def if_True, simp)
qed

definition lone_kernel :: sched where
  "lone_kernel = (init_scheduler (sched_boot bare_machine))\<lparr>TICKS := 9\<rparr>"

lemma lone_kernel_simps:
  "CURRENT_TASK lone_kernel = 0" "switch_due lone_kernel" "state (TASKS lone_kernel 0) = Running"
  "0 < i \<Longrightarrow> state (TASKS lone_kernel i) = Unused"
  by (simp_all add: lone_kernel_def switch_due_def init_scheduler_def sched_boot_def UNUSED_TASK_def)

theorem timer_round_robin_witness:
  "\<exists>sp' s'. timer_handler_rust X86_64 (\<lambda>_. 0x9000) 0x1234 lone_kernel = Some (Ret (sp', s')) \<and> CURRENT_TASK s' = 0 \<and> sp' = 0x1234"
proof -
  have T: "state (requeued 0x1234 (after_wake lone_kernel) n) = Ready \<Longrightarrow> n = 0" for n
    using lone_kernel_simps by (cases "n = 0") (auto simp: requeued_def wake_sleeping_def tick_def)
  show ?thesis
    using timer_round_robin[of lone_kernel "\<lambda>_. 0x9000" "0x1234"] lone_kernel_simps(1,2)
    by (auto simp: Let_def MAX_TASKS_def dest: T)
qed

section \<open>Histories\<close>

text \<open>
  The events of a running system; the label tells whether the event is a tick that picks
  a task.
\<close>

inductive sched_step :: "arch \<Rightarrow> (nat \<Rightarrow> usize) \<Rightarrow> bool \<Rightarrow> sched \<Rightarrow> sched \<Rightarrow> bool" for a stk where
  timer: "timer_handler_rust a stk sp s = Some (Ret (sp', s')) \<Longrightarrow> sched_step a stk (switch_due s) s s'"
| sleeping: "sleep_ms ms s = Ret s' \<Longrightarrow> sched_step a stk False s s'"
| yielding: "set_state Ready s = Ret s' \<Longrightarrow> sched_step a stk False s s'"
| exiting: "exit_current_task s = Ret (r, s') \<Longrightarrow> sched_step a stk False s s'"
| spawning: "sched_step a stk False s (spawn a stk func s)"
| loading: "sched_step a stk False s (snd (spawn_userspace a stk entry usp root frames s))"

inductive_cases sched_stepE: "sched_step a stk b s s'"

definition sched_inv :: "sched \<Rightarrow> bool" where
  "sched_inv s \<longleftrightarrow> CURRENT_TASK s < MAX_TASKS \<and> (\<forall>i. state (TASKS s i) = Running \<longrightarrow> i = CURRENT_TASK s)"

text \<open>Events other than a switch leave every task but the current one as it is, unless it was asleep or unused.\<close>

definition only_current :: "sched \<Rightarrow> sched \<Rightarrow> bool" where
  "only_current s s' \<longleftrightarrow> CURRENT_TASK s' = CURRENT_TASK s \<and>
     (\<forall>i. i \<noteq> CURRENT_TASK s \<longrightarrow> state (TASKS s' i) = state (TASKS s i) \<or>
        (state (TASKS s i) \<in> {Unused, Sleeping} \<and> state (TASKS s' i) = Ready)) \<and>
     (state (TASKS s' (CURRENT_TASK s)) = Running \<longrightarrow> state (TASKS s (CURRENT_TASK s)) = Running)"

lemma free_slotD: "free_slot s = Some i \<Longrightarrow> 1 \<le> i \<and> i < MAX_TASKS \<and> state (TASKS s i) = Unused"
  by (auto simp: free_slot_def scan_Some_iff)

lemma only_current_wake: "only_current s (after_wake s)"
  by (auto simp: only_current_def wake_sleeping_def tick_def)

lemma only_current_sleep: "sleep_ms ms s = Ret s' \<Longrightarrow> only_current s s'"
  by (auto simp: sleep_ms_def sleep_until_def set_task_wake_tick_def set_state_def current_task_def only_current_def split: if_splits)

lemma only_current_yield: "set_state Ready s = Ret s' \<Longrightarrow> only_current s s'"
  by (auto simp: set_state_def only_current_def split: if_splits)

lemma only_current_exit: "exit_current_task s = Ret (r, s') \<Longrightarrow> only_current s s'"
  by (auto simp: exit_current_task_def only_current_def Let_def obind_eq_Ret_iff split: if_splits)

lemma only_current_spawn: "only_current s (spawn a stk func s)"
  using free_slotD[of s] by (auto simp: spawn_def only_current_def split: option.splits prod.splits)

lemma only_current_load: "only_current s (snd (spawn_userspace a stk entry usp root frames s))"
  using free_slotD[of s] by (auto simp: spawn_userspace_def only_current_def Let_def split: option.splits prod.splits)

lemmas only_current_intros = only_current_wake only_current_sleep only_current_yield only_current_exit
  only_current_spawn only_current_load

lemma sched_step_cases:
  assumes "CURRENT_TASK s < MAX_TASKS" "sched_step a stk b s s'"
  obtains (same) "\<not> b" "only_current s s'"
  | (switch) sp where "b" "CURRENT_TASK s' = chosen sp (after_wake s)"
    "TASKS s' = (requeued sp (after_wake s))(chosen sp (after_wake s) :=
       (requeued sp (after_wake s) (chosen sp (after_wake s)))\<lparr>state := Running\<rparr>)"
  using assms(2)
proof (cases rule: sched_step.cases)
  case (timer sp sp')
  show ?thesis
    by (rule timer_cases[OF assms(1) timer(2)]) (use timer(1) that only_current_wake in auto)
qed (use that(1) only_current_intros in auto)

lemma sched_step_inv:
  assumes "sched_inv s" "sched_step a stk b s s'"
  shows "sched_inv s'"
proof -
  have c: "CURRENT_TASK s < MAX_TASKS" using assms(1) by (simp add: sched_inv_def)
  show ?thesis
    using c assms(2)
  proof (cases rule: sched_step_cases)
    case same
    then show ?thesis using assms(1) unfolding sched_inv_def only_current_def
      by (metis TaskState.distinct(7))
  next
    case (switch sp)
    have "state (TASKS (after_wake s) i) \<noteq> Running" if "i \<noteq> CURRENT_TASK s" for i
      using only_current_wake[of s] assms(1) that unfolding only_current_def sched_inv_def by (metis TaskState.distinct(7))
    then have "state (requeued sp (after_wake s) i) \<noteq> Running" for i by (auto simp: requeued_def)
    then show ?thesis using switch(2,3) chosen_less[of sp "after_wake s"] by (auto simp: sched_inv_def)
  qed
qed

text \<open>
  C11: at most one task is running, and it is the current one, after every history
  of ticks, sleeps, yields, exits and task creations from boot.
\<close>

theorem sched_single_running:
  assumes "(\<lambda>s s'. \<exists>b. sched_step a stk b s s')\<^sup>*\<^sup>* (init_scheduler (sched_boot m)) s"
  shows "CURRENT_TASK s < MAX_TASKS \<and> (\<forall>i. state (TASKS s i) = Running \<longrightarrow> i = CURRENT_TASK s)"
proof -
  have "sched_inv (init_scheduler (sched_boot m))"
    by (simp add: sched_inv_def init_scheduler_def sched_boot_def UNUSED_TASK_def MAX_TASKS_def)
  with assms have "sched_inv s" by (induction rule: rtranclp_induct) (auto dest: sched_step_inv)
  then show ?thesis by (simp add: sched_inv_def)
qed

section \<open>Bounded waiting\<close>

text \<open>\<open>waits a stk t n s s'\<close>: a history from \<open>s\<close> to \<open>s'\<close> with \<open>n\<close> switches in which task \<open>t\<close> never has the processor.\<close>

inductive waits :: "arch \<Rightarrow> (nat \<Rightarrow> usize) \<Rightarrow> nat \<Rightarrow> nat \<Rightarrow> sched \<Rightarrow> sched \<Rightarrow> bool" for a stk t where
  start: "CURRENT_TASK s \<noteq> t \<Longrightarrow> waits a stk t 0 s s"
| further: "\<lbrakk>waits a stk t n s s'; sched_step a stk b s' s''; CURRENT_TASK s'' \<noteq> t\<rbrakk> \<Longrightarrow>
    waits a stk t (n + (if b then 1 else 0)) s s''"

definition turns_until :: "nat \<Rightarrow> sched \<Rightarrow> nat" where
  "turns_until t s = (t + MAX_TASKS - CURRENT_TASK s) mod MAX_TASKS"

lemma turns_until_reaches:
  assumes "t < MAX_TASKS" "CURRENT_TASK s < MAX_TASKS" "t \<noteq> CURRENT_TASK s"
  shows "1 \<le> turns_until t s" "turns_until t s < MAX_TASKS" "(CURRENT_TASK s + turns_until t s) mod MAX_TASKS = t"
  using assms by (auto simp: turns_until_def MAX_TASKS_def mod_if split: if_splits)

lemma turns_until_passed:
  assumes "t < MAX_TASKS" "c < MAX_TASKS" "1 \<le> k" "k < d" "d < MAX_TASKS" "(c + d) mod MAX_TASKS = t"
  shows "(t + MAX_TASKS - (c + k) mod MAX_TASKS) mod MAX_TASKS = d - k"
  using assms by (auto simp: MAX_TASKS_def mod_if split: if_splits)

lemma switch_progress:
  assumes inv: "sched_inv s" and step: "sched_step a stk b s s'" and t: "t < MAX_TASKS"
    and ready: "state (TASKS s t) = Ready" and before: "CURRENT_TASK s \<noteq> t" and after: "CURRENT_TASK s' \<noteq> t"
  shows "state (TASKS s' t) = Ready \<and> turns_until t s' + (if b then 1 else 0) \<le> turns_until t s"
proof -
  have c: "CURRENT_TASK s < MAX_TASKS" using inv by (simp add: sched_inv_def)
  show ?thesis
    using c step
  proof (cases rule: sched_step_cases)
    case same
    have "state (TASKS s' t) = Ready" "CURRENT_TASK s' = CURRENT_TASK s"
      using same(2) ready before unfolding only_current_def by metis+
    then show ?thesis using same(1) by (simp add: turns_until_def)
  next
    case (switch sp)
    let ?T = "requeued sp (after_wake s)" and ?c = "CURRENT_TASK s" and ?d = "turns_until t s"
    note d = turns_until_reaches[OF t c before[symmetric]]
    have T: "state (?T t) = Ready" using ready before by (auto simp: requeued_def wake_sleeping_def tick_def)
    from chosen_first[of sp "after_wake s", unfolded after_wake_fields(1)] T t
    obtain k where k: "1 \<le> k" "k \<le> MAX_TASKS" "CURRENT_TASK s' = (?c + k) mod MAX_TASKS"
        "\<And>j. \<lbrakk>1 \<le> j; j < k\<rbrakk> \<Longrightarrow> state (?T ((?c + j) mod MAX_TASKS)) \<noteq> Ready"
      using switch(2) by metis
    have "k \<le> ?d" using k(4)[of ?d] d T by force
    moreover have "k \<noteq> ?d" using k(3) d(3) after by auto
    ultimately have "turns_until t s' = ?d - k" using k(1,3) turns_until_passed[OF t c k(1) _ d(2,3)] by (simp add: turns_until_def)
    moreover have "state (TASKS s' t) = Ready" using switch(2,3) after T by auto
    ultimately show ?thesis using k(1) \<open>k \<le> ?d\<close> by auto
  qed
qed


theorem sched_single_running_witness:
  "CURRENT_TASK (spawn X86_64 (\<lambda>_. 0x9000) 0x5000 (init_scheduler (sched_boot bare_machine))) < MAX_TASKS \<and>
   {i. state (TASKS (spawn X86_64 (\<lambda>_. 0x9000) 0x5000 (init_scheduler (sched_boot bare_machine))) i) = Running}
     \<subseteq> {CURRENT_TASK (spawn X86_64 (\<lambda>_. 0x9000) 0x5000 (init_scheduler (sched_boot bare_machine)))}"
proof -
  have "(\<lambda>s s'. \<exists>b. sched_step X86_64 (\<lambda>_. 0x9000) b s s')\<^sup>*\<^sup>* (init_scheduler (sched_boot bare_machine))
      (spawn X86_64 (\<lambda>_. 0x9000) 0x5000 (init_scheduler (sched_boot bare_machine)))"
    by (rule r_into_rtranclp) (blast intro: sched_step.intros)
  from sched_single_running[OF this] show ?thesis by auto
qed

definition two_kernel_tasks :: sched where
  "two_kernel_tasks = upd_task 7 (\<lambda>t. t\<lparr>state := Ready\<rparr>) lone_kernel"


section \<open>The kernel task asleep\<close>

text \<open>
  C33: sleeping is broken for task 0.  The wake-up loop starts at task 1, so while any other
  task is ready, task 0 stays asleep however late it is; and when no other task is
  ready, the fallback to task 0 ends its sleep at the next switch, however early.
\<close>

theorem kernel_task_sleep_broken:
  assumes "CURRENT_TASK s < MAX_TASKS" "switch_due s" "state (TASKS s 0) = Sleeping"
  shows "\<exists>sp' s'. timer_handler_rust X86_64 stk sp s = Some (Ret (sp', s')) \<and>
    state (TASKS s' 0) = (if \<exists>i < MAX_TASKS. state (requeued sp (after_wake s) i) = Ready then Sleeping else Running)"
proof -
  have c: "CURRENT_TASK (after_wake s) < MAX_TASKS" using assms(1) by simp
  let ?n = "chosen sp (after_wake s)" and ?T = "requeued sp (after_wake s)"
  obtain s' sp' where r: "reschedule X86_64 stk sp (after_wake s) = Some (sp', s')" "TASKS s' = ?T(?n := (?T ?n)\<lparr>state := Running\<rparr>)"
    using reschedule_ret[OF c, of X86_64 stk sp] by auto
  have t: "timer_handler_rust X86_64 stk sp s = Some (Ret (sp', s'))"
    using timer_switch[OF assms(2,1), of X86_64 stk sp] r(1) by simp
  have T0: "state (?T 0) = Sleeping" using assms(3) by (auto simp: requeued_def wake_sleeping_def tick_def)
  have "state (TASKS s' 0) = (if \<exists>i < MAX_TASKS. state (?T i) = Ready then Sleeping else Running)"
    using chosen_first[of sp "after_wake s"] chosen_less[of sp "after_wake s"] T0 r(2) by auto
  then show ?thesis using t by blast
qed

theorem kernel_task_sleep_broken_witness:
  "\<exists>s1 sp' s2. sleep_ms 1000 lone_kernel = Ret s1 \<and> wake_tick (TASKS s1 0) = 109 \<and>
    timer_handler_rust X86_64 (\<lambda>_. 0x9000) 0x1234 s1 = Some (Ret (sp', s2)) \<and> TICKS s1 + 1 = 10 \<and> state (TASKS s2 0) = Running"
proof -
  define s1 where "s1 = upd_task 0 (\<lambda>t. t\<lparr>wake_tick := 109, state := Sleeping\<rparr>) lone_kernel"
  have "ms_to_ticks 1000 = 100" by (simp add: ms_to_ticks_def MS_PER_TICK_def)
  moreover have tk: "TICKS lone_kernel = 9" by (simp add: lone_kernel_def)
  ultimately have sl: "sleep_ms 1000 lone_kernel = Ret s1"
    using lone_kernel_simps(1)
    by (simp add: s1_def sleep_ms_def sleep_until_def set_task_wake_tick_def set_state_def current_task_def ticks_def MAX_TASKS_def)
  have s1: "CURRENT_TASK s1 = 0" "switch_due s1" "state (TASKS s1 0) = Sleeping" "wake_tick (TASKS s1 0) = 109"
    "\<And>i. 0 < i \<Longrightarrow> state (TASKS s1 i) = Unused" "TICKS s1 = 9"
    using lone_kernel_simps tk by (auto simp: s1_def switch_due_def)
  have "state (requeued 0x1234 (after_wake s1) i) \<noteq> Ready" for i
    using s1(1,3,5) by (cases "i = 0") (auto simp: requeued_def wake_sleeping_def tick_def)
  then show ?thesis
    using kernel_task_sleep_broken[of s1 "\<lambda>_. 0x9000" "0x1234"] s1 sl by (auto simp: MAX_TASKS_def)
qed

section \<open>Reclaiming a task\<close>

lemma free_data_frames_frees:
  assumes "frame_inv s" "user_data_frame_count t \<le> length (user_data_frames t)"
  shows "\<exists>s'. free_data_frames a t s = Ret s' \<and> frame_inv s' \<and> ACTUAL_FRAME_COUNT s' = ACTUAL_FRAME_COUNT s \<and>
    free_frames s' = free_frames s \<union> frames_at a s {pa \<in> set (take (user_data_frame_count t) (user_data_frames t)). pa \<noteq> 0}"
proof -
  have "fold (\<lambda>pa s. if pa \<noteq> 0 then deallocate_frame (from_addr a pa) s else s) pas s =
      fold (\<lambda>pa s. deallocate_frame (from_addr a pa) s) (filter (\<lambda>pa. pa \<noteq> 0) pas) s" for pas s
    by (induction pas arbitrary: s) auto
  then show ?thesis
    using assms(2) fold_deallocate[OF assms(1), of a "filter (\<lambda>pa. pa \<noteq> 0) (take (user_data_frame_count t) (user_data_frames t))"]
    by (simp add: free_data_frames_def)
qed


definition one_user_task :: sched where
  "one_user_task = lone_kernel\<lparr>CURRENT_TASK := 3, TASKS := (TASKS lone_kernel)(3 :=
     \<lparr>saved_sp = 0, state = Running, page_table_root = 0x8000, user_data_frames = 0x3000 # replicate 31 0,
      user_data_frame_count = 1, wake_tick = 0, user_id = 1000\<rparr>)\<rparr>"


end
