(* ===== verification/Usercopy.thy ===== *)
theory Usercopy
  imports Page_Walk Bytes
begin

text \<open>
  Copying between the kernel and user memory (\<open>src/usercopy.rs\<close>).  The kernel accesses an
  address through the page tables in \<open>cr3\<close>; an access without a translation is a kernel
  page fault, which stops the machine (\<open>src/arch/x86_64/page_fault.rs\<close>), here \<open>Panic\<close>.
  \<open>CR0.WP\<close> is not set (\<open>boot.S\<close>), so a kernel write ignores the write permission.
\<close>

section \<open>Memory through the page tables\<close>

definition page_offset :: "usize \<Rightarrow> usize" where "page_offset va = va AND 0xFFF"

definition phys_of :: "machine \<Rightarrow> usize \<Rightarrow> usize option" where
  "phys_of m va = (case translate (cr3 m) va m of None \<Rightarrow> None | Some mp \<Rightarrow> Some (phys mp + page_offset va))"

definition vread :: "machine \<Rightarrow> usize \<Rightarrow> u8 outcome" where
  "vread m va = (case phys_of m va of None \<Rightarrow> Panic | Some pa \<Rightarrow> Ret (bytes m pa))"

definition vwrite :: "usize \<Rightarrow> u8 \<Rightarrow> machine \<Rightarrow> machine outcome" where
  "vwrite va b m = (case phys_of m va of None \<Rightarrow> Panic | Some pa \<Rightarrow> Ret (m\<lparr>bytes := (bytes m)(pa := b)\<rparr>))"

fun vread_bytes :: "machine \<Rightarrow> usize \<Rightarrow> nat \<Rightarrow> u8 list outcome" where
  "vread_bytes m va 0 = Ret []"
| "vread_bytes m va (Suc n) = obind (vread m va) (\<lambda>b. obind (vread_bytes m (va + 1) n) (\<lambda>bs. Ret (b # bs)))"

fun vwrite_bytes :: "usize \<Rightarrow> u8 list \<Rightarrow> machine \<Rightarrow> machine outcome" where
  "vwrite_bytes va [] m = Ret m"
| "vwrite_bytes va (b # bs) m = obind (vwrite va b m) (vwrite_bytes (va + 1) bs)"

section \<open>The copies\<close>

definition EFAULT :: "64 word" where "EFAULT = - 14"
definition MAX_USER_COPY :: nat where "MAX_USER_COPY = 512"

text \<open>\<open>user_ptr.checked_add(len)\<close>\<close>

definition checked_add :: "usize \<Rightarrow> usize \<Rightarrow> usize option" where
  "checked_add a b = (if unat a + unat b < 2 ^ 64 then Some (a + b) else None)"

text \<open>
  The loop of \<open>copy_from_user\<close>.  The destination slice panics when its end wraps or lies
  beyond the buffer.
\<close>

partial_function (option) from_user_loop :: "usize \<Rightarrow> usize \<Rightarrow> usize \<Rightarrow> machine \<Rightarrow> usize \<Rightarrow> u8 list
    \<Rightarrow> ((unit, u64) result \<times> u8 list) outcome option" where
  [code]: "from_user_loop task_cr3 user_ptr en m addr kernel_buf =
    (if addr < en then
       (let page_start = addr AND NOT 0xFFF; page_end = page_start + 4096; chunk_end = min en page_end in
        if \<not> is_user_mapped task_cr3 addr m then Some (Ret (Err EFAULT, kernel_buf))
        else (let dst_off = addr - user_ptr; copy_len = chunk_end - addr; dst_end = dst_off + copy_len in
          if dst_end < dst_off \<or> unat dst_end > length kernel_buf then Some Panic
          else (case vread_bytes m addr (unat copy_len) of
              Panic \<Rightarrow> Some Panic
            | Ret bs \<Rightarrow> from_user_loop task_cr3 user_ptr en m page_end (put_slice kernel_buf (unat dst_off) bs))))
     else Some (Ret (Ok (), kernel_buf)))"

definition copy_from_user :: "usize \<Rightarrow> usize \<Rightarrow> usize \<Rightarrow> u8 list \<Rightarrow> machine \<Rightarrow> ((usize, u64) result \<times> u8 list) outcome option" where
  "copy_from_user task_cr3 user_ptr len kernel_buf m =
    (if unat len > MAX_USER_COPY then Some (Ret (Err EFAULT, kernel_buf))
     else if len = 0 then Some (Ret (Ok 0, kernel_buf))
     else case checked_add user_ptr len of
       None \<Rightarrow> Some (Ret (Err EFAULT, kernel_buf))
     | Some en \<Rightarrow> (case from_user_loop task_cr3 user_ptr en m user_ptr kernel_buf of
           None \<Rightarrow> None
         | Some Panic \<Rightarrow> Some Panic
         | Some (Ret (Err e, buf)) \<Rightarrow> Some (Ret (Err e, buf))
         | Some (Ret (Ok u, buf)) \<Rightarrow> Some (Ret (Ok len, buf))))"

text \<open>The kernel source of \<open>copy_to_user\<close> is the list of bytes at \<open>kernel_src\<close>, as long as the copy.\<close>

partial_function (option) to_user_loop :: "usize \<Rightarrow> usize \<Rightarrow> u8 list \<Rightarrow> usize \<Rightarrow> usize \<Rightarrow> machine
    \<Rightarrow> ((unit, u64) result \<times> machine) outcome option" where
  [code]: "to_user_loop task_cr3 en src addr src_off m =
    (if addr < en then
       (let page_start = addr AND NOT 0xFFF; page_end = page_start + 4096; chunk_end = min en page_end in
        if \<not> is_user_mapped task_cr3 addr m then Some (Ret (Err EFAULT, m))
        else (let copy_len = chunk_end - addr in
          case vwrite_bytes addr (get_slice src (unat src_off) (unat copy_len)) m of
            Panic \<Rightarrow> Some Panic
          | Ret m' \<Rightarrow> to_user_loop task_cr3 en src page_end (src_off + copy_len) m'))
     else Some (Ret (Ok (), m)))"

definition copy_to_user :: "usize \<Rightarrow> usize \<Rightarrow> u8 list \<Rightarrow> usize \<Rightarrow> machine \<Rightarrow> ((usize, u64) result \<times> machine) outcome option" where
  "copy_to_user task_cr3 user_ptr src len m =
    (if len = 0 then Some (Ret (Ok 0, m))
     else case checked_add user_ptr len of
       None \<Rightarrow> Some (Ret (Err EFAULT, m))
     | Some en \<Rightarrow> (case to_user_loop task_cr3 en src user_ptr 0 m of
           None \<Rightarrow> None
         | Some Panic \<Rightarrow> Some Panic
         | Some (Ret (Err e, m')) \<Rightarrow> Some (Ret (Err e, m'))
         | Some (Ret (Ok u, m')) \<Rightarrow> Some (Ret (Ok len, m'))))"

text \<open>The string copy, byte by byte; \<open>n\<close> is what is left of the length limit.\<close>

fun cstr_loop :: "usize \<Rightarrow> usize \<Rightarrow> machine \<Rightarrow> nat \<Rightarrow> u8 list \<Rightarrow> (u8 list, u64) result outcome" where
  "cstr_loop task_cr3 addr m 0 acc = Ret (Ok acc)"
| "cstr_loop task_cr3 addr m (Suc n) acc =
    (if \<not> is_user_mapped task_cr3 addr m then Ret (Err EFAULT)
     else obind (vread m addr) (\<lambda>byte. if byte = 0 then Ret (Ok acc)
       else cstr_loop task_cr3 (addr + 1) m n (acc @ [byte])))"

definition copy_from_user_cstr :: "usize \<Rightarrow> usize \<Rightarrow> nat \<Rightarrow> machine \<Rightarrow> (u8 list, u64) result outcome" where
  "copy_from_user_cstr task_cr3 user_ptr max_len m =
    obind (cstr_loop task_cr3 user_ptr m (min max_len 255) []) (\<lambda>r. case r of
        Err e \<Rightarrow> Ret (Err e)
      | Ok s \<Rightarrow> Ret (Ok (if utf8_valid s then s else [])))"

section \<open>A mapped user page can be read\<close>

lemma same_page_index:
  assumes "unat va div 4096 = unat vb div 4096"
  shows "pml4_index va = pml4_index vb" "pdpt_index va = pdpt_index vb" "pd_index va = pd_index vb" "pt_index va = pt_index vb"
proof -
  have "unat va div 2 ^ (12 + k) = unat vb div 2 ^ (12 + k)" for k
    using assms by (simp add: power_add div_mult2_eq)
  from this[of 0] this[of 9] this[of 18] this[of 27]
  show "pml4_index va = pml4_index vb" "pdpt_index va = pdpt_index vb" "pd_index va = pd_index vb" "pt_index va = pt_index vb"
    by (simp_all add: index_nat)
qed

lemma user_mapped_page:
  "unat va div 4096 = unat vb div 4096 \<Longrightarrow> is_user_mapped r va m = is_user_mapped r vb m"
  using same_page_index[of va vb] by (simp add: is_user_mapped_def)

lemma user_mapped_translate:
  assumes "table_tree r m" "is_user_mapped r va m"
  shows "translate r va m \<noteq> None"
proof -
  let ?e1 = "tabs m r (pml4_index va)"
  have p1: "?e1 AND P_PRESENT \<noteq> 0" using assms(2) by (auto simp: is_user_mapped_def Let_def split: if_splits)
  have s1: "?e1 AND P_SIZE = 0"
    using tree_upper[OF assms(1), of "[]" r "pml4_index va"] index_less(1) p1 by (auto simp: upper_entry_def)
  then have t2: "tab m r [pml4_index va] = Some (?e1 AND ADDR_MASK)" using tab_next[of m r "[]" r] index_less(1) p1 by simp
  let ?e2 = "tabs m (?e1 AND ADDR_MASK) (pdpt_index va)"
  have p2: "?e2 AND P_PRESENT \<noteq> 0" using assms(2) by (auto simp: is_user_mapped_def Let_def split: if_splits)
  have "?e2 AND P_SIZE = 0" using tree_upper[OF assms(1) t2] index_less(2) p2 by (auto simp: upper_entry_def)
  then show ?thesis using p1 s1 p2 assms(2) by (auto simp: translate_def is_user_mapped_def Let_def split: if_splits)
qed

definition byte_at :: "machine \<Rightarrow> usize \<Rightarrow> u8" where
  "byte_at m va = bytes m (the (phys_of m va))"

lemma vread_mapped:
  assumes "table_tree (cr3 m) m" "is_user_mapped (cr3 m) va m"
  shows "vread m va = Ret (byte_at m va)"
  using user_mapped_translate[OF assms] by (auto simp: vread_def phys_of_def byte_at_def split: option.splits)

lemma vread_bytes_mapped:
  assumes "table_tree (cr3 m) m" "\<And>i. i < n \<Longrightarrow> is_user_mapped (cr3 m) (va + of_nat i) m"
  shows "vread_bytes m va n = Ret (map (\<lambda>i. byte_at m (va + of_nat i)) [0..<n])"
  using assms(2)
proof (induction n arbitrary: va)
  case (Suc n)
  have "vread_bytes m (va + 1) n = Ret (map (\<lambda>i. byte_at m (va + 1 + of_nat i)) [0..<n])"
    by (rule Suc.IH) (use Suc.prems[of "Suc i" for i] in \<open>auto simp: algebra_simps\<close>)
  then show ?case using vread_mapped[OF assms(1), of va] Suc.prems[of 0]
    by (simp add: upt_conv_Cons map_Suc_upt[symmetric] algebra_simps o_def del: upt_Suc)
qed simp

section \<open>The copy from user memory is exact\<close>

definition user_range :: "usize \<Rightarrow> usize \<Rightarrow> nat \<Rightarrow> machine \<Rightarrow> bool" where
  "user_range r va n m \<longleftrightarrow> (\<forall>i < n. is_user_mapped r (va + of_nat i) m)"

definition user_bytes :: "machine \<Rightarrow> usize \<Rightarrow> nat \<Rightarrow> u8 list" where
  "user_bytes m va n = map (\<lambda>i. byte_at m (va + of_nat i)) [0..<n]"

lemma length_user_bytes [simp]: "length (user_bytes m va n) = n"
  by (simp add: user_bytes_def)

lemma user_bytes_append: "user_bytes m va (a + b) = user_bytes m va a @ user_bytes m (va + of_nat a) b"
  by (induction b) (simp_all add: user_bytes_def algebra_simps)

lemma unat_add_nat: "unat (va :: usize) + n < 2 ^ 64 \<Longrightarrow> unat (va + of_nat n) = unat va + n"
  by (subst unat_plus_simple_le) (simp_all add: unat_of_nat)

text \<open>One page of the loop: how far it goes.\<close>

lemma chunk_end:
  fixes addr en :: usize
  assumes "addr < en" "unat en \<le> 2 ^ 63"
  defines "pe \<equiv> (addr AND NOT 0xFFF) + 4096"
  shows "unat pe = unat addr div 4096 * 4096 + 4096" "unat addr < unat pe"
    "unat (min en pe - addr) = min (unat en) (unat pe) - unat addr"
    "i < min (unat en) (unat pe) - unat addr \<Longrightarrow> unat (addr + of_nat i) div 4096 = unat addr div 4096"
proof -
  have a: "unat addr < unat en" using assms(1) by (simp add: word_less_nat_alt)
  have m: "unat addr div 4096 * 4096 + unat addr mod 4096 = unat addr" by (rule div_mult_mod_eq)
  have l: "unat addr mod 4096 < 4096" by simp
  show pe: "unat pe = unat addr div 4096 * 4096 + 4096"
    unfolding pe_def using m a assms(2) by (subst unat_plus_simple_le) (simp_all only: page_base_unat, simp_all)
  then show lt: "unat addr < unat pe" using m l by linarith
  have "unat (min en pe) = min (unat en) (unat pe)" by (simp add: min_def word_le_nat_alt)
  then show "unat (min en pe - addr) = min (unat en) (unat pe) - unat addr"
    using a lt by (subst unat_sub) (simp_all add: word_le_nat_alt)
  assume i: "i < min (unat en) (unat pe) - unat addr"
  then have "unat (addr + of_nat i) = unat addr + i" using assms(2) by (intro unat_add_nat) simp
  then show "unat (addr + of_nat i) div 4096 = unat addr div 4096"
    using i pe m by (intro div_nat_eqI) (simp_all add: min_def split: if_splits)
qed

text \<open>An iteration on a mapped page: it reads \<open>n\<close> bytes and goes on at the next page.\<close>

lemma from_user_step:
  fixes addr en :: usize
  defines "pe \<equiv> (addr AND NOT 0xFFF) + 4096"
  defines "n \<equiv> min (unat en) (unat pe) - unat addr"
  assumes tree: "table_tree (cr3 m) m" and en: "unat en \<le> 2 ^ 63" and lt: "addr < en" and ptr: "unat ptr \<le> unat addr"
    and buf: "unat en - unat ptr \<le> length buf" and mapped: "is_user_mapped (cr3 m) addr m"
  shows "from_user_loop (cr3 m) ptr en m addr buf =
      from_user_loop (cr3 m) ptr en m pe (put_slice buf (unat addr - unat ptr) (user_bytes m addr n))"
    "unat addr < unat pe" "0 < n" "unat addr - unat ptr + n \<le> length buf" "user_range (cr3 m) addr n m"
    "unat pe < unat en \<Longrightarrow> n = unat pe - unat addr \<and> pe = addr + of_nat n"
    "\<not> unat pe < unat en \<Longrightarrow> n = unat en - unat addr"
proof -
  note ce = chunk_end[OF lt en, folded pe_def]
  have a: "unat addr < unat en" using lt by (simp add: word_less_nat_alt)
  show "unat addr < unat pe" by (rule ce(2))
  show n: "0 < n" using a ce(2) by (simp add: n_def)
  have n': "n \<le> unat en - unat addr" by (simp add: n_def)
  have all: "is_user_mapped (cr3 m) (addr + of_nat i) m" if "i < n" for i
    using user_mapped_page[of "addr + of_nat i" addr "cr3 m" m] ce(4)[of i] that mapped by (simp add: n_def)
  then show "user_range (cr3 m) addr n m" by (simp add: user_range_def)
  have off: "unat (addr - ptr) = unat addr - unat ptr" using ptr by (simp add: unat_sub word_le_nat_alt)
  have cl: "unat (min en pe - addr) = n" using ce(3) by (simp add: n_def)
  have de: "unat (addr - ptr + (min en pe - addr)) = unat addr - unat ptr + n"
    using off cl n' en a by (subst unat_plus_simple_le) simp_all
  show fits: "unat addr - unat ptr + n \<le> length buf" using n' ptr buf a by linarith
  have rd: "vread_bytes m addr n = Ret (user_bytes m addr n)"
    unfolding user_bytes_def by (rule vread_bytes_mapped[OF tree all])
  show "from_user_loop (cr3 m) ptr en m addr buf =
      from_user_loop (cr3 m) ptr en m pe (put_slice buf (unat addr - unat ptr) (user_bytes m addr n))"
    using lt mapped n rd off cl de fits
    by (subst from_user_loop.simps) (simp add: Let_def word_less_nat_alt pe_def)
  show "n = unat pe - unat addr \<and> pe = addr + of_nat n" if "unat pe < unat en"
  proof
    show np: "n = unat pe - unat addr" using that by (simp add: n_def)
    show "pe = addr + of_nat n"
      by (rule unsigned_word_eqI[where ?'a = nat]) (use ce(2) np en a that in \<open>simp add: unat_add_nat\<close>)
  qed
  show "\<not> unat pe < unat en \<Longrightarrow> n = unat en - unat addr" by (simp add: n_def)
qed

lemma user_range_split: "user_range r va (a + b) m \<longleftrightarrow> user_range r va a m \<and> user_range r (va + of_nat a) b m"
proof
  assume ab: "user_range r va (a + b) m"
  then have "is_user_mapped r (va + of_nat a + of_nat i) m" if "i < b" for i
    using that unfolding user_range_def by (metis add_less_cancel_left add.assoc of_nat_add)
  then show "user_range r va a m \<and> user_range r (va + of_nat a) b m" using ab by (simp add: user_range_def)
next
  assume ab: "user_range r va a m \<and> user_range r (va + of_nat a) b m"
  have "is_user_mapped r (va + of_nat i) m" if "i < a + b" for i
  proof (cases "i < a")
    case False
    then have "i - a < b" using that by simp
    then have "is_user_mapped r (va + of_nat a + of_nat (i - a)) m" using ab unfolding user_range_def by blast
    then show ?thesis using False by (simp add: of_nat_diff)
  qed (use ab in \<open>simp add: user_range_def\<close>)
  then show "user_range r va (a + b) m" by (simp add: user_range_def)
qed

lemma from_user_mapped:
  assumes tree: "table_tree (cr3 m) m" and en: "unat en \<le> 2 ^ 63"
  shows "\<lbrakk>unat ptr \<le> unat addr; unat en - unat ptr \<le> length buf; user_range (cr3 m) addr (unat en - unat addr) m\<rbrakk> \<Longrightarrow>
    from_user_loop (cr3 m) ptr en m addr buf =
      Some (Ret (Ok (), put_slice buf (unat addr - unat ptr) (user_bytes m addr (unat en - unat addr))))"
proof (induction "unat en - unat addr" arbitrary: addr buf rule: less_induct)
  case less
  show ?case
  proof (cases "addr < en")
    case False
    then show ?thesis by (subst from_user_loop.simps) (simp add: word_less_nat_alt user_bytes_def)
  next
    case True
    let ?pe = "(addr AND NOT 0xFFF) + 4096" let ?n = "min (unat en) (unat ?pe) - unat addr"
    have a: "unat addr < unat en" using True by (simp add: word_less_nat_alt)
    have "is_user_mapped (cr3 m) (addr + of_nat 0) m" using less.prems(3) a unfolding user_range_def by (metis zero_less_diff)
    then have "is_user_mapped (cr3 m) addr m" by simp
    note st = from_user_step[OF tree en True less.prems(1,2) this]
    let ?buf = "put_slice buf (unat addr - unat ptr) (user_bytes m addr ?n)"
    show ?thesis
    proof (cases "unat ?pe < unat en")
      case below: True
      have np: "?n = unat ?pe - unat addr" and pe: "?pe = addr + of_nat ?n" using st(6)[OF below] by blast+
      have sum: "unat en - unat addr = ?n + (unat en - unat ?pe)" using np st(2) below by linarith
      have rest: "user_range (cr3 m) ?pe (unat en - unat ?pe) m"
        using less.prems(3) user_range_split[of "cr3 m" addr ?n "unat en - unat ?pe" m] unfolding sum pe[symmetric] by blast
      have "from_user_loop (cr3 m) ptr en m ?pe ?buf =
          Some (Ret (Ok (), put_slice ?buf (unat ?pe - unat ptr) (user_bytes m ?pe (unat en - unat ?pe))))"
        by (rule less.hyps[OF _ _ _ rest]) (use st(2,4) a less.prems(1,2) in simp_all)
      moreover have "put_slice ?buf (unat ?pe - unat ptr) (user_bytes m ?pe (unat en - unat ?pe)) =
          put_slice buf (unat addr - unat ptr) (user_bytes m addr (?n + (unat en - unat ?pe)))"
        using put_slice_append[of "unat addr - unat ptr" "user_bytes m addr ?n" "user_bytes m ?pe (unat en - unat ?pe)" buf]
          user_bytes_append[of m addr ?n "unat en - unat ?pe", folded pe] np st(2) less.prems(1,2) below by simp
      ultimately show ?thesis using st(1) unfolding sum by simp
    next
      case False
      moreover have "from_user_loop (cr3 m) ptr en m ?pe ?buf = Some (Ret (Ok (), ?buf))"
        using False by (subst from_user_loop.simps) (simp add: word_less_nat_alt)
      ultimately show ?thesis using st(1,7) by simp
    qed
  qed
qed

lemma from_user_unmapped:
  assumes tree: "table_tree (cr3 m) m" and en: "unat en \<le> 2 ^ 63"
  shows "\<lbrakk>unat ptr \<le> unat addr; unat en - unat ptr \<le> length buf; \<not> user_range (cr3 m) addr (unat en - unat addr) m\<rbrakk> \<Longrightarrow>
    \<exists>buf'. from_user_loop (cr3 m) ptr en m addr buf = Some (Ret (Err EFAULT, buf')) \<and> length buf' = length buf"
proof (induction "unat en - unat addr" arbitrary: addr buf rule: less_induct)
  case less
  then have a: "unat addr < unat en" by (auto simp: user_range_def)
  then have lt: "addr < en" by (simp add: word_less_nat_alt)
  let ?pe = "(addr AND NOT 0xFFF) + 4096" let ?n = "min (unat en) (unat ?pe) - unat addr"
  show ?case
  proof (cases "is_user_mapped (cr3 m) addr m")
    case False
    then show ?thesis using lt by (subst from_user_loop.simps) (simp add: Let_def)
  next
    case True
    note st = from_user_step[OF tree en lt less.prems(1,2) True]
    have below: "unat ?pe < unat en" using st(5,7) less.prems(3) by (cases "unat ?pe < unat en") auto
    have np: "?n = unat ?pe - unat addr" and pe: "?pe = addr + of_nat ?n" using st(6)[OF below] by blast+
    have sum: "unat en - unat addr = ?n + (unat en - unat ?pe)" using np st(2) below by linarith
    have rest: "\<not> user_range (cr3 m) ?pe (unat en - unat ?pe) m"
      using less.prems(3) st(5) user_range_split[of "cr3 m" addr ?n "unat en - unat ?pe" m] unfolding sum pe[symmetric] by blast
    let ?buf = "put_slice buf (unat addr - unat ptr) (user_bytes m addr ?n)"
    have "\<exists>buf'. from_user_loop (cr3 m) ptr en m ?pe ?buf = Some (Ret (Err EFAULT, buf')) \<and> length buf' = length ?buf"
      by (rule less.hyps[OF _ _ _ rest]) (use st(2,4) a less.prems(1,2) in simp_all)
    then show ?thesis using st(1,4) by simp
  qed
qed



end
