(* ===== verification/Disk.thy ===== *)
theory Disk
  imports Prelude
begin

text \<open>
  Block devices (\<open>src/drivers/ide.rs\<close>) as the file systems see them: sectors of 512 bytes.
  The drive and its port protocol are hardware.  The drive is its contents and the
  error its status register reports for a sector, if any, before (\<open>fault\<close>) or, for a
  write, after (\<open>late_fault\<close>) the data is transferred.

  An operation returns a value, reports an error, panics (\<open>Crash\<close>) or runs out of fuel
  (\<open>Hang\<close>), and leaves the drive changed.
\<close>

definition SECTOR_SIZE :: nat where "SECTOR_SIZE = 512"

record disk =
  total_sectors :: u32
  sectors :: "u32 \<Rightarrow> u8 list"
  fault :: "u32 \<Rightarrow> string option"
  late_fault :: "u32 \<Rightarrow> string option"

datatype 'a res = Done 'a | Fail string | Crash | Hang

type_synonym ('s, 'a) io = "'s \<Rightarrow> 'a res \<times> 's"

definition io_ret :: "'a \<Rightarrow> ('s, 'a) io" where
  "io_ret a s = (Done a, s)"

definition io_fail :: "string \<Rightarrow> ('s, 'a) io" where
  "io_fail e s = (Fail e, s)"

definition io_crash :: "('s, 'a) io" where
  "io_crash s = (Crash, s)"

definition io_hang :: "('s, 'a) io" where
  "io_hang s = (Hang, s)"

definition io_bind :: "('s, 'a) io \<Rightarrow> ('a \<Rightarrow> ('s, 'b) io) \<Rightarrow> ('s, 'b) io" where
  "io_bind m f s = (case m s of
      (Done a, s') \<Rightarrow> f a s'
    | (Fail e, s') \<Rightarrow> (Fail e, s')
    | (Crash, s') \<Rightarrow> (Crash, s')
    | (Hang, s') \<Rightarrow> (Hang, s'))"

lemma io_simps [simp]:
  "io_ret a s = (Done a, s)" "io_fail e s = (Fail e, s)" "io_crash s = (Crash, s)" "io_hang s = (Hang, s)"
  by (simp_all add: io_ret_def io_fail_def io_crash_def io_hang_def)

lemma io_bind_cases:
  "m s = (Done a, s') \<Longrightarrow> io_bind m f s = f a s'"
  "m s = (Fail e, s') \<Longrightarrow> io_bind m f s = (Fail e, s')"
  "m s = (Crash, s') \<Longrightarrow> io_bind m f s = (Crash, s')"
  "m s = (Hang, s') \<Longrightarrow> io_bind m f s = (Hang, s')"
  by (simp_all add: io_bind_def)

lemma io_bind_DoneE:
  assumes "io_bind m f s = (Done b, s'')"
  obtains a s' where "m s = (Done a, s')" "f a s' = (Done b, s'')"
proof (cases "m s")
  case (Pair r s')
  with assms that show ?thesis by (cases r) (auto simp: io_bind_def)
qed

lemma io_bind_assoc: "io_bind (io_bind m f) g = io_bind m (\<lambda>x. io_bind (f x) g)"
  by (rule ext) (auto simp: io_bind_def split: prod.splits res.splits)

section \<open>Sectors\<close>

definition ide_total_sectors :: "disk \<Rightarrow> u32" where
  "ide_total_sectors d = total_sectors d"

definition is_present :: "disk \<Rightarrow> bool" where
  "is_present d \<longleftrightarrow> total_sectors d > 0"

definition read_sector :: "u32 \<Rightarrow> (disk, u8 list) io" where
  "read_sector lba d =
    (if lba \<ge> total_sectors d then (Fail ''LBA out of range'', d)
     else case fault d lba of
       Some e \<Rightarrow> (Fail e, d)
     | None \<Rightarrow> (Done (sectors d lba), d))"

definition write_sector :: "u32 \<Rightarrow> u8 list \<Rightarrow> (disk, unit) io" where
  "write_sector lba buf d =
    (if lba \<ge> total_sectors d then (Fail ''LBA out of range'', d)
     else case fault d lba of
       Some e \<Rightarrow> (Fail e, d)
     | None \<Rightarrow> (let d' = d\<lparr>sectors := (sectors d)(lba := buf)\<rparr> in
         case late_fault d lba of Some e \<Rightarrow> (Fail e, d') | None \<Rightarrow> (Done (), d')))"

text \<open>
  Several sectors in a row.  The driver, the cache and the file systems all loop over
  sectors this way, with the sector operation they have: \<open>rd_each\<close> and \<open>wr_each\<close> copy between
  consecutive sectors and a buffer of sufficient size, the \<open>_checked\<close> loops test the size.
\<close>

fun rd_each :: "(u32 \<Rightarrow> ('s, u8 list) io) \<Rightarrow> u32 \<Rightarrow> nat list \<Rightarrow> u8 list \<Rightarrow> ('s, u8 list) io" where
  "rd_each rd start [] buf = io_ret buf"
| "rd_each rd start (i # is) buf = io_bind (rd (start + of_nat i)) (\<lambda>sec.
     rd_each rd start is (put_slice buf (i * SECTOR_SIZE) sec))"

fun wr_each :: "(u32 \<Rightarrow> u8 list \<Rightarrow> ('s, unit) io) \<Rightarrow> u32 \<Rightarrow> nat list \<Rightarrow> u8 list \<Rightarrow> ('s, unit) io" where
  "wr_each wr start [] buf = io_ret ()"
| "wr_each wr start (i # is) buf = io_bind (wr (start + of_nat i) (get_slice buf (i * SECTOR_SIZE) SECTOR_SIZE)) (\<lambda>_.
     wr_each wr start is buf)"

fun rd_checked :: "(u32 \<Rightarrow> ('s, u8 list) io) \<Rightarrow> u32 \<Rightarrow> nat list \<Rightarrow> u8 list \<Rightarrow> ('s, u8 list) io" where
  "rd_checked rd start [] buf = io_ret buf"
| "rd_checked rd start (i # is) buf =
    (if i * SECTOR_SIZE + SECTOR_SIZE > length buf then io_fail ''buffer too small''
     else io_bind (rd (start + of_nat i)) (\<lambda>sec. rd_checked rd start is (put_slice buf (i * SECTOR_SIZE) sec)))"

fun wr_checked :: "(u32 \<Rightarrow> u8 list \<Rightarrow> ('s, unit) io) \<Rightarrow> u32 \<Rightarrow> nat list \<Rightarrow> u8 list \<Rightarrow> ('s, unit) io" where
  "wr_checked wr start [] buf = io_ret ()"
| "wr_checked wr start (i # is) buf =
    (if i * SECTOR_SIZE + SECTOR_SIZE > length buf then io_fail ''buffer too small''
     else io_bind (wr (start + of_nat i) (get_slice buf (i * SECTOR_SIZE) SECTOR_SIZE)) (\<lambda>_. wr_checked wr start is buf))"

definition read_sectors :: "u32 \<Rightarrow> u32 \<Rightarrow> u8 list \<Rightarrow> (disk, u8 list) io" where
  "read_sectors start count buf = rd_checked read_sector start [0..<unat count] buf"

definition write_sectors :: "u32 \<Rightarrow> u32 \<Rightarrow> u8 list \<Rightarrow> (disk, unit) io" where
  "write_sectors start count buf = wr_checked write_sector start [0..<unat count] buf"

text \<open>A drive whose sectors have the right size and that reports no error.\<close>

definition disk_ok :: "disk \<Rightarrow> bool" where
  "disk_ok d \<longleftrightarrow> (\<forall>l. length (sectors d l) = SECTOR_SIZE) \<and> (\<forall>l. fault d l = None) \<and> (\<forall>l. late_fault d l = None)"

lemma read_sector_ok:
  "\<lbrakk>disk_ok d; lba < total_sectors d\<rbrakk> \<Longrightarrow> read_sector lba d = (Done (sectors d lba), d)"
  by (simp add: read_sector_def disk_ok_def)

lemma write_sector_ok:
  "\<lbrakk>disk_ok d; lba < total_sectors d\<rbrakk> \<Longrightarrow> write_sector lba buf d = (Done (), d\<lparr>sectors := (sectors d)(lba := buf)\<rparr>)"
  by (simp add: write_sector_def disk_ok_def Let_def)

lemma disk_ok_write [simp]:
  "disk_ok d \<Longrightarrow> length buf = SECTOR_SIZE \<Longrightarrow> disk_ok (d\<lparr>sectors := (sectors d)(lba := buf)\<rparr>)"
  by (simp add: disk_ok_def)

lemma length_sector: "disk_ok d \<Longrightarrow> length (sectors d l) = SECTOR_SIZE"
  by (simp add: disk_ok_def)

section \<open>Reading and writing a store of sectors\<close>

text \<open>
  What the layers above rely on: reads return the contents, writes change one sector.
  \<open>image\<close> is the contents, \<open>lim\<close> the number of sectors.
\<close>

definition written :: "u32 \<Rightarrow> nat \<Rightarrow> u8 list \<Rightarrow> (u32 \<Rightarrow> u8 list) \<Rightarrow> u32 \<Rightarrow> u8 list" where
  "written start n buf f l = (if unat start \<le> unat l \<and> unat l < unat start + n
     then get_slice buf ((unat l - unat start) * SECTOR_SIZE) SECTOR_SIZE else f l)"

definition span :: "(u32 \<Rightarrow> u8 list) \<Rightarrow> u32 \<Rightarrow> nat \<Rightarrow> u8 list" where
  "span f start n = concat (map (\<lambda>i. f (start + of_nat i)) [0..<n])"

lemma unat_start_plus:
  fixes start lim :: u32
  assumes "unat start + n \<le> unat lim" "i < n"
  shows "unat (start + of_nat i) = unat start + i"
proof -
  have "unat start + i < 2 ^ 32" using assms unat_u32_less[of lim] by simp
  then show ?thesis by (simp add: unat_word_ariths unat_of_nat)
qed

lemma length_span: "(\<And>l. length (f l) = SECTOR_SIZE) \<Longrightarrow> length (span f start n) = n * SECTOR_SIZE"
  by (induction n) (simp_all add: span_def)

lemma put_slice_span:
  assumes "\<And>l. length (f l) = SECTOR_SIZE" "Suc k * SECTOR_SIZE \<le> length buf"
  shows "put_slice (span f start k @ drop (k * SECTOR_SIZE) buf) (k * SECTOR_SIZE) (f (start + of_nat k)) =
    span f start (Suc k) @ drop (Suc k * SECTOR_SIZE) buf"
  using assms length_span[of f start k, OF assms(1)] by (simp add: put_slice_def span_def add.commute)

locale sector_store =
  fixes inv :: "'s \<Rightarrow> bool"
    and image :: "'s \<Rightarrow> u32 \<Rightarrow> u8 list"
    and lim :: "'s \<Rightarrow> u32"
    and rd :: "u32 \<Rightarrow> ('s, u8 list) io"
    and wr :: "u32 \<Rightarrow> u8 list \<Rightarrow> ('s, unit) io"
  assumes rd_law: "\<lbrakk>inv s; l < lim s\<rbrakk> \<Longrightarrow>
      \<exists>s'. rd l s = (Done (image s l), s') \<and> inv s' \<and> image s' = image s \<and> lim s' = lim s"
    and wr_law: "\<lbrakk>inv s; l < lim s; length b = SECTOR_SIZE\<rbrakk> \<Longrightarrow>
      \<exists>s'. wr l b s = (Done (), s') \<and> inv s' \<and> image s' = (image s)(l := b) \<and> lim s' = lim s"
    and rd_range: "inv s \<Longrightarrow> \<not> l < lim s \<Longrightarrow> rd l s = (Fail ''LBA out of range'', s)"
    and wr_range: "inv s \<Longrightarrow> \<not> l < lim s \<Longrightarrow> wr l b s = (Fail ''LBA out of range'', s)"
    and image_size: "inv s \<Longrightarrow> length (image s l) = SECTOR_SIZE"
begin

lemma rd_each_from:
  assumes "inv s" "unat start + n \<le> unat (lim s)" "n * SECTOR_SIZE \<le> length buf" "k \<le> n"
  shows "\<exists>s'. rd_each rd start [k..<n] (span (image s) start k @ drop (k * SECTOR_SIZE) buf) s =
      (Done (span (image s) start n @ drop (n * SECTOR_SIZE) buf), s') \<and> inv s' \<and> image s' = image s \<and> lim s' = lim s"
  using assms
proof (induction "n - k" arbitrary: k s)
  case 0
  then show ?case by simp
next
  case (Suc d)
  have k: "k < n" and d: "d = n - Suc k" using Suc by simp_all
  then have l: "start + of_nat k < lim s" using Suc.prems unat_start_plus[of start n "lim s" k] by (simp add: word_less_nat_alt)
  obtain s1 where s1: "rd (start + of_nat k) s = (Done (image s (start + of_nat k)), s1)" "inv s1" "image s1 = image s" "lim s1 = lim s"
    using rd_law[OF Suc.prems(1) l] by blast
  have "Suc k * SECTOR_SIZE \<le> length buf" using k Suc.prems(3) by (metis Suc_leI le_trans mult_le_mono1)
  note p = put_slice_span[of "image s" k buf start, OF image_size[OF Suc.prems(1)] this]
  obtain s' where "rd_each rd start [Suc k..<n] (span (image s1) start (Suc k) @ drop (Suc k * SECTOR_SIZE) buf) s1 =
      (Done (span (image s1) start n @ drop (n * SECTOR_SIZE) buf), s')" "inv s'" "image s' = image s1" "lim s' = lim s1"
    using Suc.hyps(1)[OF d s1(2), unfolded s1(4), OF Suc.prems(2,3) Suc_leI[OF k]] unfolding s1(4) by blast
  moreover have "[k..<n] = k # [Suc k..<n]" using k by (simp add: upt_conv_Cons)
  ultimately show ?case using s1 p by (simp add: io_bind_cases(1))
qed

lemma rd_each_spec:
  assumes "inv s" "unat start + n \<le> unat (lim s)" "n * SECTOR_SIZE \<le> length buf"
  shows "\<exists>s'. rd_each rd start [0..<n] buf s =
      (Done (span (image s) start n @ drop (n * SECTOR_SIZE) buf), s') \<and> inv s' \<and> image s' = image s \<and> lim s' = lim s"
  using rd_each_from[OF assms, of 0] by (simp add: span_def)

lemma wr_each_from:
  assumes "inv s" "unat start + n \<le> unat (lim s)" "n * SECTOR_SIZE \<le> length buf" "k \<le> n"
    "image s = written start k buf f"
  shows "\<exists>s'. wr_each wr start [k..<n] buf s = (Done (), s') \<and> inv s' \<and> image s' = written start n buf f \<and> lim s' = lim s"
  using assms
proof (induction "n - k" arbitrary: k s)
  case 0
  then show ?case by simp
next
  case (Suc d)
  have k: "k < n" and d: "d = n - Suc k" using Suc by simp_all
  have u: "unat (start + of_nat k) = unat start + k" using Suc.prems unat_start_plus[of start n "lim s" k] k by simp
  then have l: "start + of_nat k < lim s" using Suc.prems k by (simp add: word_less_nat_alt)
  have "k * SECTOR_SIZE + SECTOR_SIZE \<le> n * SECTOR_SIZE" using k mult_le_mono1[of "Suc k" n SECTOR_SIZE] by simp
  then have b: "length (get_slice buf (k * SECTOR_SIZE) SECTOR_SIZE) = SECTOR_SIZE" using Suc.prems(3) by simp
  obtain s1 where s1: "wr (start + of_nat k) (get_slice buf (k * SECTOR_SIZE) SECTOR_SIZE) s = (Done (), s1)" "inv s1"
      "image s1 = (image s)(start + of_nat k := get_slice buf (k * SECTOR_SIZE) SECTOR_SIZE)" "lim s1 = lim s"
    using wr_law[OF Suc.prems(1) l b] by blast
  have "image s1 = written start (Suc k) buf f"
  proof
    fix x
    have "x = start + of_nat k \<longleftrightarrow> unat x = unat start + k" using u by (metis unsigned_word_eqI)
    then show "image s1 x = written start (Suc k) buf f x" using s1(3) Suc.prems(5) by (auto simp: written_def)
  qed
  then obtain s' where "wr_each wr start [Suc k..<n] buf s1 = (Done (), s')" "inv s'" "image s' = written start n buf f" "lim s' = lim s1"
    using Suc.hyps(1)[OF d s1(2), unfolded s1(4), OF Suc.prems(2,3) Suc_leI[OF k]] unfolding s1(4) by blast
  moreover have "[k..<n] = k # [Suc k..<n]" using k by (simp add: upt_conv_Cons)
  ultimately show ?case using s1 by (simp add: io_bind_cases(1))
qed

lemma wr_each_spec:
  assumes "inv s" "unat start + n \<le> unat (lim s)" "n * SECTOR_SIZE \<le> length buf"
  shows "\<exists>s'. wr_each wr start [0..<n] buf s = (Done (), s') \<and> inv s' \<and> image s' = written start n buf (image s) \<and> lim s' = lim s"
proof -
  have "image s = written start 0 buf (image s)" by (auto simp: written_def fun_eq_iff)
  from wr_each_from[OF assms le0 this] show ?thesis .
qed

lemma rd_checked_eq:
  assumes "inv s" "\<And>i. i \<in> set is \<Longrightarrow> i * SECTOR_SIZE + SECTOR_SIZE \<le> length buf"
  shows "rd_checked rd start is buf s = rd_each rd start is buf s"
  using assms
proof (induction "is" arbitrary: buf s)
  case (Cons i "is")
  have i: "\<not> i * SECTOR_SIZE + SECTOR_SIZE > length buf" using Cons.prems(2)[of i] by simp
  show ?case
  proof (cases "start + of_nat i < lim s")
    case True
    then obtain s' where s': "rd (start + of_nat i) s = (Done (image s (start + of_nat i)), s')" "inv s'"
      using rd_law[OF Cons.prems(1)] by blast
    have "length (put_slice buf (i * SECTOR_SIZE) (image s (start + of_nat i))) = length buf"
      using i image_size[OF Cons.prems(1)] by simp
    then show ?thesis using Cons.IH[OF s'(2)] Cons.prems(2) i s'(1) by (simp add: io_bind_cases(1))
  next
    case False
    then show ?thesis using i rd_range[OF Cons.prems(1)] by (simp add: io_bind_cases(2))
  qed
qed simp

lemma wr_checked_eq:
  assumes "\<And>i. i \<in> set is \<Longrightarrow> i * SECTOR_SIZE + SECTOR_SIZE \<le> length buf"
  shows "wr_checked wr start is buf = wr_each wr start is buf"
  using assms
proof (induction "is")
  case (Cons i "is")
  have "\<not> i * SECTOR_SIZE + SECTOR_SIZE > length buf" using Cons.prems[of i] by simp
  then show ?case using Cons by simp
qed simp

lemma fits_each: "n * SECTOR_SIZE \<le> length buf \<Longrightarrow> i \<in> set [0..<n] \<Longrightarrow> i * SECTOR_SIZE + SECTOR_SIZE \<le> length buf"
  using mult_le_mono1[of "Suc i" n SECTOR_SIZE] by auto

lemma rd_checked_spec:
  assumes "inv s" "unat start + n \<le> unat (lim s)" "n * SECTOR_SIZE \<le> length buf"
  shows "\<exists>s'. rd_checked rd start [0..<n] buf s =
      (Done (span (image s) start n @ drop (n * SECTOR_SIZE) buf), s') \<and> inv s' \<and> image s' = image s \<and> lim s' = lim s"
  using rd_each_spec[OF assms] rd_checked_eq[OF assms(1), of "[0..<n]" buf start, OF fits_each[OF assms(3)]] by simp

lemma wr_checked_spec:
  assumes "inv s" "unat start + n \<le> unat (lim s)" "n * SECTOR_SIZE \<le> length buf"
  shows "\<exists>s'. wr_checked wr start [0..<n] buf s = (Done (), s') \<and> inv s' \<and> image s' = written start n buf (image s) \<and> lim s' = lim s"
  using wr_each_spec[OF assms] wr_checked_eq[of "[0..<n]" buf start, OF fits_each[OF assms(3)]] by simp

end

interpretation drive: sector_store disk_ok sectors total_sectors read_sector write_sector
proof unfold_locales
  show "\<exists>s'. read_sector l s = (Done (sectors s l), s') \<and> disk_ok s' \<and> sectors s' = sectors s \<and> total_sectors s' = total_sectors s"
    if "disk_ok s" "l < total_sectors s" for s l
    using read_sector_ok[OF that] that by blast
  show "\<exists>s'. write_sector l b s = (Done (), s') \<and> disk_ok s' \<and> sectors s' = (sectors s)(l := b) \<and> total_sectors s' = total_sectors s"
    if "disk_ok s" "l < total_sectors s" "length b = SECTOR_SIZE" for s l b
    using write_sector_ok[OF that(1,2), of b] that by simp
qed (auto simp: read_sector_def write_sector_def length_sector)

end
