(* ===== verification/Bcache.thy ===== *)
theory Bcache
  imports Disk
begin

text \<open>
  The sector cache (\<open>src/fs/bcache.rs\<close>): 64 slots, direct mapped.  The drive is the
  argument of every call in the source, so the state of an operation is the pair of the
  cache and the drive it is called with.
\<close>

definition CACHE_SIZE :: nat where "CACHE_SIZE = 64"

record CacheEntry =
  sector :: u32
  valid :: bool
  dirty :: bool

definition entry_empty :: CacheEntry where
  "entry_empty = \<lparr>sector = - 1, valid = False, dirty = False\<rparr>"

record bcache =
  CACHE_DATA :: "nat \<Rightarrow> u8 list"
  CACHE_ENTRIES :: "nat \<Rightarrow> CacheEntry"
  CACHE_HITS :: usize
  CACHE_MISSES :: usize
  CACHE_WRITES :: usize

definition bcache_boot :: bcache where
  "bcache_boot = \<lparr>CACHE_DATA = (\<lambda>_. replicate SECTOR_SIZE 0), CACHE_ENTRIES = (\<lambda>_. entry_empty),
     CACHE_HITS = 0, CACHE_MISSES = 0, CACHE_WRITES = 0\<rparr>"

type_synonym cached = "bcache \<times> disk"

definition on_disk :: "(disk, 'a) io \<Rightarrow> (cached, 'a) io" where
  "on_disk m s = (case m (snd s) of (r, d) \<Rightarrow> (r, (fst s, d)))"

definition on_cache :: "(bcache \<Rightarrow> bcache) \<Rightarrow> (cached, unit) io" where
  "on_cache f s = (Done (), (f (fst s), snd s))"

definition cache_slot :: "u32 \<Rightarrow> nat" where
  "cache_slot sec = unat sec mod CACHE_SIZE"

definition cache_lookup :: "u32 \<Rightarrow> bcache \<Rightarrow> u8 list option \<times> bcache" where
  "cache_lookup sec c = (let slot = cache_slot sec in
    if valid (CACHE_ENTRIES c slot) \<and> sector (CACHE_ENTRIES c slot) = sec
    then (Some (CACHE_DATA c slot), c\<lparr>CACHE_HITS := CACHE_HITS c + 1\<rparr>)
    else (None, c\<lparr>CACHE_MISSES := CACHE_MISSES c + 1\<rparr>))"

definition store_entry :: "u32 \<Rightarrow> u8 list \<Rightarrow> bcache \<Rightarrow> bcache" where
  "store_entry sec buf c = (let slot = cache_slot sec in
    c\<lparr>CACHE_DATA := (CACHE_DATA c)(slot := buf),
      CACHE_ENTRIES := (CACHE_ENTRIES c)(slot := \<lparr>sector = sec, valid = True, dirty = False\<rparr>)\<rparr>)"

abbreviation count_write :: "bcache \<Rightarrow> bcache" where
  "count_write c \<equiv> c\<lparr>CACHE_WRITES := CACHE_WRITES c + 1\<rparr>"

text \<open>The miss path of \<open>cached_read\<close>.\<close>

definition read_miss :: "u32 \<Rightarrow> (cached, u8 list) io" where
  "read_miss sec = io_bind (on_disk (read_sector sec)) (\<lambda>buf s.
     let slot = cache_slot sec; e = CACHE_ENTRIES (fst s) slot in
     io_bind (if dirty e \<and> valid e
         then io_bind (on_disk (write_sector (sector e) (CACHE_DATA (fst s) slot))) (\<lambda>_. on_cache count_write)
         else io_ret ())
       (\<lambda>_. io_bind (on_cache (store_entry sec buf)) (\<lambda>_. io_ret buf)) s)"

definition cached_read :: "u32 \<Rightarrow> (cached, u8 list) io" where
  "cached_read sec s =
    (let e = CACHE_ENTRIES (fst s) (cache_slot sec) in
     if valid e \<and> sector e = sec
     then (case cache_lookup sec (fst s) of
         (Some data, c) \<Rightarrow> (Done data, (c, snd s))
       | (None, c) \<Rightarrow> read_miss sec (c, snd s))
     else read_miss sec s)"

definition cached_write :: "u32 \<Rightarrow> u8 list \<Rightarrow> (cached, unit) io" where
  "cached_write sec buf = io_bind (on_disk (write_sector sec buf)) (\<lambda>_.
     io_bind (on_cache count_write) (\<lambda>_. on_cache (store_entry sec buf)))"

fun flush_loop :: "nat list \<Rightarrow> (cached, unit) io" where
  "flush_loop [] = io_ret ()"
| "flush_loop (i # is) = (\<lambda>s. let e = CACHE_ENTRIES (fst s) i in
     io_bind (if dirty e \<and> valid e
       then io_bind (on_disk (write_sector (sector e) (CACHE_DATA (fst s) i))) (\<lambda>_.
         on_cache (\<lambda>c. count_write (c\<lparr>CACHE_ENTRIES := (CACHE_ENTRIES c)(i := (CACHE_ENTRIES c i)\<lparr>dirty := False\<rparr>)\<rparr>)))
       else io_ret ()) (\<lambda>_. flush_loop is) s)"

definition bcache_flush :: "(cached, unit) io" where
  "bcache_flush = flush_loop [0..<CACHE_SIZE]"

definition invalidate :: "bcache \<Rightarrow> bcache" where
  "invalidate c = c\<lparr>CACHE_ENTRIES := (\<lambda>i. if i < CACHE_SIZE then entry_empty else CACHE_ENTRIES c i)\<rparr>"

definition cached_read_sectors :: "u32 \<Rightarrow> u32 \<Rightarrow> u8 list \<Rightarrow> (cached, u8 list) io" where
  "cached_read_sectors start count buf = rd_checked cached_read start [0..<unat count] buf"

definition cached_write_sectors :: "u32 \<Rightarrow> u32 \<Rightarrow> u8 list \<Rightarrow> (cached, unit) io" where
  "cached_write_sectors start count buf = wr_checked cached_write start [0..<unat count] buf"

definition cache_hit_rate :: "bcache \<Rightarrow> usize" where
  "cache_hit_rate c = (let total = CACHE_HITS c + CACHE_MISSES c in
    if total > 0 then CACHE_HITS c * 100 div total else 0)"

section \<open>Coherence\<close>

text \<open>Every valid slot holds a clean copy of a sector of the drive that maps to it.\<close>

definition coherent :: "cached \<Rightarrow> bool" where
  "coherent s \<longleftrightarrow> disk_ok (snd s) \<and> (\<forall>i. valid (CACHE_ENTRIES (fst s) i) \<longrightarrow>
     \<not> dirty (CACHE_ENTRIES (fst s) i) \<and> sector (CACHE_ENTRIES (fst s) i) < total_sectors (snd s) \<and>
     cache_slot (sector (CACHE_ENTRIES (fst s) i)) = i \<and>
     CACHE_DATA (fst s) i = sectors (snd s) (sector (CACHE_ENTRIES (fst s) i)))"

lemma coherent_boot: "disk_ok d \<Longrightarrow> coherent (bcache_boot, d)"
  by (simp add: coherent_def bcache_boot_def entry_empty_def)

lemma coherent_invalidate: "coherent (c, d) \<Longrightarrow> coherent (invalidate c, d)"
  by (auto simp: coherent_def invalidate_def entry_empty_def)

lemma coherent_store:
  assumes "coherent (c, d)" "sec < total_sectors d" "length buf = SECTOR_SIZE"
  shows "coherent (store_entry sec buf c, d\<lparr>sectors := (sectors d)(sec := buf)\<rparr>)"
  using assms by (auto simp: coherent_def store_entry_def Let_def)

lemma coherent_keep:
  assumes "coherent (c, d)" "sec < total_sectors d"
  shows "coherent (store_entry sec (sectors d sec) c, d)"
  using coherent_store[OF assms, of "sectors d sec"] assms(1) length_sector[of d sec] by (simp add: coherent_def)

lemma coherent_counters:
  "coherent (c\<lparr>CACHE_HITS := n\<rparr>, d) = coherent (c, d)"
  "coherent (c\<lparr>CACHE_MISSES := n\<rparr>, d) = coherent (c, d)"
  "coherent (c\<lparr>CACHE_WRITES := n\<rparr>, d) = coherent (c, d)"
  by (simp_all add: coherent_def)

lemma cached_read_coherent:
  assumes "coherent (c, d)" "sec < total_sectors d"
  shows "\<exists>c'. cached_read sec (c, d) = (Done (sectors d sec), (c', d)) \<and> coherent (c', d)"
proof (cases "valid (CACHE_ENTRIES c (cache_slot sec)) \<and> sector (CACHE_ENTRIES c (cache_slot sec)) = sec")
  case True
  then show ?thesis using assms by (auto simp: cached_read_def cache_lookup_def Let_def coherent_counters) (auto simp: coherent_def)
next
  case False
  have d: "disk_ok d" and nd: "\<not> (dirty (CACHE_ENTRIES c (cache_slot sec)) \<and> valid (CACHE_ENTRIES c (cache_slot sec)))"
    using assms(1) by (auto simp: coherent_def)
  have "read_miss sec (c, d) = (Done (sectors d sec), (store_entry sec (sectors d sec) c, d))"
    unfolding read_miss_def io_bind_def Let_def
    by (simp only: on_disk_def on_cache_def read_sector_ok[OF d assms(2)] prod.case res.case fst_conv snd_conv nd if_False io_simps)
  then show ?thesis using False coherent_keep[OF assms] by (auto simp: cached_read_def Let_def)
qed

lemma cached_read_range:
  assumes "coherent (c, d)" "\<not> sec < total_sectors d"
  shows "cached_read sec (c, d) = (Fail ''LBA out of range'', (c, d))"
proof -
  have "\<not> (valid (CACHE_ENTRIES c (cache_slot sec)) \<and> sector (CACHE_ENTRIES c (cache_slot sec)) = sec)"
    using assms by (auto simp: coherent_def)
  then show ?thesis
    using assms(2) by (auto simp: cached_read_def Let_def read_miss_def io_bind_def on_disk_def read_sector_def not_less)
qed

lemma cached_write_coherent:
  assumes "coherent (c, d)" "sec < total_sectors d" "length buf = SECTOR_SIZE"
  shows "\<exists>c'. cached_write sec buf (c, d) = (Done (), (c', d\<lparr>sectors := (sectors d)(sec := buf)\<rparr>)) \<and>
    coherent (c', d\<lparr>sectors := (sectors d)(sec := buf)\<rparr>)"
proof -
  have d: "disk_ok d" using assms(1) by (simp add: coherent_def)
  have "coherent (count_write c, d)" using assms(1) by (simp add: coherent_counters)
  from coherent_store[OF this assms(2,3)] show ?thesis
    by (simp add: cached_write_def io_bind_def on_disk_def on_cache_def write_sector_ok[OF d assms(2)])
qed

lemma cached_write_range:
  "\<not> sec < total_sectors d \<Longrightarrow> cached_write sec buf (c, d) = (Fail ''LBA out of range'', (c, d))"
  by (simp add: cached_write_def io_bind_def on_disk_def write_sector_def not_less)

lemma flush_coherent: "coherent s \<Longrightarrow> flush_loop is s = (Done (), s)"
  by (induction "is") (auto simp: io_bind_def Let_def coherent_def)

interpretation cache: sector_store coherent "\<lambda>s. sectors (snd s)" "\<lambda>s. total_sectors (snd s)" cached_read cached_write
proof unfold_locales
  show "\<exists>s'. cached_read l s = (Done (sectors (snd s) l), s') \<and> coherent s' \<and> sectors (snd s') = sectors (snd s) \<and>
      total_sectors (snd s') = total_sectors (snd s)" if "coherent s" "l < total_sectors (snd s)" for s l
    using cached_read_coherent[of "fst s" "snd s" l] that by auto
  show "\<exists>s'. cached_write l b s = (Done (), s') \<and> coherent s' \<and> sectors (snd s') = (sectors (snd s))(l := b) \<and>
      total_sectors (snd s') = total_sectors (snd s)"
    if "coherent s" "l < total_sectors (snd s)" "length b = SECTOR_SIZE" for s l b
    using cached_write_coherent[of "fst s" "snd s" l b] that by fastforce
qed (auto simp: cached_read_range cached_write_range coherent_def length_sector)

section \<open>The cache is transparent\<close>

datatype request = Read u32 | Write u32 "u8 list" | Flush | Invalidate

definition well_sized :: "request list \<Rightarrow> bool" where
  "well_sized rs \<longleftrightarrow> (\<forall>l b. Write l b \<in> set rs \<longrightarrow> length b = SECTOR_SIZE)"

fun cached_request :: "request \<Rightarrow> (cached, u8 list) io" where
  "cached_request (Read l) = cached_read l"
| "cached_request (Write l b) = io_bind (cached_write l b) (\<lambda>_. io_ret [])"
| "cached_request Flush = io_bind bcache_flush (\<lambda>_. io_ret [])"
| "cached_request Invalidate = io_bind (on_cache invalidate) (\<lambda>_. io_ret [])"

fun drive_request :: "request \<Rightarrow> (disk, u8 list) io" where
  "drive_request (Read l) = read_sector l"
| "drive_request (Write l b) = io_bind (write_sector l b) (\<lambda>_. io_ret [])"
| "drive_request _ = io_ret []"

text \<open>Serve a list of requests, collecting the answers.\<close>

fun serve :: "('r \<Rightarrow> ('s, 'a) io) \<Rightarrow> 'r list \<Rightarrow> 's \<Rightarrow> 'a res list \<times> 's" where
  "serve f [] s = ([], s)"
| "serve f (r # rs) s = (case f r s of (a, s') \<Rightarrow> case serve f rs s' of (as, s'') \<Rightarrow> (a # as, s''))"

lemma cached_request_same:
  assumes "coherent (c, d)" "well_sized [r]"
  shows "\<exists>c' d'. cached_request r (c, d) = (fst (drive_request r d), (c', d')) \<and> d' = snd (drive_request r d) \<and> coherent (c', d')"
proof (cases r)
  case (Read l)
  have "disk_ok d" using assms(1) by (simp add: coherent_def)
  with Read show ?thesis
    using cached_read_coherent[OF assms(1), of l] cached_read_range[OF assms(1), of l] read_sector_ok[of d l] assms(1)
    by (cases "l < total_sectors d") (auto simp: read_sector_def)
next
  case (Write l b)
  have "disk_ok d" using assms(1) by (simp add: coherent_def)
  moreover have "length b = SECTOR_SIZE" using assms(2) Write by (simp add: well_sized_def)
  ultimately show ?thesis
    using Write cached_write_coherent[OF assms(1), of l b] cached_write_range[of l d b c] write_sector_ok[of d l b] assms(1)
    by (cases "l < total_sectors d") (auto simp: write_sector_def io_bind_def)
next
  case Flush
  then show ?thesis using flush_coherent[OF assms(1)] assms(1) by (simp add: bcache_flush_def io_bind_def)
next
  case Invalidate
  then show ?thesis using coherent_invalidate[OF assms(1)] by (simp add: on_cache_def io_bind_def)
qed

lemma serve_same:
  assumes "coherent (c, d)" "well_sized rs"
  shows "\<exists>c' d'. serve cached_request rs (c, d) = (fst (serve drive_request rs d), (c', d')) \<and> d' = snd (serve drive_request rs d)"
  using assms
proof (induction rs arbitrary: c d)
  case (Cons r rs)
  have "well_sized [r]" "well_sized rs" using Cons.prems(2) by (auto simp: well_sized_def)
  from cached_request_same[OF Cons.prems(1) this(1)] obtain c1 d1 where
    "cached_request r (c, d) = (fst (drive_request r d), (c1, d1))" "d1 = snd (drive_request r d)" "coherent (c1, d1)" by blast
  with Cons.IH[OF this(3) \<open>well_sized rs\<close>] show ?case by (auto split: prod.splits)
qed simp

text \<open>
  C18: the sector cache is transparent.  On a drive that reports no error, every sequence of
  reads, writes, flushes and invalidations through an initially empty cache gives the
  same answers, out-of-range errors included, and leaves the same contents on the drive
  as the driver without a cache.
\<close>

theorem bcache_transparent:
  assumes "disk_ok d" "well_sized rs"
  shows "\<exists>c'. serve cached_request rs (bcache_boot, d) =
    (fst (serve drive_request rs d), (c', snd (serve drive_request rs d)))"
  using serve_same[OF coherent_boot[OF assms(1)] assms(2)] by blast

definition blank_disk :: "u32 \<Rightarrow> disk" where
  "blank_disk n = \<lparr>total_sectors = n, sectors = (\<lambda>_. replicate SECTOR_SIZE 0), fault = (\<lambda>_. None), late_fault = (\<lambda>_. None)\<rparr>"

lemma blank_disk_ok [simp]: "disk_ok (blank_disk n)" "total_sectors (blank_disk n) = n"
  by (simp_all add: disk_ok_def blank_disk_def)

theorem bcache_transparent_witness:
  "\<exists>c'. serve cached_request [Write 3 (replicate SECTOR_SIZE 7), Read 67, Read 3, Read 200] (bcache_boot, blank_disk 100) =
    ([Done [], Done (replicate SECTOR_SIZE 0), Done (replicate SECTOR_SIZE 7), Fail ''LBA out of range''],
     (c', (blank_disk 100)\<lparr>sectors := (\<lambda>_. replicate SECTOR_SIZE 0)(3 := replicate SECTOR_SIZE 7)\<rparr>))"
proof -
  have "serve drive_request [Write 3 (replicate SECTOR_SIZE 7), Read 67, Read 3, Read 200] (blank_disk 100) =
    ([Done [], Done (replicate SECTOR_SIZE 0), Done (replicate SECTOR_SIZE 7), Fail ''LBA out of range''],
     (blank_disk 100)\<lparr>sectors := (\<lambda>_. replicate SECTOR_SIZE 0)(3 := replicate SECTOR_SIZE 7)\<rparr>)"
    by (simp add: io_bind_def write_sector_def read_sector_def blank_disk_def Let_def)
  then show ?thesis
    using bcache_transparent[of "blank_disk 100" "[Write 3 (replicate SECTOR_SIZE 7), Read 67, Read 3, Read 200]"]
    by (simp add: well_sized_def)
qed

text \<open>
  The miss counter is only advanced by a lookup that misses, and a read looks a sector
  up only when it is there: no miss is ever counted.
\<close>

lemma cached_read_counts_no_miss: "CACHE_MISSES (fst (snd (cached_read sec s))) = CACHE_MISSES (fst s)"
  by (auto simp: cached_read_def cache_lookup_def read_miss_def io_bind_def on_disk_def on_cache_def store_entry_def Let_def
      split: prod.splits res.splits)

end
