(* ===== verification/Zohfs.thy ===== *)
theory Zohfs
  imports Bcache Bytes
begin

text \<open>
  ZohFS, the on-disk file system (\<open>src/fs/zohfs.rs\<close>): a superblock, a block bitmap, 32
  inodes of ten direct blocks and one root directory, kept in memory while mounted and
  written through the sector cache.  A state is the in-memory file system with the cache
  and the drive.  The on-disk structures are written as the bytes of their \<open>repr(C)\<close>
  layout; the two padding bytes of an inode are written as zero and never read.
\<close>

definition ZOHFS_MAGIC :: u32 where "ZOHFS_MAGIC = 0x5A4F4853"
definition ZOHFS_VERSION :: u32 where "ZOHFS_VERSION = 1"
definition BLOCK_SIZE :: nat where "BLOCK_SIZE = 4096"
definition SECTORS_PER_BLOCK :: nat where "SECTORS_PER_BLOCK = 8"
definition MAX_INODES :: nat where "MAX_INODES = 32"
definition DIRECT_BLOCKS :: nat where "DIRECT_BLOCKS = 10"
definition ROOT_INODE :: nat where "ROOT_INODE = 1"
definition BITMAP_WORDS :: nat where "BITMAP_WORDS = 64"

record Superblock =
  magic :: u32
  version :: u32
  block_size :: u32
  total_blocks :: u32
  inode_count :: u32
  free_blocks :: u32
  root_inode :: u32
  bitmap_start_sector :: u32
  inode_start_sector :: u32
  data_start_sector :: u32
  sb_reserved :: "u32 list"

record Inode =
  mode :: u16
  isize :: u32
  block_count :: u32
  direct_blocks :: "u32 list"
  indirect_block :: u32
  inode_reserved :: "u32 list"

definition inode_empty :: Inode where
  "inode_empty = \<lparr>mode = 0, isize = 0, block_count = 0, direct_blocks = replicate DIRECT_BLOCKS 0,
     indirect_block = 0, inode_reserved = replicate 2 0\<rparr>"

definition zohfs_is_dir :: "Inode \<Rightarrow> bool" where "zohfs_is_dir n \<longleftrightarrow> mode n AND 0x4000 \<noteq> 0"
definition zohfs_is_file :: "Inode \<Rightarrow> bool" where "zohfs_is_file n \<longleftrightarrow> mode n AND 0x8000 \<noteq> 0"
definition set_dir :: "Inode \<Rightarrow> Inode" where "set_dir n = n\<lparr>mode := 0x41ED\<rparr>"
definition set_file :: "Inode \<Rightarrow> Inode" where "set_file n = n\<lparr>mode := 0x81A4\<rparr>"

record DirEntry =
  d_inode :: u32
  d_name :: "u8 list"
  entry_type :: u16
  d_reserved :: u16

definition dirent_empty :: DirEntry where
  "dirent_empty = \<lparr>d_inode = 0, d_name = replicate 56 0, entry_type = 0, d_reserved = 0\<rparr>"

record zohfs =
  FS_SUPER :: Superblock
  FS_MOUNTED :: bool
  BITMAP :: "nat \<Rightarrow> u64"
  INODES :: "nat \<Rightarrow> Inode"
  ROOT_DIR :: "nat \<Rightarrow> DirEntry"
  ROOT_DIR_COUNT :: nat

definition zohfs_boot :: zohfs where
  "zohfs_boot = \<lparr>FS_SUPER = \<lparr>magic = 0, version = 0, block_size = 0, total_blocks = 0, inode_count = 0, free_blocks = 0,
       root_inode = 0, bitmap_start_sector = 0, inode_start_sector = 0, data_start_sector = 0, sb_reserved = replicate 3 0\<rparr>,
     FS_MOUNTED = False, BITMAP = (\<lambda>_. 0), INODES = (\<lambda>_. inode_empty), ROOT_DIR = (\<lambda>_. dirent_empty), ROOT_DIR_COUNT = 0\<rparr>"

type_synonym zstate = "zohfs \<times> cached"

definition on_store :: "(cached, 'a) io \<Rightarrow> (zstate, 'a) io" where
  "on_store m s = (case m (snd s) of (r, c) \<Rightarrow> (r, (fst s, c)))"

definition getz :: "(zohfs \<Rightarrow> 'a) \<Rightarrow> (zstate, 'a) io" where
  "getz f s = (Done (f (fst s)), s)"

definition modz :: "(zohfs \<Rightarrow> zohfs) \<Rightarrow> (zstate, unit) io" where
  "modz f s = (Done (), (f (fst s), snd s))"

section \<open>The on-disk layout\<close>

definition enc16 :: "u16 \<Rightarrow> u8 list" where "enc16 w = le_bytes 2 (unat w)"
definition enc32 :: "u32 \<Rightarrow> u8 list" where "enc32 w = le_bytes 4 (unat w)"
definition enc64 :: "u64 \<Rightarrow> u8 list" where "enc64 w = le_bytes 8 (unat w)"

definition sb_bytes :: "Superblock \<Rightarrow> u8 list" where
  "sb_bytes b = concat (map enc32 ([magic b, version b, block_size b, total_blocks b, inode_count b, free_blocks b, root_inode b,
     bitmap_start_sector b, inode_start_sector b, data_start_sector b] @ sb_reserved b))"

definition sb_read :: "u8 list \<Rightarrow> Superblock" where
  "sb_read buf = \<lparr>magic = get_u32 buf 0, version = get_u32 buf 4, block_size = get_u32 buf 8, total_blocks = get_u32 buf 12,
     inode_count = get_u32 buf 16, free_blocks = get_u32 buf 20, root_inode = get_u32 buf 24,
     bitmap_start_sector = get_u32 buf 28, inode_start_sector = get_u32 buf 32, data_start_sector = get_u32 buf 36,
     sb_reserved = map (\<lambda>i. get_u32 buf (40 + 4 * i)) [0..<3]\<rparr>"

definition inode_bytes :: "Inode \<Rightarrow> u8 list" where
  "inode_bytes n = enc16 (mode n) @ [0, 0] @ concat (map enc32 ([isize n, block_count n] @ direct_blocks n @ [indirect_block n] @ inode_reserved n))"

definition inode_read :: "u8 list \<Rightarrow> nat \<Rightarrow> Inode" where
  "inode_read buf off = \<lparr>mode = get_u16 buf off, isize = get_u32 buf (off + 4), block_count = get_u32 buf (off + 8),
     direct_blocks = map (\<lambda>i. get_u32 buf (off + 12 + 4 * i)) [0..<DIRECT_BLOCKS], indirect_block = get_u32 buf (off + 52),
     inode_reserved = map (\<lambda>i. get_u32 buf (off + 56 + 4 * i)) [0..<2]\<rparr>"

definition dirent_bytes :: "DirEntry \<Rightarrow> u8 list" where
  "dirent_bytes e = enc32 (d_inode e) @ d_name e @ enc16 (entry_type e) @ enc16 (d_reserved e)"

definition dirent_read :: "u8 list \<Rightarrow> nat \<Rightarrow> DirEntry" where
  "dirent_read buf off = \<lparr>d_inode = get_u32 buf off, d_name = get_slice buf (off + 4) 56,
     entry_type = get_u16 buf (off + 60), d_reserved = get_u16 buf (off + 62)\<rparr>"

definition bitmap_buf :: "zohfs \<Rightarrow> u8 list" where
  "bitmap_buf z = concat (map (\<lambda>i. enc64 (BITMAP z i)) [0..<BITMAP_WORDS]) @ replicate (3584 - 8 * BITMAP_WORDS) 0"

definition inode_buf :: "zohfs \<Rightarrow> u8 list" where
  "inode_buf z = concat (map (\<lambda>i. inode_bytes (INODES z i) @ replicate 960 0) [0..<MAX_INODES])"

text \<open>The first sector of a data block; blocks are numbered from 1.\<close>

definition block_sector :: "u32 \<Rightarrow> u32 \<Rightarrow> u32" where
  "block_sector ds block = ds + (block - 1) * of_nat SECTORS_PER_BLOCK"

section \<open>Mounting and formatting\<close>

text \<open>
  \<open>init\<close>.  The directory entries are read from a buffer of one sector, with up to 64 entries
  of 64 bytes: \<open>beyond\<close> is the memory after that buffer.
\<close>

definition read_root_dir :: "u8 list \<Rightarrow> (zstate, unit) io" where
  "read_root_dir beyond s = (let z = fst s; root = INODES z ROOT_INODE; block = direct_blocks root ! 0 in
     if block_count root > 0 \<and> block > 0
     then io_bind (on_store (cached_read (block_sector (data_start_sector (FS_SUPER z)) block))) (\<lambda>dir_buf.
       modz (\<lambda>z. let count = min (unat (isize (INODES z ROOT_INODE)) div 64) 64 in
         z\<lparr>ROOT_DIR_COUNT := count,
           ROOT_DIR := (\<lambda>i. if i < count then dirent_read (dir_buf @ beyond) (i * 64) else ROOT_DIR z i)\<rparr>)) s
     else (Done (), s))"

definition zohfs_init :: "u8 list \<Rightarrow> (zstate, unit) io" where
  "zohfs_init beyond s =
    (if \<not> is_present (snd (snd s)) then (Done (), s)
     else io_bind (on_store (cached_read 0)) (\<lambda>buf. let sb = sb_read buf in
       if magic sb \<noteq> ZOHFS_MAGIC then io_ret ()
       else
         io_bind (modz (\<lambda>z. z\<lparr>FS_SUPER := sb, FS_MOUNTED := True\<rparr>)) (\<lambda>_.
         io_bind (on_store (cached_read_sectors 1 7 (replicate 3584 0))) (\<lambda>bitmap_buf.
         io_bind (modz (\<lambda>z. z\<lparr>BITMAP := (\<lambda>i. if i < BITMAP_WORDS then get_u64 bitmap_buf (i * 8) else BITMAP z i)\<rparr>)) (\<lambda>_.
         io_bind (on_store (cached_read_sectors 8 64 (replicate (32 * 1024) 0))) (\<lambda>inode_buf.
         io_bind (modz (\<lambda>z. z\<lparr>INODES := (\<lambda>i. if i < MAX_INODES then inode_read inode_buf (i * 1024) else INODES z i)\<rparr>)) (\<lambda>_.
         read_root_dir beyond)))))) s)"

definition set_bit64 :: "nat \<Rightarrow> (nat \<Rightarrow> u64) \<Rightarrow> nat \<Rightarrow> u64" where
  "set_bit64 i bm = bm(i div 64 := bm (i div 64) OR push_bit (i mod 64) 1)"

definition clear_bit64 :: "nat \<Rightarrow> (nat \<Rightarrow> u64) \<Rightarrow> nat \<Rightarrow> u64" where
  "clear_bit64 i bm = bm(i div 64 := bm (i div 64) AND NOT (push_bit (i mod 64) 1))"

definition mkfs_super :: "u32 \<Rightarrow> Superblock" where
  "mkfs_super sects = (let data_start = 72; total = (if sects \<ge> data_start then sects - data_start else 0) div 8 in
     \<lparr>magic = ZOHFS_MAGIC, version = ZOHFS_VERSION, block_size = of_nat BLOCK_SIZE, total_blocks = total,
      inode_count = of_nat MAX_INODES, free_blocks = total - data_start div 8, root_inode = of_nat ROOT_INODE,
      bitmap_start_sector = 1, inode_start_sector = 8, data_start_sector = data_start, sb_reserved = replicate 3 0\<rparr>)"

definition mkfs_root :: Inode where
  "mkfs_root = (set_dir inode_empty)\<lparr>block_count := 1, direct_blocks := (replicate DIRECT_BLOCKS 0)[0 := 1], isize := 0\<rparr>"

definition mkfs_memory :: "zohfs \<Rightarrow> zohfs" where
  "mkfs_memory z = z\<lparr>
     BITMAP := set_bit64 1 (fold set_bit64 [0..<10] (\<lambda>i. if i < BITMAP_WORDS then 0 else BITMAP z i)),
     INODES := (\<lambda>i. if i < MAX_INODES then inode_empty else INODES z i)(ROOT_INODE := mkfs_root),
     ROOT_DIR := (\<lambda>i. if i < 64 then dirent_empty else ROOT_DIR z i), ROOT_DIR_COUNT := 0\<rparr>"

text \<open>\<open>mkfs\<close> copies 128 bytes from the 52 bytes of the superblock: \<open>beyond\<close> is the memory after it.\<close>

definition mkfs :: "u8 list \<Rightarrow> (zstate, unit) io" where
  "mkfs beyond s = (let d = snd (snd s) in
     if \<not> is_present d then (Fail ''no disk present'', s)
     else io_bind (modz mkfs_memory) (\<lambda>_.
       io_bind (on_store (cached_write 0 (put_slice (replicate SECTOR_SIZE 0) 0
           (sb_bytes (mkfs_super (ide_total_sectors d)) @ take 76 beyond)))) (\<lambda>_.
       io_bind (getz bitmap_buf) (\<lambda>bm.
       io_bind (on_store (cached_write_sectors 1 7 bm)) (\<lambda>_.
       io_bind (getz inode_buf) (\<lambda>inodes.
       io_bind (on_store (cached_write_sectors 8 64 inodes)) (\<lambda>_.
       on_store (on_disk (write_sector 72 (replicate SECTOR_SIZE 0))))))))) s)"

definition zohfs_is_mounted :: "zohfs \<Rightarrow> bool" where
  "zohfs_is_mounted z = FS_MOUNTED z"

section \<open>Inodes, blocks and the root directory\<close>

definition alloc_inode :: "(zstate, u32) io" where
  "alloc_inode s = (case scan (\<lambda>i. mode (INODES (fst s) i) = 0) 1 MAX_INODES of
     Some i \<Rightarrow> (Done (of_nat i), s) | None \<Rightarrow> (Fail ''no free inodes'', s))"

definition free_inode :: "u32 \<Rightarrow> (zstate, unit) io" where
  "free_inode inode = (if inode = 0 \<or> unat inode \<ge> MAX_INODES then io_fail ''invalid inode''
     else modz (\<lambda>z. z\<lparr>INODES := (INODES z)(unat inode := inode_empty)\<rparr>))"

text \<open>The search stops at the first clear bit, or panics past the last word of the bitmap.\<close>

definition alloc_block :: "(zstate, u32) io" where
  "alloc_block s = (let z = fst s in
     case scan (\<lambda>i. i div 64 \<ge> BITMAP_WORDS \<or> \<not> bit (BITMAP z (i div 64)) (i mod 64)) 0 (unat (total_blocks (FS_SUPER z))) of
       Some i \<Rightarrow> if i div 64 \<ge> BITMAP_WORDS then (Crash, s)
         else (Done (of_nat i), (z\<lparr>BITMAP := set_bit64 i (BITMAP z),
           FS_SUPER := (FS_SUPER z)\<lparr>free_blocks := (if free_blocks (FS_SUPER z) \<ge> 1 then free_blocks (FS_SUPER z) - 1 else 0)\<rparr>\<rparr>, snd s))
     | None \<Rightarrow> (Fail ''no free blocks'', s))"

fun free_blocks_loop :: "u32 list \<Rightarrow> (zstate, unit) io" where
  "free_blocks_loop [] = io_ret ()"
| "free_blocks_loop (block # bs) =
    (if block > 0 then
       (if unat block div 64 \<ge> BITMAP_WORDS then io_crash
        else io_bind (modz (\<lambda>z. z\<lparr>BITMAP := clear_bit64 (unat block) (BITMAP z),
            FS_SUPER := (FS_SUPER z)\<lparr>free_blocks := free_blocks (FS_SUPER z) + 1\<rparr>\<rparr>)) (\<lambda>_. free_blocks_loop bs))
     else free_blocks_loop bs)"

definition free_inode_blocks :: "u32 \<Rightarrow> (zstate, unit) io" where
  "free_inode_blocks inode_num = (if inode_num = 0 \<or> unat inode_num \<ge> MAX_INODES then io_fail ''invalid inode''
     else (\<lambda>s. let inode = INODES (fst s) (unat inode_num) in
       free_blocks_loop (take (min (unat (block_count inode)) DIRECT_BLOCKS) (direct_blocks inode)) s))"

text \<open>The name of an entry: the bytes before the first zero, if they are UTF-8.\<close>

definition entry_name :: "DirEntry \<Rightarrow> u8 list option" where
  "entry_name e = (let nb = takeWhile (\<lambda>b. b \<noteq> 0) (d_name e) in if utf8_valid nb then Some nb else None)"

definition find_in_root :: "u8 list \<Rightarrow> zohfs \<Rightarrow> nat option" where
  "find_in_root name z = scan (\<lambda>i. d_inode (ROOT_DIR z i) \<noteq> 0 \<and>
     (case entry_name (ROOT_DIR z i) of Some nb \<Rightarrow> nb | None \<Rightarrow> []) = name) 0 (ROOT_DIR_COUNT z)"

definition find_file :: "u8 list \<Rightarrow> zohfs \<Rightarrow> u32 option" where
  "find_file name z = map_option (\<lambda>i. d_inode (ROOT_DIR z i)) (find_in_root name z)"

definition dir_buf :: "zohfs \<Rightarrow> u8 list" where
  "dir_buf z = (let n = min (ROOT_DIR_COUNT z) 8 in
     concat (map (\<lambda>i. dirent_bytes (ROOT_DIR z i)) [0..<n]) @ replicate (SECTOR_SIZE - 64 * n) 0)"

definition flush_root_dir :: "(zstate, unit) io" where
  "flush_root_dir s = (let z = fst s; block = direct_blocks (INODES z ROOT_INODE) ! 0 in
     if block = 0 then (Done (), s)
     else io_bind (on_store (cached_write (block_sector (data_start_sector (FS_SUPER z)) block) (dir_buf z))) (\<lambda>_.
       io_bind (on_store (cached_write 0 (put_slice (replicate SECTOR_SIZE 0) 0 (sb_bytes (FS_SUPER z))))) (\<lambda>_.
       io_bind (on_store (cached_write_sectors 1 7 (bitmap_buf z))) (\<lambda>_.
       on_store (cached_write_sectors 8 64 (inode_buf z))))) s)"

definition add_to_root :: "u8 list \<Rightarrow> u32 \<Rightarrow> bool \<Rightarrow> (zstate, u32) io" where
  "add_to_root name inode_num dir s =
    (if ROOT_DIR_COUNT (fst s) \<ge> 64 then (Fail ''root directory full'', s)
     else io_bind (modz (\<lambda>z. let n = ROOT_DIR_COUNT z; e = ROOT_DIR z n; len = min (length name) 55 in
         z\<lparr>ROOT_DIR := (ROOT_DIR z)(n := e\<lparr>d_name := (put_slice (d_name e) 0 (take len name))[len := 0],
             d_inode := inode_num, entry_type := (if dir then 1 else 0), d_reserved := 0\<rparr>),
           ROOT_DIR_COUNT := n + 1,
           INODES := (INODES z)(ROOT_INODE := (INODES z ROOT_INODE)\<lparr>isize := of_nat ((n + 1) * 64)\<rparr>)\<rparr>)) (\<lambda>_.
       io_bind flush_root_dir (\<lambda>_. io_ret inode_num)) s)"

section \<open>Files\<close>

definition zohfs_create_file :: "u8 list \<Rightarrow> (zstate, u32) io" where
  "zohfs_create_file name s =
    (if \<not> FS_MOUNTED (fst s) then (Fail ''filesystem not mounted'', s)
     else if find_in_root name (fst s) \<noteq> None then (Fail ''file exists'', s)
     else io_bind alloc_inode (\<lambda>i.
       io_bind (modz (\<lambda>z. z\<lparr>INODES := (INODES z)(unat i := (set_file (INODES z (unat i)))\<lparr>isize := 0\<rparr>)\<rparr>)) (\<lambda>_.
       add_to_root name i False)) s)"

definition zohfs_create_dir :: "u8 list \<Rightarrow> (zstate, u32) io" where
  "zohfs_create_dir name s =
    (if \<not> FS_MOUNTED (fst s) then (Fail ''filesystem not mounted'', s)
     else if find_in_root name (fst s) \<noteq> None then (Fail ''directory exists'', s)
     else io_bind alloc_inode (\<lambda>i.
       io_bind (modz (\<lambda>z. z\<lparr>INODES := (INODES z)(unat i := (set_dir (INODES z (unat i)))\<lparr>isize := 0\<rparr>)\<rparr>)) (\<lambda>_.
       add_to_root name i True)) s)"

definition read_block :: "u32 \<Rightarrow> (zstate, u8 list) io" where
  "read_block sec = on_store (rd_each cached_read sec [0..<SECTORS_PER_BLOCK] (replicate BLOCK_SIZE 0))"

definition write_block :: "u32 \<Rightarrow> u8 list \<Rightarrow> (zstate, unit) io" where
  "write_block sec block_buf = on_store (wr_each cached_write sec [0..<SECTORS_PER_BLOCK] block_buf)"

text \<open>The loop of \<open>read_file_data\<close>, and the number of bytes it has put at the start of \<open>buf\<close>.\<close>

function read_loop :: "Inode \<Rightarrow> nat \<Rightarrow> nat \<Rightarrow> nat \<Rightarrow> u8 list \<Rightarrow> (zstate, nat \<times> u8 list) io" where
  "read_loop inode to_read pos bytes_read buf =
    (if \<not> bytes_read < to_read then io_ret (bytes_read, buf)
     else if pos div BLOCK_SIZE \<ge> DIRECT_BLOCKS then io_ret (bytes_read, buf)
     else if direct_blocks inode ! (pos div BLOCK_SIZE) = 0 then io_ret (bytes_read, buf)
     else io_bind (getz (\<lambda>z. data_start_sector (FS_SUPER z))) (\<lambda>ds.
       io_bind (read_block (block_sector ds (direct_blocks inode ! (pos div BLOCK_SIZE)))) (\<lambda>block_buf.
         let n = min (to_read - bytes_read) (BLOCK_SIZE - pos mod BLOCK_SIZE) in
         read_loop inode to_read (pos + n) (bytes_read + n) (put_slice buf bytes_read (get_slice block_buf (pos mod BLOCK_SIZE) n)))))"
  by auto
termination
proof (relation "measure (\<lambda>(inode, to_read, pos, bytes_read, buf). to_read - bytes_read)", goal_cases)
  case (2 inode to_read pos bytes_read buf x xa n)
  then have "0 < n" by (auto simp: BLOCK_SIZE_def)
  then show ?case using 2 by auto
qed simp

definition read_file_data :: "u32 \<Rightarrow> nat \<Rightarrow> u8 list \<Rightarrow> (zstate, nat \<times> u8 list) io" where
  "read_file_data inode_num offset buf s =
    (if \<not> FS_MOUNTED (fst s) then (Fail ''filesystem not mounted'', s)
     else if inode_num = 0 \<or> unat inode_num \<ge> MAX_INODES then (Fail ''invalid inode'', s)
     else let inode = INODES (fst s) (unat inode_num) in
       if \<not> zohfs_is_file inode then (Fail ''not a file'', s)
       else if offset \<ge> unat (isize inode) then (Done (0, buf), s)
       else read_loop inode (min (length buf) (unat (isize inode) - offset)) offset 0 buf s)"

text \<open>
  The loop of \<open>write_file_data\<close> over the copy of the inode it works on: \<open>data\<close> is what is left to
  write, \<open>written\<close> the number of bytes written so far.
\<close>

definition ensure_block :: "nat \<Rightarrow> Inode \<Rightarrow> (zstate, Inode) io" where
  "ensure_block block_idx inode =
    (if direct_blocks inode ! block_idx = 0
     then io_bind alloc_block (\<lambda>block_num. io_ret (inode\<lparr>direct_blocks := (direct_blocks inode)[block_idx := block_num],
       block_count := of_nat block_idx + 1\<rparr>))
     else io_ret inode)"

function write_loop :: "Inode \<Rightarrow> nat \<Rightarrow> nat \<Rightarrow> u8 list \<Rightarrow> (zstate, Inode \<times> nat) io" where
  "write_loop inode pos bytes_written data =
    (if data = [] then io_ret (inode, bytes_written)
     else if pos div BLOCK_SIZE \<ge> DIRECT_BLOCKS then io_ret (inode, bytes_written)
     else io_bind (ensure_block (pos div BLOCK_SIZE) inode) (\<lambda>inode'.
       io_bind (getz (\<lambda>z. data_start_sector (FS_SUPER z))) (\<lambda>ds.
       let sec = block_sector ds (direct_blocks inode' ! (pos div BLOCK_SIZE)) in
       io_bind (read_block sec) (\<lambda>block_buf.
       let n = min (length data) (BLOCK_SIZE - pos mod BLOCK_SIZE) in
       io_bind (write_block sec (put_slice block_buf (pos mod BLOCK_SIZE) (take n data))) (\<lambda>_.
       write_loop inode' (pos + n) (bytes_written + n) (drop n data))))))"
  by auto
termination
proof (relation "measure (\<lambda>(inode, pos, bytes_written, data). length data)", goal_cases)
  case (2 inode pos bytes_written data x xa xb xc n xd)
  then have "0 < n" by (auto simp: BLOCK_SIZE_def)
  then show ?case using 2 by auto
qed simp

definition write_file_data :: "u32 \<Rightarrow> nat \<Rightarrow> u8 list \<Rightarrow> (zstate, nat) io" where
  "write_file_data inode_num offset data s =
    (if \<not> FS_MOUNTED (fst s) then (Fail ''filesystem not mounted'', s)
     else if inode_num = 0 \<or> unat inode_num \<ge> MAX_INODES then (Fail ''invalid inode'', s)
     else let inode = INODES (fst s) (unat inode_num) in
       if \<not> zohfs_is_file inode then (Fail ''not a file'', s)
       else io_bind (write_loop inode offset 0 data) (\<lambda>(inode', bytes_written).
         let new_size = offset + bytes_written;
             inode'' = (if new_size > unat (isize inode') then inode'\<lparr>isize := of_nat new_size\<rparr> else inode') in
         io_bind (modz (\<lambda>z. z\<lparr>INODES := (INODES z)(unat inode_num := inode'')\<rparr>)) (\<lambda>_. io_ret bytes_written)) s)"

definition delete_file :: "u8 list \<Rightarrow> (zstate, unit) io" where
  "delete_file name s =
    (if \<not> FS_MOUNTED (fst s) then (Fail ''filesystem not mounted'', s)
     else case find_in_root name (fst s) of
       None \<Rightarrow> (Fail ''file not found'', s)
     | Some entry_idx \<Rightarrow> let inode_num = d_inode (ROOT_DIR (fst s) entry_idx) in
         io_bind (modz (\<lambda>z. z\<lparr>ROOT_DIR := (ROOT_DIR z)(entry_idx := dirent_empty), ROOT_DIR_COUNT := ROOT_DIR_COUNT z - 1,
           INODES := (INODES z)(ROOT_INODE := (INODES z ROOT_INODE)\<lparr>isize := of_nat ((ROOT_DIR_COUNT z - 1) * 64)\<rparr>)\<rparr>)) (\<lambda>_.
         io_bind (free_inode_blocks inode_num) (\<lambda>_.
         io_bind (free_inode inode_num) (\<lambda>_.
         flush_root_dir))) s)"

definition readdir_root :: "zohfs \<Rightarrow> (u8 list \<times> u32 \<times> bool) list" where
  "readdir_root z = map (\<lambda>i. (case entry_name (ROOT_DIR z i) of Some nb \<Rightarrow> nb | None \<Rightarrow> [0x3F], d_inode (ROOT_DIR z i), entry_type (ROOT_DIR z i) = 1))
     (filter (\<lambda>i. d_inode (ROOT_DIR z i) \<noteq> 0) [0..<ROOT_DIR_COUNT z])"

end
