(* ===== verification/Zohfs_Files.thy ===== *)
theory Zohfs_Files
  imports Zohfs
begin

text \<open>
  The files of ZohFS: well-formed file systems, the contents of blocks, and what reads and
  writes of file data do to them.
\<close>

section \<open>Well-formed file systems\<close>

text \<open>
  \<open>used bm b\<close>: block \<open>b\<close> is marked in the bitmap.  A file system is well formed when the bitmap covers
  its blocks, block 0 is marked, and the blocks of the inodes exist, are marked, and belong to
  one inode each.
\<close>

definition used :: "(nat \<Rightarrow> u64) \<Rightarrow> nat \<Rightarrow> bool" where
  "used bm b \<longleftrightarrow> bit (bm (b div 64)) (b mod 64)"

abbreviation blk :: "Inode \<Rightarrow> nat \<Rightarrow> u32" where "blk n k \<equiv> direct_blocks n ! k"

abbreviation zblocks :: "zohfs \<Rightarrow> nat" where "zblocks z \<equiv> unat (total_blocks (FS_SUPER z))"

definition free_set :: "zohfs \<Rightarrow> nat set" where
  "free_set z = {b. b < zblocks z \<and> \<not> used (BITMAP z) b}"

definition zwf :: "zohfs \<Rightarrow> bool" where
  "zwf z \<longleftrightarrow> zblocks z \<le> 4096 \<and> used (BITMAP z) 0 \<and>
     (\<forall>i<MAX_INODES. length (direct_blocks (INODES z i)) = DIRECT_BLOCKS) \<and>
     (\<forall>i<MAX_INODES. \<forall>k<DIRECT_BLOCKS. blk (INODES z i) k \<noteq> 0 \<longrightarrow>
        unat (blk (INODES z i) k) < zblocks z \<and> used (BITMAP z) (unat (blk (INODES z i) k))) \<and>
     (\<forall>i<MAX_INODES. \<forall>k<DIRECT_BLOCKS. \<forall>j<MAX_INODES. \<forall>l<DIRECT_BLOCKS.
        blk (INODES z i) k \<noteq> 0 \<and> blk (INODES z i) k = blk (INODES z j) l \<longrightarrow> i = j \<and> k = l)"

definition zfits :: "zohfs \<Rightarrow> disk \<Rightarrow> bool" where
  "zfits z d \<longleftrightarrow> 72 \<le> unat (data_start_sector (FS_SUPER z)) \<and>
     unat (data_start_sector (FS_SUPER z)) + 8 * zblocks z \<le> unat (total_sectors d)"

definition zinv :: "zstate \<Rightarrow> bool" where
  "zinv s \<longleftrightarrow> coherent (snd s) \<and> zwf (fst s) \<and> zfits (fst s) (snd (snd s))"

lemma divmod64_eq: "(b div 64 = i div 64 \<and> b mod 64 = i mod 64) = (b = (i :: nat))"
  by (metis div_mult_mod_eq)

lemma bit_one_at: "i < 64 \<Longrightarrow> bit (push_bit i (1 :: u64)) b \<longleftrightarrow> b = i"
  by (auto simp: bit_simps)

lemma used_set_bit64: "used (set_bit64 i bm) b \<longleftrightarrow> b = i \<or> used bm b"
proof (cases "b div 64 = i div 64")
  case True
  have "bit (push_bit (i mod 64) (1 :: u64)) (b mod 64) \<longleftrightarrow> b mod 64 = i mod 64"
    by (simp only: bit_one_at[OF mod_less_divisor[OF zero_less_numeral]])
  then show ?thesis using True divmod64_eq[of b i] by (auto simp: used_def set_bit64_def bit_or_iff simp del: push_bit_of_1)
next
  case False
  then show ?thesis by (auto simp: used_def set_bit64_def)
qed

lemma used_clear_bit64: "used (clear_bit64 i bm) b \<longleftrightarrow> b \<noteq> i \<and> used bm b"
proof (cases "b div 64 = i div 64")
  case True
  have "bit (push_bit (i mod 64) (1 :: u64)) (b mod 64) \<longleftrightarrow> b mod 64 = i mod 64"
    by (simp only: bit_one_at[OF mod_less_divisor[OF zero_less_numeral]])
  moreover have "b mod 64 < LENGTH(64)" by simp
  ultimately show ?thesis using True divmod64_eq[of b i] by (auto simp: used_def clear_bit64_def bit_and_iff bit_not_iff simp del: push_bit_of_1)
next
  case False
  then show ?thesis by (auto simp: used_def clear_bit64_def)
qed

text \<open>The memory after taking block \<open>b\<close>.\<close>

definition took :: "nat \<Rightarrow> zohfs \<Rightarrow> zohfs" where
  "took b z = z\<lparr>BITMAP := set_bit64 b (BITMAP z),
     FS_SUPER := (FS_SUPER z)\<lparr>free_blocks := (if free_blocks (FS_SUPER z) \<ge> 1 then free_blocks (FS_SUPER z) - 1 else 0)\<rparr>\<rparr>"

lemma took_simps [simp]:
  "INODES (took b z) = INODES z" "zblocks (took b z) = zblocks z" "FS_MOUNTED (took b z) = FS_MOUNTED z"
  "data_start_sector (FS_SUPER (took b z)) = data_start_sector (FS_SUPER z)"
  "total_blocks (FS_SUPER (took b z)) = total_blocks (FS_SUPER z)"
  "ROOT_DIR (took b z) = ROOT_DIR z" "ROOT_DIR_COUNT (took b z) = ROOT_DIR_COUNT z"
  "used (BITMAP (took b z)) x \<longleftrightarrow> x = b \<or> used (BITMAP z) x"
  "free_set (took b z) = free_set z - {b}"
  by (auto simp: took_def used_set_bit64 free_set_def)

lemma finite_free_set [simp]: "finite (free_set z)"
  by (simp add: free_set_def)

text \<open>The lowest clear bit of a bitmap that covers the blocks, if any.\<close>

lemma alloc_block_spec:
  assumes "zblocks z \<le> 4096"
  shows "alloc_block (z, c) = (case scan (\<lambda>b. \<not> used (BITMAP z) b) 0 (zblocks z) of
      Some b \<Rightarrow> (Done (of_nat b), (took b z, c)) | None \<Rightarrow> (Fail ''no free blocks'', (z, c)))"
proof -
  have "scan (\<lambda>i. BITMAP_WORDS \<le> i div 64 \<or> \<not> bit (BITMAP z (i div 64)) (i mod 64)) 0 (zblocks z) =
      scan (\<lambda>b. \<not> used (BITMAP z) b) 0 (zblocks z)"
    unfolding scan_def
  proof (rule find_cong[OF refl])
    fix b assume "b \<in> set [0..<zblocks z]"
    then have "\<not> BITMAP_WORDS \<le> b div 64" using assms by (auto simp: BITMAP_WORDS_def)
    then show "(BITMAP_WORDS \<le> b div 64 \<or> \<not> bit (BITMAP z (b div 64)) (b mod 64)) = (\<not> used (BITMAP z) b)"
      by (simp add: used_def)
  qed
  moreover have "\<not> BITMAP_WORDS \<le> b div 64" if "scan (\<lambda>b. \<not> used (BITMAP z) b) 0 (zblocks z) = Some b" for b
    using scan_SomeD(2)[OF that] assms by (auto simp: BITMAP_WORDS_def)
  ultimately show ?thesis by (auto simp: alloc_block_def Let_def took_def split: option.splits)
qed

lemma alloc_block_takes:
  assumes "zblocks z \<le> 4096" "used (BITMAP z) 0" "free_set z \<noteq> {}"
  obtains b where "alloc_block (z, c) = (Done (of_nat b), (took b z, c))" "b \<in> free_set z" "b \<noteq> 0" "unat (of_nat b :: u32) = b"
proof -
  from assms(3) obtain x where "x < zblocks z" "\<not> used (BITMAP z) x" by (auto simp: free_set_def)
  then obtain b where b: "scan (\<lambda>b. \<not> used (BITMAP z) b) 0 (zblocks z) = Some b"
    using scan_complete[of 0 x "zblocks z" "\<lambda>b. \<not> used (BITMAP z) b"] by auto
  have "b < zblocks z" "\<not> used (BITMAP z) b" using scan_SomeD[OF b] by auto
  moreover have "unat (of_nat b :: u32) = b"
    using \<open>b < zblocks z\<close> unat_u32_less[of "total_blocks (FS_SUPER z)"] by (simp add: unat_of_nat)
  moreover have "b \<noteq> 0" using calculation(2) assms(2) by (intro notI) simp
  ultimately show ?thesis using that[of b] alloc_block_spec[OF assms(1), of c] b by (auto simp: free_set_def)
qed

section \<open>The contents of blocks\<close>

definition block_data :: "u32 \<Rightarrow> disk \<Rightarrow> u32 \<Rightarrow> u8 list" where
  "block_data ds d b = span (sectors d) (block_sector ds b) SECTORS_PER_BLOCK"

definition block_ok :: "u32 \<Rightarrow> disk \<Rightarrow> u32 \<Rightarrow> bool" where
  "block_ok ds d b \<longleftrightarrow> b \<noteq> 0 \<and> unat ds + 8 * unat b \<le> unat (total_sectors d)"

lemma block_sector_unat:
  assumes "block_ok ds d b"
  shows "unat (block_sector ds b) + 8 = unat ds + 8 * unat b" "unat (block_sector ds b) + 8 \<le> unat (total_sectors d)"
proof -
  have b: "1 \<le> unat b" using assms by (auto simp: block_ok_def unat_gt_0 Suc_le_eq)
  have lim: "unat ds + 8 * unat b < 2 ^ 32" using assms unat_u32_less[of "total_sectors d"] by (simp add: block_ok_def)
  have "unat (b - 1) = unat b - 1" using b by (simp add: unat_sub word_le_nat_alt)
  then have "unat ((b - 1) * 8) = (unat b - 1) * 8 mod 2 ^ 32" by (simp only: unat_word_ariths(2)) simp
  then have "unat ((b - 1) * 8) = (unat b - 1) * 8" using lim b by simp
  then have "unat (block_sector ds b) = unat ds + (unat b - 1) * 8"
    using lim b by (simp add: block_sector_def SECTORS_PER_BLOCK_def unat_word_ariths)
  then show "unat (block_sector ds b) + 8 = unat ds + 8 * unat b" using b by simp
  then show "unat (block_sector ds b) + 8 \<le> unat (total_sectors d)" using assms by (simp add: block_ok_def)
qed

lemma length_block_data [simp]: "coherent (c, d) \<Longrightarrow> length (block_data ds d b) = BLOCK_SIZE"
  by (simp add: block_data_def length_span length_sector coherent_def SECTORS_PER_BLOCK_def SECTOR_SIZE_def BLOCK_SIZE_def)

lemma read_block_spec:
  assumes "coherent c" "block_ok ds (snd c) b"
  shows "\<exists>c'. read_block (block_sector ds b) (z, c) = (Done (block_data ds (snd c) b), (z, c')) \<and> coherent c' \<and>
    sectors (snd c') = sectors (snd c) \<and> total_sectors (snd c') = total_sectors (snd c)"
proof -
  have "SECTORS_PER_BLOCK * SECTOR_SIZE \<le> length (replicate BLOCK_SIZE (0 :: u8))"
    by (simp add: SECTORS_PER_BLOCK_def SECTOR_SIZE_def BLOCK_SIZE_def)
  from cache.rd_each_spec[OF assms(1) _ this, of "block_sector ds b"] block_sector_unat(2)[OF assms(2)]
  show ?thesis by (auto simp: read_block_def on_store_def block_data_def SECTORS_PER_BLOCK_def SECTOR_SIZE_def BLOCK_SIZE_def)
qed

lemma write_block_spec:
  assumes "coherent c" "block_ok ds (snd c) b" "length buf = BLOCK_SIZE"
  shows "\<exists>c'. write_block (block_sector ds b) buf (z, c) = (Done (), (z, c')) \<and> coherent c' \<and>
    sectors (snd c') = written (block_sector ds b) 8 buf (sectors (snd c)) \<and> total_sectors (snd c') = total_sectors (snd c)"
proof -
  have "SECTORS_PER_BLOCK * SECTOR_SIZE \<le> length buf"
    by (simp add: assms(3) SECTORS_PER_BLOCK_def SECTOR_SIZE_def BLOCK_SIZE_def)
  from cache.wr_each_spec[OF assms(1) _ this, of "block_sector ds b"] block_sector_unat(2)[OF assms(2)]
  show ?thesis by (auto simp: write_block_def on_store_def SECTORS_PER_BLOCK_def)
qed

lemma span_cong: "(\<And>i. i < n \<Longrightarrow> f (start + of_nat i) = g (start + of_nat i)) \<Longrightarrow> span f start n = span g start n"
  unfolding span_def by (rule arg_cong[where f = concat]) (rule map_cong, auto)

lemma concat_slices: "length buf = n * k \<Longrightarrow> concat (map (\<lambda>i. get_slice buf (i * k) k) [0..<n]) = buf"
proof (induction n arbitrary: buf)
  case (Suc n)
  have "map (\<lambda>i. get_slice buf (i * k) k) [0..<n] = map (\<lambda>i. get_slice (take (n * k) buf) (i * k) k) [0..<n]"
  proof (rule map_cong[OF refl])
    fix i assume "i \<in> set [0..<n]"
    then have "i * k + k \<le> n * k" using mult_le_mono1[of "Suc i" n k] by simp
    then show "get_slice buf (i * k) k = get_slice (take (n * k) buf) (i * k) k" by (simp add: get_slice_def drop_take)
  qed
  moreover have "concat (map (\<lambda>i. get_slice (take (n * k) buf) (i * k) k) [0..<n]) = take (n * k) buf"
    using Suc by (intro Suc.IH) simp
  moreover have "get_slice buf (n * k) k = drop (n * k) buf" using Suc.prems by (simp add: get_slice_def)
  ultimately have "concat (map (\<lambda>i. get_slice buf (i * k) k) [0..<Suc n]) = take (n * k) buf @ drop (n * k) buf"
    by (simp only: upt_Suc_append[OF le0] map_append concat_append list.map concat.simps append_Nil2)
  then show ?case by (simp only: append_take_drop_id)
qed simp

text \<open>Writing a block changes the contents of that block only.\<close>

lemma block_data_written:
  assumes "block_ok ds d b" "block_ok ds d b'" "length buf = BLOCK_SIZE"
    "sectors d' = written (block_sector ds b) 8 buf (sectors d)"
  shows "block_data ds d' b' = (if b' = b then buf else block_data ds d b')"
proof -
  note u = block_sector_unat[OF assms(1)] and u' = block_sector_unat[OF assms(2)]
  have ui: "unat (block_sector ds b' + of_nat i) = unat (block_sector ds b') + i" if "i < 8" for i
    using unat_start_plus[OF u'(2) that] .
  show ?thesis
  proof (cases "b' = b")
    case True
    have "sectors d' (block_sector ds b + of_nat i) = get_slice buf (i * SECTOR_SIZE) SECTOR_SIZE" if "i < 8" for i
      using ui[OF that] True that by (simp add: assms(4) written_def)
    then have "block_data ds d' b' = concat (map (\<lambda>i. get_slice buf (i * SECTOR_SIZE) SECTOR_SIZE) [0..<8])"
      unfolding True block_data_def span_def SECTORS_PER_BLOCK_def by (intro arg_cong[where f = concat] map_cong) auto
    then show ?thesis using True concat_slices[of buf 8 SECTOR_SIZE] assms(3) by (simp add: BLOCK_SIZE_def SECTOR_SIZE_def)
  next
    case False
    then have "unat b' \<noteq> unat b" by (metis unsigned_word_eqI)
    then have "unat b' < unat b \<or> unat b < unat b'" by auto
    then have "sectors d' (block_sector ds b' + of_nat i) = sectors d (block_sector ds b' + of_nat i)" if "i < 8" for i
      using ui[OF that] u u' that by (auto simp: assms(4) written_def)
    then have "block_data ds d' b' = block_data ds d b'" unfolding block_data_def by (intro span_cong) (simp add: SECTORS_PER_BLOCK_def)
    then show ?thesis using False by simp
  qed
qed

section \<open>Reading\<close>

text \<open>The reading loop as a function of the contents of the blocks.\<close>

function pure_read :: "(u32 \<Rightarrow> u8 list) \<Rightarrow> Inode \<Rightarrow> nat \<Rightarrow> nat \<Rightarrow> nat \<Rightarrow> u8 list \<Rightarrow> nat \<times> u8 list" where
  "pure_read f inode to_read pos k buf =
    (if \<not> k < to_read \<or> pos div BLOCK_SIZE \<ge> DIRECT_BLOCKS \<or> blk inode (pos div BLOCK_SIZE) = 0 then (k, buf)
     else let n = min (to_read - k) (BLOCK_SIZE - pos mod BLOCK_SIZE) in
       pure_read f inode to_read (pos + n) (k + n)
         (put_slice buf k (get_slice (f (blk inode (pos div BLOCK_SIZE))) (pos mod BLOCK_SIZE) n)))"
  by auto
termination
proof (relation "measure (\<lambda>(f, inode, to_read, pos, k, buf). to_read - k)", goal_cases)
  case (2 f inode to_read pos k buf n)
  then have "0 < n" by (auto simp: BLOCK_SIZE_def)
  then show ?case using 2 by auto
qed simp

declare pure_read.simps [simp del] read_loop.simps [simp del] write_loop.simps [simp del]

text \<open>What an operation that only reads leaves alone.\<close>

definition same_store :: "cached \<Rightarrow> cached \<Rightarrow> bool" where
  "same_store c c' \<longleftrightarrow> coherent c' \<and> sectors (snd c') = sectors (snd c) \<and> total_sectors (snd c') = total_sectors (snd c)"

lemma same_store_refl: "coherent c \<Longrightarrow> same_store c c"
  by (simp add: same_store_def)

lemma same_store_trans: "same_store c c' \<Longrightarrow> same_store c' c'' \<Longrightarrow> same_store c c''"
  by (simp add: same_store_def)

lemma same_store_data: "same_store c c' \<Longrightarrow> block_data ds (snd c') = block_data ds (snd c) \<and> block_ok ds (snd c') = block_ok ds (snd c)"
  by (simp add: same_store_def block_data_def[abs_def] block_ok_def[abs_def])

lemma read_loop_pure:
  assumes "coherent c" "\<forall>k<DIRECT_BLOCKS. blk inode k \<noteq> 0 \<longrightarrow> block_ok (data_start_sector (FS_SUPER z)) (snd c) (blk inode k)"
  shows "\<exists>c'. read_loop inode to_read pos k buf (z, c) =
      (Done (pure_read (block_data (data_start_sector (FS_SUPER z)) (snd c)) inode to_read pos k buf), (z, c')) \<and> same_store c c'"
  using assms
proof (induction "to_read - k" arbitrary: k pos buf c rule: less_induct)
  case less
  let ?ds = "data_start_sector (FS_SUPER z)" and ?b = "blk inode (pos div BLOCK_SIZE)"
  show ?case
  proof (cases "\<not> k < to_read \<or> pos div BLOCK_SIZE \<ge> DIRECT_BLOCKS \<or> ?b = 0")
    case True
    then show ?thesis
      using same_store_refl[OF less.prems(1)] by (intro exI[of _ c]) (subst read_loop.simps, subst pure_read.simps, auto)
  next
    case False
    define n where "n = min (to_read - k) (BLOCK_SIZE - pos mod BLOCK_SIZE)"
    have n: "to_read - (k + n) < to_read - k" using False by (auto simp: n_def BLOCK_SIZE_def)
    obtain c1 where c1: "read_block (block_sector ?ds ?b) (z, c) = (Done (block_data ?ds (snd c) ?b), (z, c1))" "same_store c c1"
      using read_block_spec[OF less.prems(1), of ?ds ?b z] less.prems(2) False by (auto simp: same_store_def)
    define buf' where "buf' = put_slice buf k (get_slice (block_data ?ds (snd c) ?b) (pos mod BLOCK_SIZE) n)"
    have "coherent c1" "\<forall>k<DIRECT_BLOCKS. blk inode k \<noteq> 0 \<longrightarrow> block_ok ?ds (snd c1) (blk inode k)"
      using c1(2) less.prems(2) same_store_data[OF c1(2), of ?ds] by (auto simp: same_store_def)
    from less.hyps[OF n this, of "pos + n" buf'] obtain c2 where
      "read_loop inode to_read (pos + n) (k + n) buf' (z, c1) =
        (Done (pure_read (block_data ?ds (snd c1)) inode to_read (pos + n) (k + n) buf'), (z, c2))" "same_store c1 c2" by blast
    moreover have "read_loop inode to_read pos k buf (z, c) = read_loop inode to_read (pos + n) (k + n) buf' (z, c1)"
      using False c1(1) by (subst read_loop.simps) (auto simp: io_bind_def getz_def Let_def n_def buf'_def)
    moreover have "pure_read (block_data ?ds (snd c)) inode to_read pos k buf =
        pure_read (block_data ?ds (snd c)) inode to_read (pos + n) (k + n) buf'"
      using False by (subst pure_read.simps) (auto simp: Let_def n_def buf'_def)
    ultimately show ?thesis using same_store_trans[OF c1(2)] same_store_data[OF c1(2), of ?ds] by auto
  qed
qed

text \<open>It depends on the blocks of the inode only.\<close>

lemma pure_read_cong:
  assumes "\<forall>k<DIRECT_BLOCKS. blk inode k \<noteq> 0 \<longrightarrow> f (blk inode k) = g (blk inode k)"
  shows "pure_read f inode to_read pos k buf = pure_read g inode to_read pos k buf"
proof (induction "to_read - k" arbitrary: k pos buf rule: less_induct)
  case less
  show ?case
  proof (cases "\<not> k < to_read \<or> pos div BLOCK_SIZE \<ge> DIRECT_BLOCKS \<or> blk inode (pos div BLOCK_SIZE) = 0")
    case True
    then show ?thesis by (subst (1 2) pure_read.simps) auto
  next
    case False
    define n where "n = min (to_read - k) (BLOCK_SIZE - pos mod BLOCK_SIZE)"
    have "to_read - (k + n) < to_read - k" using False by (auto simp: n_def BLOCK_SIZE_def)
    from less[OF this] show ?thesis using False assms by (subst (1 2) pure_read.simps) (auto simp: Let_def n_def)
  qed
qed

text \<open>The byte at position \<open>p\<close> of a file.\<close>

definition file_byte :: "(u32 \<Rightarrow> u8 list) \<Rightarrow> Inode \<Rightarrow> nat \<Rightarrow> u8" where
  "file_byte f inode p = f (blk inode (p div BLOCK_SIZE)) ! (p mod BLOCK_SIZE)"

lemma within_block:
  assumes "pos mod BLOCK_SIZE + i < BLOCK_SIZE"
  shows "(pos + i) div BLOCK_SIZE = pos div BLOCK_SIZE \<and> (pos + i) mod BLOCK_SIZE = pos mod BLOCK_SIZE + i"
proof -
  have "pos + i = (pos mod BLOCK_SIZE + i) + pos div BLOCK_SIZE * BLOCK_SIZE" by simp
  then show ?thesis using assms by (metis div_less div_mult_self1 gr_implies_not0 mod_less mod_mult_self1 add_0_right)
qed

lemma file_bytes_in_block:
  assumes "length (f (blk inode (pos div BLOCK_SIZE))) = BLOCK_SIZE" "n \<le> BLOCK_SIZE - pos mod BLOCK_SIZE"
  shows "get_slice (f (blk inode (pos div BLOCK_SIZE))) (pos mod BLOCK_SIZE) n = map (file_byte f inode) [pos..<pos + n]"
proof (rule nth_equalityI)
  have "pos mod BLOCK_SIZE < BLOCK_SIZE" by (simp add: BLOCK_SIZE_def)
  with assms show "length (get_slice (f (blk inode (pos div BLOCK_SIZE))) (pos mod BLOCK_SIZE) n) = length (map (file_byte f inode) [pos..<pos + n])"
    by simp
next
  fix i assume "i < length (get_slice (f (blk inode (pos div BLOCK_SIZE))) (pos mod BLOCK_SIZE) n)"
  moreover have "pos mod BLOCK_SIZE < BLOCK_SIZE" by (simp add: BLOCK_SIZE_def)
  ultimately have i: "i < n" "pos mod BLOCK_SIZE + n \<le> BLOCK_SIZE" using assms by auto
  then have "(pos + i) div BLOCK_SIZE = pos div BLOCK_SIZE" "(pos + i) mod BLOCK_SIZE = pos mod BLOCK_SIZE + i"
    using within_block[of pos i] by auto
  then show "get_slice (f (blk inode (pos div BLOCK_SIZE))) (pos mod BLOCK_SIZE) n ! i = map (file_byte f inode) [pos..<pos + n] ! i"
    using i assms by (simp add: file_byte_def)
qed

lemma pure_read_all:
  assumes "\<And>b. length (f b) = BLOCK_SIZE" "k \<le> to_read" "to_read \<le> length buf"
    "\<And>p. pos \<le> p \<Longrightarrow> p < pos + (to_read - k) \<Longrightarrow> p div BLOCK_SIZE < DIRECT_BLOCKS \<and> blk inode (p div BLOCK_SIZE) \<noteq> 0"
  shows "pure_read f inode to_read pos k buf = (to_read, put_slice buf k (map (file_byte f inode) [pos..<pos + (to_read - k)]))"
  using assms(2-)
proof (induction "to_read - k" arbitrary: k pos buf rule: less_induct)
  case less
  show ?case
  proof (cases "k < to_read")
    case False
    then show ?thesis using less.prems by (subst pure_read.simps) (simp add: put_slice_def)
  next
    case True
    define n where "n = min (to_read - k) (BLOCK_SIZE - pos mod BLOCK_SIZE)"
    define xs where "xs = map (file_byte f inode) [pos..<pos + n]"
    have n: "to_read - (k + n) < to_read - k" "k + n \<le> to_read" "n \<le> BLOCK_SIZE - pos mod BLOCK_SIZE"
      using True by (auto simp: n_def BLOCK_SIZE_def)
    have "\<not> (\<not> k < to_read \<or> pos div BLOCK_SIZE \<ge> DIRECT_BLOCKS \<or> blk inode (pos div BLOCK_SIZE) = 0)"
      using True less.prems(3)[OF order_refl, unfolded less_add_same_cancel1 zero_less_diff] by auto
    then have "pure_read f inode to_read pos k buf = pure_read f inode to_read (pos + n) (k + n) (put_slice buf k xs)"
      using file_bytes_in_block[of f inode pos n, OF assms(1) n(3)] by (subst pure_read.simps) (simp only: if_False Let_def xs_def n_def)
    also have "\<dots> = (to_read, put_slice (put_slice buf k xs) (k + n) (map (file_byte f inode) [pos + n..<pos + n + (to_read - (k + n))]))"
      using less.hyps[OF n(1,2), of "put_slice buf k xs" "pos + n"] less.prems n(2) by (simp add: xs_def)
    also have "put_slice (put_slice buf k xs) (k + n) (map (file_byte f inode) [pos + n..<pos + n + (to_read - (k + n))]) =
        put_slice buf k (xs @ map (file_byte f inode) [pos + n..<pos + n + (to_read - (k + n))])"
      using put_slice_append[of k xs "map (file_byte f inode) [pos + n..<pos + n + (to_read - (k + n))]" buf] n less.prems
      by (simp add: xs_def)
    also have "xs @ map (file_byte f inode) [pos + n..<pos + n + (to_read - (k + n))] = map (file_byte f inode) [pos..<pos + (to_read - k)]"
      using n(2) upt_add_eq_append[of pos "pos + n" "to_read - (k + n)"] by (simp add: xs_def)
    finally show ?thesis .
  qed
qed

section \<open>Writing\<close>

text \<open>
  While a file is written its inode is a local copy: \<open>installed i n z\<close> is the memory with the copy
  in place, and the invariant is kept for that memory.
\<close>

definition installed :: "nat \<Rightarrow> Inode \<Rightarrow> zohfs \<Rightarrow> zohfs" where
  "installed i n z = z\<lparr>INODES := (INODES z)(i := n)\<rparr>"

lemma installed_simps [simp]:
  "FS_SUPER (installed i n z) = FS_SUPER z" "BITMAP (installed i n z) = BITMAP z" "FS_MOUNTED (installed i n z) = FS_MOUNTED z"
  "ROOT_DIR (installed i n z) = ROOT_DIR z" "ROOT_DIR_COUNT (installed i n z) = ROOT_DIR_COUNT z"
  "INODES (installed i n z) = (INODES z)(i := n)" "free_set (installed i n z) = free_set z"
  by (simp_all add: installed_def free_set_def)

lemma zwf_length: "zwf z \<Longrightarrow> i < MAX_INODES \<Longrightarrow> length (direct_blocks (INODES z i)) = DIRECT_BLOCKS"
  by (simp add: zwf_def)

lemma zwf_owned:
  "\<lbrakk>zwf z; i < MAX_INODES; k < DIRECT_BLOCKS; blk (INODES z i) k \<noteq> 0\<rbrakk> \<Longrightarrow>
    unat (blk (INODES z i) k) < zblocks z \<and> used (BITMAP z) (unat (blk (INODES z i) k))"
  by (simp add: zwf_def)

lemma zwf_inj:
  "\<lbrakk>zwf z; i < MAX_INODES; k < DIRECT_BLOCKS; j < MAX_INODES; l < DIRECT_BLOCKS;
    blk (INODES z i) k \<noteq> 0; blk (INODES z i) k = blk (INODES z j) l\<rbrakk> \<Longrightarrow> i = j \<and> k = l"
  unfolding zwf_def by blast

lemma zwfI:
  assumes "zblocks z \<le> 4096" "used (BITMAP z) 0"
    and "\<And>i. i < MAX_INODES \<Longrightarrow> length (direct_blocks (INODES z i)) = DIRECT_BLOCKS"
    and "\<And>i k. \<lbrakk>i < MAX_INODES; k < DIRECT_BLOCKS; blk (INODES z i) k \<noteq> 0\<rbrakk> \<Longrightarrow>
        unat (blk (INODES z i) k) < zblocks z \<and> used (BITMAP z) (unat (blk (INODES z i) k))"
    and "\<And>i k j l. \<lbrakk>i < MAX_INODES; k < DIRECT_BLOCKS; j < MAX_INODES; l < DIRECT_BLOCKS;
        blk (INODES z i) k \<noteq> 0; blk (INODES z i) k = blk (INODES z j) l\<rbrakk> \<Longrightarrow> i = j \<and> k = l"
  shows "zwf z"
  unfolding zwf_def using assms by blast

lemma zfits_block_ok:
  assumes "zfits z d" "b \<noteq> 0" "unat b < zblocks z"
  shows "block_ok (data_start_sector (FS_SUPER z)) d b"
  using assms by (simp add: zfits_def block_ok_def)

text \<open>A block that was free becomes a block of the file.\<close>

definition with_block :: "nat \<Rightarrow> u32 \<Rightarrow> Inode \<Rightarrow> Inode" where
  "with_block k b n = n\<lparr>direct_blocks := (direct_blocks n)[k := b], block_count := of_nat k + 1\<rparr>"

lemma with_block_simps [simp]:
  "direct_blocks (with_block k b n) = (direct_blocks n)[k := b]" "isize (with_block k b n) = isize n" "mode (with_block k b n) = mode n"
  by (simp_all add: with_block_def)

lemma zwf_took:
  assumes "zwf (installed i n z)" "i < MAX_INODES" "k < DIRECT_BLOCKS" "b \<in> free_set z" "b \<noteq> 0" "unat (of_nat b :: u32) = b"
  shows "zwf (installed i (with_block k (of_nat b) n) (took b z))"
proof (rule zwfI)
  let ?z = "installed i n z" and ?z' = "installed i (with_block k (of_nat b) n) (took b z)"
  have len: "length (direct_blocks n) = DIRECT_BLOCKS" using zwf_length[OF assms(1,2)] by simp
  have b: "b < zblocks z" "\<not> used (BITMAP z) b" using assms(4) by (auto simp: free_set_def)
  show "zblocks ?z' \<le> 4096" "used (BITMAP ?z') 0" using assms(1) by (auto simp: zwf_def)
  show "length (direct_blocks (INODES ?z' j)) = DIRECT_BLOCKS" if "j < MAX_INODES" for j
    using zwf_length[OF assms(1) that] by (auto split: if_splits)
  have new: "blk (INODES ?z' j) l = (if j = i \<and> l = k then of_nat b else blk (INODES ?z j) l)" if "l < DIRECT_BLOCKS" for j l
    using that len by (auto simp: nth_list_update)
  have old: "unat (blk (INODES ?z j) l) \<noteq> b" if "j < MAX_INODES" "l < DIRECT_BLOCKS" for j l
    using zwf_owned[OF assms(1) that] b(2) assms(5) by (cases "blk (INODES ?z j) l = 0") auto
  show "unat (blk (INODES ?z' j) l) < zblocks ?z' \<and> used (BITMAP ?z') (unat (blk (INODES ?z' j) l))"
    if "j < MAX_INODES" "l < DIRECT_BLOCKS" "blk (INODES ?z' j) l \<noteq> 0" for j l
    using zwf_owned[OF assms(1) that(1,2)] that(3) b(1) assms(6) unfolding new[OF that(2)] by (auto split: if_splits)
  show "j = j' \<and> l = l'" if "j < MAX_INODES" "l < DIRECT_BLOCKS" "j' < MAX_INODES" "l' < DIRECT_BLOCKS"
      "blk (INODES ?z' j) l \<noteq> 0" "blk (INODES ?z' j) l = blk (INODES ?z' j') l'" for j l j' l'
    using that(5,6) zwf_inj[OF assms(1) that(1-4)] old[OF that(1,2)] old[OF that(3,4)] assms(6)
    unfolding new[OF that(2)] new[OF that(4)] by (auto split: if_splits)
qed

lemma zfits_cong:
  "\<lbrakk>zfits z d; data_start_sector (FS_SUPER z') = data_start_sector (FS_SUPER z); zblocks z' = zblocks z; total_sectors d' = total_sectors d\<rbrakk>
    \<Longrightarrow> zfits z' d'"
  by (simp add: zfits_def)

text \<open>The blocks that a file lacks.\<close>

definition missing :: "Inode \<Rightarrow> nat" where
  "missing n = card {k. k < DIRECT_BLOCKS \<and> blk n k = 0}"

lemma missing_pos: "k < DIRECT_BLOCKS \<Longrightarrow> blk n k = 0 \<Longrightarrow> 0 < missing n"
  by (auto simp: missing_def card_gt_0_iff)

lemma missing_with_block:
  assumes "length (direct_blocks n) = DIRECT_BLOCKS" "k < DIRECT_BLOCKS" "blk n k = 0" "b \<noteq> 0"
  shows "missing n = Suc (missing (with_block k b n))"
proof -
  have "{l. l < DIRECT_BLOCKS \<and> blk n l = 0} = insert k {l. l < DIRECT_BLOCKS \<and> blk (with_block k b n) l = 0}"
    using assms by (auto simp: nth_list_update)
  moreover have "k \<notin> {l. l < DIRECT_BLOCKS \<and> blk (with_block k b n) l = 0}" using assms by simp
  ultimately show ?thesis by (simp add: missing_def)
qed

text \<open>What the allocation of blocks leaves alone.\<close>

definition keeps :: "zohfs \<Rightarrow> zohfs \<Rightarrow> bool" where
  "keeps z z' \<longleftrightarrow> INODES z' = INODES z \<and> data_start_sector (FS_SUPER z') = data_start_sector (FS_SUPER z) \<and> zblocks z' = zblocks z \<and>
     FS_MOUNTED z' = FS_MOUNTED z \<and> ROOT_DIR z' = ROOT_DIR z \<and> ROOT_DIR_COUNT z' = ROOT_DIR_COUNT z"

lemma ensure_block_spec:
  assumes "zinv (installed i n z, c)" "i < MAX_INODES" "k < DIRECT_BLOCKS" "missing n \<le> card (free_set z)"
  obtains n' z' where "ensure_block k n (z, c) = (Done n', (z', c))" "zinv (installed i n' z', c)" "missing n' \<le> card (free_set z')"
    "blk n' k \<noteq> 0" "\<forall>l. blk n l \<noteq> 0 \<longrightarrow> blk n' l = blk n l" "isize n' = isize n" "mode n' = mode n" "keeps z z'"
proof (cases "blk n k = 0")
  case False
  then show ?thesis using that[of n z] assms by (simp add: ensure_block_def keeps_def)
next
  case True
  have wf: "zwf (installed i n z)" using assms(1) by (simp add: zinv_def)
  have len: "length (direct_blocks n) = DIRECT_BLOCKS" using zwf_length[OF wf assms(2)] by simp
  have "0 < card (free_set z)" using missing_pos[OF assms(3) True] assms(4) by simp
  then have "free_set z \<noteq> {}" by auto
  moreover have "zblocks z \<le> 4096" "used (BITMAP z) 0" using wf by (simp_all add: zwf_def)
  ultimately obtain b where b: "alloc_block (z, c) = (Done (of_nat b), (took b z, c))" "b \<in> free_set z" "b \<noteq> 0" "unat (of_nat b :: u32) = b"
    using alloc_block_takes[of z c] by blast
  let ?n = "with_block k (of_nat b) n"
  have nz: "(of_nat b :: u32) \<noteq> 0" using b(3,4) by auto
  have "ensure_block k n (z, c) = (Done ?n, (took b z, c))"
    using True b(1) by (simp add: ensure_block_def io_bind_cases(1) with_block_def)
  moreover have "zinv (installed i ?n (took b z), c)"
    using zwf_took[OF wf assms(2,3) b(2-4)] assms(1) by (auto simp: zinv_def elim!: zfits_cong)
  moreover have "missing ?n \<le> card (free_set (took b z))"
    using missing_with_block[OF len assms(3) True nz] assms(4) b(2) by simp
  moreover have "blk ?n k \<noteq> 0" "\<forall>l. blk n l \<noteq> 0 \<longrightarrow> blk ?n l = blk n l"
    using nz True len assms(3) by (auto simp: nth_list_update)
  ultimately show ?thesis using that[of ?n "took b z"] by (simp add: keeps_def)
qed

text \<open>
  \<open>wrote i n z c pos xs n' z' c'\<close>: the bytes \<open>xs\<close> have been written at \<open>pos\<close> of file \<open>i\<close> and nothing else has
  changed in the contents of files.
\<close>

definition wrote :: "nat \<Rightarrow> Inode \<Rightarrow> zohfs \<Rightarrow> cached \<Rightarrow> nat \<Rightarrow> u8 list \<Rightarrow> Inode \<Rightarrow> zohfs \<Rightarrow> cached \<Rightarrow> bool" where
  "wrote i n z c pos xs n' z' c' \<longleftrightarrow> zinv (installed i n' z', c') \<and> keeps z z' \<and> isize n' = isize n \<and> mode n' = mode n \<and>
     total_sectors (snd c') = total_sectors (snd c) \<and> (\<forall>l. blk n l \<noteq> 0 \<longrightarrow> blk n' l = blk n l) \<and>
     (let f = block_data (data_start_sector (FS_SUPER z)) (snd c); f' = block_data (data_start_sector (FS_SUPER z)) (snd c') in
       (\<forall>p. pos \<le> p \<and> p < pos + length xs \<longrightarrow>
          p div BLOCK_SIZE < DIRECT_BLOCKS \<and> blk n' (p div BLOCK_SIZE) \<noteq> 0 \<and> file_byte f' n' p = xs ! (p - pos)) \<and>
       (\<forall>p. p div BLOCK_SIZE < DIRECT_BLOCKS \<and> blk n (p div BLOCK_SIZE) \<noteq> 0 \<and> (p < pos \<or> pos + length xs \<le> p) \<longrightarrow>
          file_byte f' n' p = file_byte f n p) \<and>
       (\<forall>j<MAX_INODES. \<forall>k<DIRECT_BLOCKS. j \<noteq> i \<and> blk (INODES z j) k \<noteq> 0 \<longrightarrow> f' (blk (INODES z j) k) = f (blk (INODES z j) k)))"

lemma getz_run: "io_bind (getz f) g (z, c) = g (f z) (z, c)"
  by (simp add: io_bind_def getz_def)

lemma wrote_nothing: "zinv (installed i n z, c) \<Longrightarrow> wrote i n z c pos [] n z c"
  by (auto simp: wrote_def keeps_def)

lemma wrote_append:
  assumes "wrote i n z c pos xs n1 z1 c1" "wrote i n1 z1 c1 (pos + length xs) ys n2 z2 c2"
  shows "wrote i n z c pos (xs @ ys) n2 z2 c2"
proof -
  let ?ds = "data_start_sector (FS_SUPER z)"
  let ?f = "block_data ?ds (snd c)" and ?f1 = "block_data ?ds (snd c1)" and ?f2 = "block_data ?ds (snd c2)"
  note w1 = assms(1)[unfolded wrote_def Let_def] and w2 = assms(2)[unfolded wrote_def Let_def]
  have k: "keeps z z1" "keeps z1 z2" using w1 w2 by auto
  have ds: "data_start_sector (FS_SUPER z1) = ?ds" "INODES z1 = INODES z" using k(1) by (auto simp: keeps_def)
  have in1: "p div BLOCK_SIZE < DIRECT_BLOCKS" "blk n1 (p div BLOCK_SIZE) \<noteq> 0" "file_byte ?f1 n1 p = xs ! (p - pos)"
    if "pos \<le> p" "p < pos + length xs" for p using w1 that by auto
  have in2: "p div BLOCK_SIZE < DIRECT_BLOCKS \<and> blk n2 (p div BLOCK_SIZE) \<noteq> 0 \<and> file_byte ?f2 n2 p = ys ! (p - (pos + length xs))"
    if "pos + length xs \<le> p" "p < pos + length xs + length ys" for p using w2 that unfolding ds by auto
  have out2: "file_byte ?f2 n2 p = file_byte ?f1 n1 p"
    if "p div BLOCK_SIZE < DIRECT_BLOCKS" "blk n1 (p div BLOCK_SIZE) \<noteq> 0" "p < pos + length xs \<or> pos + length xs + length ys \<le> p" for p
    using w2 that unfolding ds by auto
  have up: "blk n l \<noteq> 0 \<Longrightarrow> blk n1 l = blk n l" "blk n1 l \<noteq> 0 \<Longrightarrow> blk n2 l = blk n1 l" for l using w1 w2 by auto
  have "p div BLOCK_SIZE < DIRECT_BLOCKS \<and> blk n2 (p div BLOCK_SIZE) \<noteq> 0 \<and> file_byte ?f2 n2 p = (xs @ ys) ! (p - pos)"
    if "pos \<le> p" "p < pos + length (xs @ ys)" for p
  proof (cases "p < pos + length xs")
    case True
    then show ?thesis using in1[OF that(1) True] out2[of p] up(2)[of "p div BLOCK_SIZE"] that(1) by (simp add: nth_append less_diff_conv2 add.commute)
  next
    case False
    then show ?thesis using in2[of p] that by (simp add: nth_append less_diff_conv2 add.commute)
  qed
  moreover have "file_byte ?f2 n2 p = file_byte ?f n p"
    if "p div BLOCK_SIZE < DIRECT_BLOCKS \<and> blk n (p div BLOCK_SIZE) \<noteq> 0 \<and> (p < pos \<or> pos + length (xs @ ys) \<le> p)" for p
    using that out2[of p] up(1)[of "p div BLOCK_SIZE"] w1 by auto
  moreover have "\<forall>j<MAX_INODES. \<forall>k<DIRECT_BLOCKS. j \<noteq> i \<and> blk (INODES z j) k \<noteq> 0 \<longrightarrow> ?f2 (blk (INODES z j) k) = ?f (blk (INODES z j) k)"
    using w1 w2 unfolding ds by auto
  moreover have "keeps z z2" using k by (simp add: keeps_def)
  ultimately show ?thesis using w1 w2 up unfolding wrote_def Let_def by auto
qed

text \<open>One turn of the loop.\<close>

lemma write_step:
  assumes "zinv (installed i n z, c)" "i < MAX_INODES" "pos div BLOCK_SIZE < DIRECT_BLOCKS" "data \<noteq> []"
    "missing n \<le> card (free_set z)" "m = min (length data) (BLOCK_SIZE - pos mod BLOCK_SIZE)"
  obtains n1 z1 c1 where "write_loop n pos bw data (z, c) = write_loop n1 (pos + m) (bw + m) (drop m data) (z1, c1)"
    "wrote i n z c pos (take m data) n1 z1 c1" "missing n1 \<le> card (free_set z1)"
proof -
  let ?k = "pos div BLOCK_SIZE" and ?ds = "data_start_sector (FS_SUPER z)"
  obtain n1 z1 where e: "ensure_block ?k n (z, c) = (Done n1, (z1, c))" "zinv (installed i n1 z1, c)" "missing n1 \<le> card (free_set z1)"
    "blk n1 ?k \<noteq> 0" "\<forall>l. blk n l \<noteq> 0 \<longrightarrow> blk n1 l = blk n l" "isize n1 = isize n" "mode n1 = mode n" "keeps z z1"
    using ensure_block_spec[OF assms(1,2,3,5)] by blast
  let ?b = "blk n1 ?k"
  have ds: "data_start_sector (FS_SUPER z1) = ?ds" "INODES z1 = INODES z" using e(8) by (auto simp: keeps_def)
  have wf: "zwf (installed i n1 z1)" and fits: "zfits (installed i n1 z1) (snd c)" and coh: "coherent c"
    using e(2) by (auto simp: zinv_def)
  have ok: "block_ok ?ds (snd c) (blk (INODES (installed i n1 z1) j) l)"
    if "j < MAX_INODES" "l < DIRECT_BLOCKS" "blk (INODES (installed i n1 z1) j) l \<noteq> 0" for j l
    using zfits_block_ok[OF fits that(3)] zwf_owned[OF wf that] ds(1) by simp
  have okb: "block_ok ?ds (snd c) ?b" using ok[OF assms(2,3)] e(4) by simp
  obtain c1 where c1: "read_block (block_sector ?ds ?b) (z1, c) = (Done (block_data ?ds (snd c) ?b), (z1, c1))" "coherent c1"
    "sectors (snd c1) = sectors (snd c)" "total_sectors (snd c1) = total_sectors (snd c)"
    using read_block_spec[OF coh okb] by blast
  define buf where "buf = put_slice (block_data ?ds (snd c) ?b) (pos mod BLOCK_SIZE) (take m data)"
  have lenb: "length (block_data ?ds (snd c) b) = BLOCK_SIZE" for b using coh by (metis length_block_data prod.collapse)
  have r: "pos mod BLOCK_SIZE < BLOCK_SIZE" by (simp add: BLOCK_SIZE_def)
  have lt: "length (take m data) = m" "pos mod BLOCK_SIZE + m \<le> BLOCK_SIZE" "0 < m" using assms(4,6) r by auto
  have lenbuf: "length buf = BLOCK_SIZE" using lenb lt by (simp add: buf_def)
  have okb1: "block_ok ?ds (snd c1) ?b" using okb c1(4) by (simp add: block_ok_def)
  obtain c2 where c2: "write_block (block_sector ?ds ?b) buf (z1, c1) = (Done (), (z1, c2))" "coherent c2"
    "sectors (snd c2) = written (block_sector ?ds ?b) 8 buf (sectors (snd c1))" "total_sectors (snd c2) = total_sectors (snd c1)"
    using write_block_spec[OF c1(2) okb1 lenbuf] by blast
  have loop: "write_loop n pos bw data (z, c) = write_loop n1 (pos + m) (bw + m) (drop m data) (z1, c2)"
    using write_loop.simps[of n pos bw data] not_le[of DIRECT_BLOCKS ?k] assms(3,4) c2(1)
    by (simp only: if_False simp_thms getz_run ds(1) Let_def assms(6)[symmetric] buf_def[symmetric]
        io_bind_cases(1)[of "ensure_block ?k n" "(z, c)", OF e(1)]
        io_bind_cases(1)[of "read_block (block_sector ?ds ?b)" "(z1, c)", OF c1(1)]
        io_bind_cases(1)[of "write_block (block_sector ?ds ?b) buf" "(z1, c1)", OF c2(1)])
  have upd: "block_data ?ds (snd c2) b = (if b = ?b then buf else block_data ?ds (snd c) b)" if "block_ok ?ds (snd c) b" for b
    using block_data_written[OF okb that lenbuf, of "snd c2"] c2(3) c1(3) by simp
  have inv: "zinv (installed i n1 z1, c2)" using wf fits c2(2,4) c1(4) by (auto simp: zinv_def zfits_def)
  have here: "p div BLOCK_SIZE = ?k" if "pos \<le> p" "p < pos + m" for p
  proof -
    have "pos mod BLOCK_SIZE + (p - pos) < BLOCK_SIZE" using lt(2) that by linarith
    then show ?thesis using within_block[of pos "p - pos"] that(1) by simp
  qed
  have byte: "file_byte (block_data ?ds (snd c2)) n1 p =
      (if pos \<le> p \<and> p < pos + m then data ! (p - pos) else file_byte (block_data ?ds (snd c)) n1 p)"
    if "p div BLOCK_SIZE < DIRECT_BLOCKS" "blk n1 (p div BLOCK_SIZE) \<noteq> 0" for p
  proof (cases "p div BLOCK_SIZE = ?k")
    case True
    have p: "p = ?k * BLOCK_SIZE + p mod BLOCK_SIZE" "pos = ?k * BLOCK_SIZE + pos mod BLOCK_SIZE" using True by (metis div_mult_mod_eq)+
    have eq: "pos \<le> p \<longleftrightarrow> pos mod BLOCK_SIZE \<le> p mod BLOCK_SIZE" "p < pos + m \<longleftrightarrow> p mod BLOCK_SIZE < pos mod BLOCK_SIZE + m"
      "p - pos = p mod BLOCK_SIZE - pos mod BLOCK_SIZE" using p by linarith+
    have "p mod BLOCK_SIZE < BLOCK_SIZE" by (simp add: BLOCK_SIZE_def)
    then show ?thesis
      using upd[OF okb] lt lenb nth_put_slice[of "pos mod BLOCK_SIZE" "take m data" "block_data ?ds (snd c) ?b" "p mod BLOCK_SIZE"]
      by (auto simp: file_byte_def True buf_def eq)
  next
    case False
    have "blk n1 (p div BLOCK_SIZE) \<noteq> ?b"
      using zwf_inj[OF wf assms(2) that(1) assms(2,3)] that(2) False by auto
    moreover have "\<not> (pos \<le> p \<and> p < pos + m)" using here False by blast
    ultimately show ?thesis using upd[OF ok[OF assms(2) that(1)]] that(2) by (auto simp: file_byte_def)
  qed
  have "wrote i n z c pos (take m data) n1 z1 c2"
    unfolding wrote_def Let_def lt(1)
  proof (intro conjI allI impI)
    fix p assume p: "pos \<le> p \<and> p < pos + m"
    show "p div BLOCK_SIZE < DIRECT_BLOCKS" "blk n1 (p div BLOCK_SIZE) \<noteq> 0" using here[of p] p assms(3) e(4) by simp_all
    moreover have "p - pos < m" using p by linarith
    ultimately show "file_byte (block_data ?ds (snd c2)) n1 p = take m data ! (p - pos)" using byte[of p] p by simp
  next
    fix p assume p: "p div BLOCK_SIZE < DIRECT_BLOCKS \<and> blk n (p div BLOCK_SIZE) \<noteq> 0 \<and> (p < pos \<or> pos + m \<le> p)"
    then have "blk n1 (p div BLOCK_SIZE) = blk n (p div BLOCK_SIZE)" using e(5) by auto
    with p byte[of p] show "file_byte (block_data ?ds (snd c2)) n1 p = file_byte (block_data ?ds (snd c)) n p"
      by (auto simp: file_byte_def)
  next
    fix j k assume j: "j < MAX_INODES" "k < DIRECT_BLOCKS" "j \<noteq> i \<and> blk (INODES z j) k \<noteq> 0"
    have "blk (INODES z j) k \<noteq> ?b"
    proof
      assume "blk (INODES z j) k = ?b"
      then have "j = i" using zwf_inj[OF wf j(1,2) assms(2,3)] j(3) by (simp add: ds(2))
      then show False using j(3) by simp
    qed
    then show "block_data ?ds (snd c2) (blk (INODES z j) k) = block_data ?ds (snd c) (blk (INODES z j) k)"
      using upd[OF ok[OF j(1,2)]] j(3) by (simp add: ds)
  qed (simp_all add: inv e(5-8) c1(4) c2(4))
  with loop e(3) show ?thesis using that by blast
qed

lemma write_loop_spec:
  assumes "zinv (installed i n z, c)" "i < MAX_INODES" "missing n \<le> card (free_set z)"
  shows "\<exists>n' z' c'. write_loop n pos bw data (z, c) = (Done (n', bw + min (length data) (DIRECT_BLOCKS * BLOCK_SIZE - pos)), (z', c')) \<and>
    wrote i n z c pos (take (DIRECT_BLOCKS * BLOCK_SIZE - pos) data) n' z' c'"
  using assms
proof (induction "length data" arbitrary: n z c pos bw data rule: less_induct)
  case less
  show ?case
  proof (cases "data = [] \<or> pos div BLOCK_SIZE \<ge> DIRECT_BLOCKS")
    case True
    then have "data = [] \<or> DIRECT_BLOCKS * BLOCK_SIZE - pos = 0" by (auto simp: DIRECT_BLOCKS_def BLOCK_SIZE_def)
    then show ?thesis
      using True wrote_nothing[OF less.prems(1), of pos]
      by (intro exI[of _ n] exI[of _ z] exI[of _ c]) (subst write_loop.simps, auto)
  next
    case False
    define m where "m = min (length data) (BLOCK_SIZE - pos mod BLOCK_SIZE)"
    obtain n1 z1 c1 where s: "write_loop n pos bw data (z, c) = write_loop n1 (pos + m) (bw + m) (drop m data) (z1, c1)"
      "wrote i n z c pos (take m data) n1 z1 c1" "missing n1 \<le> card (free_set z1)"
      using write_step[OF less.prems(1,2) _ _ less.prems(3) m_def, of bw] False by (metis not_le)
    have m: "0 < m" "m \<le> length data" using False by (auto simp: m_def BLOCK_SIZE_def)
    have "pos + m \<le> pos div BLOCK_SIZE * BLOCK_SIZE + BLOCK_SIZE"
    proof -
      have "m \<le> BLOCK_SIZE - pos mod BLOCK_SIZE" "pos mod BLOCK_SIZE < BLOCK_SIZE" by (simp_all add: m_def BLOCK_SIZE_def)
      then show ?thesis using div_mult_mod_eq[of pos BLOCK_SIZE] by linarith
    qed
    also have "\<dots> \<le> DIRECT_BLOCKS * BLOCK_SIZE"
      using False mult_le_mono1[of "Suc (pos div BLOCK_SIZE)" DIRECT_BLOCKS BLOCK_SIZE] by simp
    finally have m3: "pos + m \<le> DIRECT_BLOCKS * BLOCK_SIZE" .
    have "length (drop m data) < length data" using m False by auto
    moreover have "zinv (installed i n1 z1, c1)" using s(2) by (simp add: wrote_def)
    ultimately obtain n' z' c' where l: "write_loop n1 (pos + m) (bw + m) (drop m data) (z1, c1) =
        (Done (n', bw + m + min (length (drop m data)) (DIRECT_BLOCKS * BLOCK_SIZE - (pos + m))), (z', c'))"
      "wrote i n1 z1 c1 (pos + m) (take (DIRECT_BLOCKS * BLOCK_SIZE - (pos + m)) (drop m data)) n' z' c'"
      using less.hyps[of "drop m data" n1 z1 c1 "pos + m" "bw + m"] less.prems(2) s(3) by blast
    have "take m data @ take (DIRECT_BLOCKS * BLOCK_SIZE - (pos + m)) (drop m data) = take (DIRECT_BLOCKS * BLOCK_SIZE - pos) data"
      using m m3 by (simp add: take_add[symmetric])
    moreover have "wrote i n z c pos (take m data @ take (DIRECT_BLOCKS * BLOCK_SIZE - (pos + m)) (drop m data)) n' z' c'"
      using wrote_append[OF s(2)] l(2) m(2) by simp
    moreover have "bw + m + min (length (drop m data)) (DIRECT_BLOCKS * BLOCK_SIZE - (pos + m)) =
        bw + min (length data) (DIRECT_BLOCKS * BLOCK_SIZE - pos)" using m m3 by auto
    ultimately show ?thesis using l(1) s(1) by auto
  qed
qed

text \<open>Reading depends only on the inode and on the contents of its blocks.\<close>

lemma read_file_data_eq:
  assumes "zinv (z, c)" "i < MAX_INODES" "unat num = i"
  shows "\<exists>c'. read_file_data num off buf (z, c) =
    ((if \<not> FS_MOUNTED z then Fail ''filesystem not mounted''
      else if num = 0 then Fail ''invalid inode''
      else if \<not> zohfs_is_file (INODES z i) then Fail ''not a file''
      else if off \<ge> unat (isize (INODES z i)) then Done (0, buf)
      else Done (pure_read (block_data (data_start_sector (FS_SUPER z)) (snd c)) (INODES z i)
        (min (length buf) (unat (isize (INODES z i)) - off)) off 0 buf)), (z, c')) \<and> same_store c c'"
proof -
  have coh: "coherent c" and wf: "zwf z" and fits: "zfits z (snd c)" using assms(1) by (auto simp: zinv_def)
  have "\<forall>k<DIRECT_BLOCKS. blk (INODES z i) k \<noteq> 0 \<longrightarrow> block_ok (data_start_sector (FS_SUPER z)) (snd c) (blk (INODES z i) k)"
    using zfits_block_ok[OF fits] zwf_owned[OF wf assms(2)] by blast
  from read_loop_pure[OF coh this, of "min (length buf) (unat (isize (INODES z i)) - off)" off 0 buf]
  obtain c1 where c1: "read_loop (INODES z i) (min (length buf) (unat (isize (INODES z i)) - off)) off 0 buf (z, c) =
      (Done (pure_read (block_data (data_start_sector (FS_SUPER z)) (snd c)) (INODES z i)
        (min (length buf) (unat (isize (INODES z i)) - off)) off 0 buf), (z, c1))" "same_store c c1" by blast
  show ?thesis
  proof (cases "FS_MOUNTED z \<and> num \<noteq> 0 \<and> zohfs_is_file (INODES z i) \<and> off < unat (isize (INODES z i))")
    case True
    then show ?thesis using c1 assms(2,3) by (intro exI[of _ c1]) (simp add: read_file_data_def Let_def)
  next
    case False
    then show ?thesis using same_store_refl[OF coh] assms(2,3) by (intro exI[of _ c]) (auto simp: read_file_data_def Let_def)
  qed
qed

lemma write_file_data_eq:
  assumes "zinv (z, c)" "FS_MOUNTED z" "num \<noteq> 0" "unat num < MAX_INODES" "zohfs_is_file (INODES z (unat num))"
    "missing (INODES z (unat num)) \<le> card (free_set z)"
    "cap = DIRECT_BLOCKS * BLOCK_SIZE - off"
  obtains n' z' c' where "write_file_data num off data (z, c) = (Done (min (length data) cap),
      (installed (unat num) (if off + min (length data) cap > unat (isize (INODES z (unat num)))
         then n'\<lparr>isize := of_nat (off + min (length data) cap)\<rparr> else n') z', c'))"
    "wrote (unat num) (INODES z (unat num)) z c off (take cap data) n' z' c'"
proof -
  let ?i = "unat num"
  have inst: "installed ?i (INODES z ?i) z = z" by (simp add: installed_def)
  obtain n' z' c' where w: "write_loop (INODES z ?i) off 0 data (z, c) = (Done (n', min (length data) cap), (z', c'))"
    "wrote ?i (INODES z ?i) z c off (take cap data) n' z' c'"
    using write_loop_spec[of ?i "INODES z ?i" z c off 0 data] assms by (auto simp: inst)
  moreover have "isize n' = isize (INODES z ?i)" using w(2) by (simp add: wrote_def)
  ultimately show ?thesis
    using that[of n' z' c'] assms(2-5) w(1) by (simp add: write_file_data_def Let_def io_bind_def modz_def installed_def)
qed

lemma zwf_cong:
  "\<lbrakk>zwf z; \<And>i. direct_blocks (INODES z' i) = direct_blocks (INODES z i); BITMAP z' = BITMAP z; zblocks z' = zblocks z\<rbrakk> \<Longrightarrow> zwf z'"
  unfolding zwf_def by (elim conjE) (intro conjI, simp_all)

lemma zinv_resize: "zinv (installed i n z, c) \<Longrightarrow> zinv (installed i (n\<lparr>isize := v\<rparr>) z, c)"
  by (auto simp: zinv_def elim: zwf_cong zfits_cong)

text \<open>
  C19: file data of ZohFS.  On a mounted, well-formed file system with enough free blocks for the
  blocks that a file lacks, a write at any offset stores as much of the data as fits in the
  ten direct blocks and returns its length; the file system stays well formed; reading
  the same range gives back the bytes written; and what a read of any other file
  returns is not changed.
\<close>

theorem zohfs_write_then_read:
  assumes "zinv (z, c)" "FS_MOUNTED z" "num \<noteq> 0" "unat num < MAX_INODES" "zohfs_is_file (INODES z (unat num))"
    "card {k. k < DIRECT_BLOCKS \<and> blk (INODES z (unat num)) k = 0} \<le> card (free_set z)"
    "n = min (length data) (DIRECT_BLOCKS * BLOCK_SIZE - off)"
  shows "\<exists>s'. write_file_data num off data (z, c) = (Done n, s') \<and> zinv s' \<and>
    fst (read_file_data num off (replicate n 0) s') = Done (n, take n data) \<and>
    (\<forall>num' off' buf. num' \<noteq> num \<and> unat num' < MAX_INODES \<longrightarrow> fst (read_file_data num' off' buf s') = fst (read_file_data num' off' buf (z, c)))"
proof -
  let ?i = "unat num" and ?cap = "DIRECT_BLOCKS * BLOCK_SIZE - off" and ?ds = "data_start_sector (FS_SUPER z)"
  obtain n0 z' c' where w: "write_file_data num off data (z, c) = (Done n,
      (installed ?i (if off + n > unat (isize (INODES z ?i)) then n0\<lparr>isize := of_nat (off + n)\<rparr> else n0) z', c'))"
    "wrote ?i (INODES z ?i) z c off (take ?cap data) n0 z' c'"
    using write_file_data_eq[OF assms(1-5) assms(6)[folded missing_def] refl] assms(7) by metis
  define n1 where "n1 = (if off + n > unat (isize (INODES z ?i)) then n0\<lparr>isize := of_nat (off + n)\<rparr> else n0)"
  note wr = w(2)[unfolded wrote_def Let_def]
  have inv0: "zinv (installed ?i n0 z', c')" and k: "keeps z z'" and same: "isize n0 = isize (INODES z ?i)" "mode n0 = mode (INODES z ?i)"
    using wr by auto
  have inv: "zinv (installed ?i n1 z', c')" using inv0 zinv_resize[OF inv0] by (simp add: n1_def)
  have k': "INODES z' = INODES z" "data_start_sector (FS_SUPER z') = ?ds" "FS_MOUNTED z' = FS_MOUNTED z" using k by (auto simp: keeps_def)
  have isf: "zohfs_is_file n1" using assms(5) same(2) by (simp add: n1_def zohfs_is_file_def)
  have "take n data = take ?cap data" using assms(7) by (simp add: min_def)
  then have len: "length (take ?cap data) = n" using assms(7) by simp
  have "fst (read_file_data num off (replicate n 0) (installed ?i n1 z', c')) = Done (n, take n data)"
  proof (cases "n = 0")
    case True
    obtain c2 where "read_file_data num off (replicate n 0) (installed ?i n1 z', c') = ((if off \<ge> unat (isize n1) then Done (0, replicate n 0)
        else Done (pure_read (block_data ?ds (snd c')) n1 (min n (unat (isize n1) - off)) off 0 (replicate n 0))), (installed ?i n1 z', c2))"
      using read_file_data_eq[OF inv assms(4) refl, of off "replicate n 0"] assms(2,3) isf k' by auto
    then show ?thesis using True by (simp add: pure_read.simps)
  next
    case False
    have fit: "off + n \<le> DIRECT_BLOCKS * BLOCK_SIZE" using assms(7) False by linarith
    then have "unat (of_nat (off + n) :: u32) = off + n" by (simp only: unat_of_nat) (simp add: DIRECT_BLOCKS_def BLOCK_SIZE_def)
    then have size: "off + n \<le> unat (isize n1)" using same(1) by (simp add: n1_def)
    have bytes: "p div BLOCK_SIZE < DIRECT_BLOCKS \<and> blk n1 (p div BLOCK_SIZE) \<noteq> 0" "file_byte (block_data ?ds (snd c')) n1 p = take n data ! (p - off)"
      if "off \<le> p" "p < off + n" for p
      using wr that len \<open>take n data = take ?cap data\<close> by (auto simp: n1_def file_byte_def)
    have "coherent c'" using inv by (simp add: zinv_def)
    then have lenb: "length (block_data ?ds (snd c') b) = BLOCK_SIZE" for b by (metis length_block_data prod.collapse)
    have "map (file_byte (block_data ?ds (snd c')) n1) [off..<off + n] = take n data"
      using bytes(2) len \<open>take n data = take ?cap data\<close> by (intro nth_equalityI) auto
    moreover have "pure_read (block_data ?ds (snd c')) n1 n off 0 (replicate n 0) =
        (n, put_slice (replicate n 0) 0 (map (file_byte (block_data ?ds (snd c')) n1) [off..<off + (n - 0)]))"
      by (rule pure_read_all[OF lenb]) (use bytes(1) in auto)
    moreover have "put_slice (replicate n 0) 0 (take n data) = take n data"
      using len \<open>take n data = take ?cap data\<close> by (simp add: put_slice_def)
    moreover have "min (length (replicate n (0 :: u8))) (unat (isize n1) - off) = n" "\<not> off \<ge> unat (isize n1)" using size False by auto
    moreover obtain c2 where "read_file_data num off (replicate n 0) (installed ?i n1 z', c') = ((if off \<ge> unat (isize n1) then Done (0, replicate n 0)
        else Done (pure_read (block_data ?ds (snd c')) n1 (min (length (replicate n (0 :: u8))) (unat (isize n1) - off)) off 0 (replicate n 0))), (installed ?i n1 z', c2))"
      using read_file_data_eq[OF inv assms(4) refl, of off "replicate n 0"] assms(2,3) isf k' by auto
    ultimately show ?thesis by simp
  qed
  moreover have "fst (read_file_data num' off' buf (installed ?i n1 z', c')) = fst (read_file_data num' off' buf (z, c))"
    if "num' \<noteq> num" "unat num' < MAX_INODES" for num' off' buf
  proof -
    have ne: "unat num' \<noteq> ?i" using that(1) by (metis unsigned_word_eqI)
    have "pure_read (block_data ?ds (snd c')) (INODES z (unat num')) r off' 0 buf = pure_read (block_data ?ds (snd c)) (INODES z (unat num')) r off' 0 buf" for r
      using wr that(2) ne by (intro pure_read_cong) blast
    then show ?thesis
      using read_file_data_eq[OF inv that(2) refl, of off' buf] read_file_data_eq[OF assms(1) that(2) refl, of off' buf] ne k' by auto
  qed
  ultimately show ?thesis using w(1) inv by (intro exI[of _ "(installed ?i n1 z', c')"]) (simp add: n1_def[symmetric])
qed

text \<open>A drive of 2048 sectors just after \<open>mkfs\<close> and \<open>init\<close>, with one empty file, inode 2.\<close>

lemma used_fold_set: "used (fold set_bit64 bs bm) b \<longleftrightarrow> b \<in> set bs \<or> used bm b"
  by (induction bs arbitrary: bm) (auto simp: used_set_bit64)

lemma zohfs_updates:
  "BITMAP (z\<lparr>BITMAP := bm, INODES := ns, ROOT_DIR := es, ROOT_DIR_COUNT := k\<rparr>) = bm"
  "BITMAP (z\<lparr>FS_SUPER := sb, FS_MOUNTED := m, INODES := ns\<rparr>) = BITMAP z"
  by simp_all

lemma used_mkfs: "used (BITMAP (mkfs_memory z)) b \<longleftrightarrow> b < 10 \<or> used (\<lambda>i. if i < BITMAP_WORDS then 0 else BITMAP z i) b"
proof -
  have "BITMAP (mkfs_memory z) = set_bit64 1 (fold set_bit64 [0..<10] (\<lambda>i. if i < BITMAP_WORDS then 0 else BITMAP z i))"
    by (simp only: mkfs_memory_def zohfs_updates)
  then show ?thesis by (simp only: used_set_bit64 used_fold_set set_upt) auto
qed

definition formatted :: "u32 \<Rightarrow> zohfs" where
  "formatted n = (mkfs_memory zohfs_boot)\<lparr>FS_SUPER := mkfs_super n, FS_MOUNTED := True\<rparr>"

definition one_file :: zohfs where
  "one_file = (formatted 2048)\<lparr>INODES := (INODES (formatted 2048))(2 := set_file inode_empty)\<rparr>"

lemma one_file_simps:
  "zblocks one_file = 247" "data_start_sector (FS_SUPER one_file) = 72" "FS_MOUNTED one_file"
  "used (BITMAP one_file) b \<longleftrightarrow> b < 10"
  "INODES one_file i = (if i = 2 then set_file inode_empty else if i = 1 then mkfs_root else inode_empty)"
proof -
  have "BITMAP one_file = BITMAP (mkfs_memory zohfs_boot)" by (simp only: one_file_def formatted_def zohfs_updates)
  then show "used (BITMAP one_file) b \<longleftrightarrow> b < 10" using used_mkfs by (simp add: used_def zohfs_boot_def)
qed (simp_all add: one_file_def formatted_def mkfs_memory_def mkfs_super_def zohfs_boot_def ROOT_INODE_def)

lemma one_file_blk:
  "k < DIRECT_BLOCKS \<Longrightarrow> blk (INODES one_file i) k = (if i = 1 \<and> k = 0 then 1 else 0)"
  by (auto simp: one_file_simps mkfs_root_def inode_empty_def set_file_def set_dir_def DIRECT_BLOCKS_def nth_Cons')

lemma one_file_zinv: "zinv (one_file, (bcache_boot, blank_disk 2048))"
proof -
  have "zwf one_file"
  proof (rule zwfI)
    show "length (direct_blocks (INODES one_file i)) = DIRECT_BLOCKS" for i
      by (simp add: one_file_simps mkfs_root_def inode_empty_def set_file_def set_dir_def)
  qed (auto simp: one_file_simps(1,4) one_file_blk split: if_splits)
  then show ?thesis by (simp add: zinv_def coherent_boot zfits_def one_file_simps)
qed

theorem zohfs_write_then_read_witness:
  "\<exists>s'. write_file_data 2 4090 [1, 2, 3, 4, 5, 6, 7, 8, 9, 10] (one_file, (bcache_boot, blank_disk 2048)) = (Done 10, s') \<and>
    fst (read_file_data 2 4090 (replicate 10 0) s') = Done (10, [1, 2, 3, 4, 5, 6, 7, 8, 9, 10])"
proof -
  have "{10..<247} \<subseteq> free_set one_file" by (auto simp: free_set_def one_file_simps)
  then have "card {10..<247 :: nat} \<le> card (free_set one_file)" by (intro card_mono) auto
  moreover have "card {k. k < DIRECT_BLOCKS \<and> blk (INODES one_file (unat (2 :: u32))) k = 0} \<le> card {k. k < DIRECT_BLOCKS}"
    by (intro card_mono) auto
  ultimately have free: "card {k. k < DIRECT_BLOCKS \<and> blk (INODES one_file (unat (2 :: u32))) k = 0} \<le> card (free_set one_file)"
    by (simp add: DIRECT_BLOCKS_def)
  have isf: "zohfs_is_file (INODES one_file (unat (2 :: u32)))"
    by (simp add: one_file_simps zohfs_is_file_def set_file_def)
  have num: "(2 :: u32) \<noteq> 0" "unat (2 :: u32) < MAX_INODES" by (simp_all add: MAX_INODES_def)
  have n: "10 = min (length [1 :: u8, 2, 3, 4, 5, 6, 7, 8, 9, 10]) (DIRECT_BLOCKS * BLOCK_SIZE - 4090)"
    by (simp add: DIRECT_BLOCKS_def BLOCK_SIZE_def)
  have "take 10 [1 :: u8, 2, 3, 4, 5, 6, 7, 8, 9, 10] = [1, 2, 3, 4, 5, 6, 7, 8, 9, 10]" by simp
  with zohfs_write_then_read[OF one_file_zinv one_file_simps(3) num isf free n] show ?thesis by metis
qed

end
