(* ===== verification/Fat32.thy ===== *)
theory Fat32
  imports Disk Bytes
begin

text \<open>
  The FAT32 driver (\<open>src/fs/fat32.rs\<close>), directly over the disk driver.  The handle is read from the
  boot sector, which is not trusted: a sector size of zero divides by zero, one above 512
  indexes past a sector buffer (\<open>Crash\<close>).  Loops along a cluster chain need not end, since a chain
  on the disk may be cyclic; they take fuel and are \<open>Hang\<close> when it runs out.
\<close>

record Fat32Fs =
  bytes_per_sector :: u32
  sectors_per_cluster :: u32
  reserved_sectors :: u32
  num_fats :: u32
  fat_size :: u32
  root_cluster :: u32
  data_start :: u32
  total_clusters :: u32

definition fat32_init :: "(disk, Fat32Fs) io" where
  "fat32_init = io_bind (read_sector 0) (\<lambda>buf.
     if get_u16 buf 22 \<noteq> 0 then io_fail ''not FAT32 (FAT12/16 detected)''
     else if get_u32 buf 36 = 0 then io_fail ''invalid FAT32: fat_size_32 is 0''
     else let spc = ucast (buf ! 13); reserved = ucast (get_u16 buf 14); fats = ucast (buf ! 16); fsize = get_u32 buf 36;
         start = reserved + fats * fsize;
         total = (if get_u32 buf 32 \<noteq> 0 then get_u32 buf 32 else ucast (get_u16 buf 19)) in
       if spc = 0 then io_crash
       else io_ret \<lparr>bytes_per_sector = ucast (get_u16 buf 11), sectors_per_cluster = spc, reserved_sectors = reserved,
         num_fats = fats, fat_size = fsize, root_cluster = get_u32 buf 44, data_start = start,
         total_clusters = (total - start) div spc\<rparr>)"

definition sectors_per_sector :: "Fat32Fs \<Rightarrow> u32" where
  "sectors_per_sector fs = sectors_per_cluster fs"

definition cluster_size :: "Fat32Fs \<Rightarrow> u32" where
  "cluster_size fs = sectors_per_cluster fs * bytes_per_sector fs"

definition first_sector :: "Fat32Fs \<Rightarrow> u32 \<Rightarrow> u32" where
  "first_sector fs cluster = data_start fs + (cluster - 2) * sectors_per_cluster fs"

definition read_cluster :: "Fat32Fs \<Rightarrow> u32 \<Rightarrow> u8 list \<Rightarrow> (disk, u8 list) io" where
  "read_cluster fs cluster buf =
    (if cluster < 2 then io_fail ''invalid cluster''
     else if length buf < unat (sectors_per_sector fs * of_nat SECTOR_SIZE) then io_fail ''buffer too small for cluster''
     else rd_each read_sector (first_sector fs cluster) [0..<unat (sectors_per_cluster fs)] buf)"

definition next_cluster :: "Fat32Fs \<Rightarrow> u32 \<Rightarrow> (disk, u32) io" where
  "next_cluster fs cluster =
    (let fat_offset = reserved_sectors fs * bytes_per_sector fs + cluster * 4; bps = bytes_per_sector fs in
     if bps = 0 then io_crash
     else let fat_sector = fat_offset div bps; byte_in_sector = unat (fat_offset mod bps) in
       io_bind (read_sector fat_sector) (\<lambda>buf.
         if byte_in_sector + 3 \<ge> SECTOR_SIZE then io_crash
         else let entry = get_u32 buf byte_in_sector in
           if entry \<ge> 0x0FFFFFF8 then io_ret 0
           else if entry = 0x0FFFFFF7 then io_fail ''bad cluster''
           else io_ret (entry AND 0x0FFFFFFF)))"

text \<open>The number of bytes read, and the buffer.\<close>

primrec fat32_read_loop :: "nat \<Rightarrow> Fat32Fs \<Rightarrow> u32 \<Rightarrow> u32 \<Rightarrow> nat \<Rightarrow> u8 list \<Rightarrow> u8 list \<Rightarrow> (disk, nat \<times> u8 list) io" where
  "fat32_read_loop 0 fs cluster sz offset cluster_buf buf = io_hang"
| "fat32_read_loop (Suc fuel) fs cluster sz offset cluster_buf buf =
    (if offset < length buf \<and> offset < unat sz then
       io_bind (read_cluster fs cluster cluster_buf) (\<lambda>cb.
         let to_copy = min (min (unat sz - offset) (length cb)) (length buf - offset);
             buf' = put_slice buf offset (take to_copy cb) in
         io_bind (next_cluster fs cluster) (\<lambda>next.
           if next = 0 then io_ret (offset + to_copy, buf')
           else fat32_read_loop fuel fs next sz (offset + to_copy) cb buf'))
     else io_ret (offset, buf))"

definition fat32_read_file_data :: "nat \<Rightarrow> Fat32Fs \<Rightarrow> u32 \<Rightarrow> u32 \<Rightarrow> u8 list \<Rightarrow> (disk, nat \<times> u8 list) io" where
  "fat32_read_file_data fuel fs start_cluster sz buf =
    fat32_read_loop fuel fs start_cluster sz 0 (replicate (unat (sectors_per_sector fs * of_nat SECTOR_SIZE)) 0) buf"

section \<open>Directories\<close>

text \<open>A parsed entry; its name is a list of characters below 256.\<close>

record DirEntry32 =
  e_name :: "u8 list"
  e_cluster :: u32
  e_size :: u32
  e_is_dir :: bool

text \<open>The characters of a long-name entry that are kept: its first five, while they are ASCII.\<close>

primrec long_chars :: "u8 list \<Rightarrow> nat \<Rightarrow> nat list \<Rightarrow> u8 list" where
  "long_chars buf off [] = []"
| "long_chars buf off (j # js) = (let c = get_u16 buf (off + 1 + j * 2) in
     if c = 0xFFFF \<or> c = 0 then []
     else if c < 0x80 then ucast c # long_chars buf off js
     else long_chars buf off js)"

definition short_name :: "u8 list \<Rightarrow> nat \<Rightarrow> u8 list" where
  "short_name buf off = takeWhile (\<lambda>c. c \<noteq> 0x20) (get_slice buf off 8) @
     (if buf ! (off + 8) \<noteq> 0x20 then 0x2E # takeWhile (\<lambda>c. c \<noteq> 0x20) (get_slice buf (off + 8) 3) else [])"

definition entry_cluster :: "u8 list \<Rightarrow> nat \<Rightarrow> u32" where
  "entry_cluster buf off = push_bit 16 (ucast (get_u16 buf (off + 20))) OR ucast (get_u16 buf (off + 26))"

primrec parse_dir :: "u8 list \<Rightarrow> nat list \<Rightarrow> u8 list \<Rightarrow> DirEntry32 list" where
  "parse_dir buf [] long_name = []"
| "parse_dir buf (i # is) long_name = (let off = i * 32; attributes = buf ! (off + 11) in
     if buf ! off = 0x00 then []
     else if buf ! off = 0xE5 then parse_dir buf is []
     else if attributes = 0x0F then parse_dir buf is (long_name @ long_chars buf off [0..<5])
     else let name = (if long_name \<noteq> [] then long_name else short_name buf off) in
       if attributes AND 0x02 \<noteq> 0 \<or> attributes AND 0x04 \<noteq> 0 then parse_dir buf is []
       else \<lparr>e_name = name, e_cluster = entry_cluster buf off, e_size = get_u32 buf (off + 28), e_is_dir = (attributes AND 0x10 \<noteq> 0)\<rparr> #
         parse_dir buf is [])"

text \<open>The first argument counts the 1025 clusters that \<open>readdir\<close> visits at most.\<close>

primrec readdir_loop :: "nat \<Rightarrow> Fat32Fs \<Rightarrow> u32 \<Rightarrow> u8 list \<Rightarrow> DirEntry32 list \<Rightarrow> (disk, DirEntry32 list) io" where
  "readdir_loop 0 fs cluster cluster_buf entries = io_ret entries"
| "readdir_loop (Suc depth) fs cluster cluster_buf entries =
    (if cluster < 2 then io_ret entries
     else io_bind (read_cluster fs cluster cluster_buf) (\<lambda>cb.
       let entries' = entries @ parse_dir cb [0..<length cluster_buf div 32] [] in
       io_bind (next_cluster fs cluster) (\<lambda>next.
         if next = 0 \<or> next < 2 then io_ret entries' else readdir_loop depth fs next cb entries')))"

definition fat32_readdir :: "Fat32Fs \<Rightarrow> u32 \<Rightarrow> (disk, DirEntry32 list) io" where
  "fat32_readdir fs dir_cluster =
    readdir_loop 1025 fs dir_cluster (replicate (unat (sectors_per_sector fs * of_nat SECTOR_SIZE)) 0) []"

section \<open>The file allocation table\<close>

text \<open>One sector of the table: the first free cluster it describes.  More than 128 entries index past the buffer.\<close>

definition free_in_sector :: "Fat32Fs \<Rightarrow> u32 \<Rightarrow> u8 list \<Rightarrow> nat option" where
  "free_in_sector fs sec buf = (let eps = bytes_per_sector fs div 4 in
     scan (\<lambda>i. get_u32 buf (i * 4) AND 0x0FFFFFFF = 0 \<and> 2 \<le> sec * eps + of_nat i \<and> sec * eps + of_nat i < total_clusters fs)
       0 (min (unat eps) 128))"

primrec alloc_loop :: "Fat32Fs \<Rightarrow> nat list \<Rightarrow> (disk, u32) io" where
  "alloc_loop fs [] = io_fail ''no free clusters''"
| "alloc_loop fs (sec # secs) = io_bind (read_sector (reserved_sectors fs + of_nat sec)) (\<lambda>buf.
     case free_in_sector fs (of_nat sec) buf of
       Some i \<Rightarrow> io_ret (of_nat sec * (bytes_per_sector fs div 4) + of_nat i)
     | None \<Rightarrow> if unat (bytes_per_sector fs div 4) > 128 then io_crash else alloc_loop fs secs)"

definition alloc_cluster :: "Fat32Fs \<Rightarrow> (disk, u32) io" where
  "alloc_cluster fs = alloc_loop fs [0..<unat (fat_size fs)]"

primrec write_fats :: "Fat32Fs \<Rightarrow> u32 \<Rightarrow> u8 list \<Rightarrow> nat list \<Rightarrow> (disk, unit) io" where
  "write_fats fs sec buf [] = io_ret ()"
| "write_fats fs sec buf (f # rest) = io_bind (write_sector (sec + of_nat f * fat_size fs) buf) (\<lambda>_. write_fats fs sec buf rest)"

definition set_fat_entry :: "Fat32Fs \<Rightarrow> u32 \<Rightarrow> u32 \<Rightarrow> (disk, unit) io" where
  "set_fat_entry fs cluster v =
    (let fat_offset = cluster * 4; bps = bytes_per_sector fs in
     if bps = 0 then io_crash
     else let sec = reserved_sectors fs + fat_offset div bps; byte_in_sector = unat (fat_offset mod bps) in
       io_bind (read_sector sec) (\<lambda>buf.
         if byte_in_sector + 4 > SECTOR_SIZE then io_crash
         else write_fats fs sec (put_u32 buf byte_in_sector (v AND 0x0FFFFFFF)) [0..<unat (num_fats fs)]))"

definition mark_eoc :: "Fat32Fs \<Rightarrow> u32 \<Rightarrow> (disk, unit) io" where
  "mark_eoc fs cluster = set_fat_entry fs cluster 0x0FFFFFF8"

definition free_cluster :: "Fat32Fs \<Rightarrow> u32 \<Rightarrow> (disk, unit) io" where
  "free_cluster fs cluster = set_fat_entry fs cluster 0"

primrec free_cluster_chain :: "nat \<Rightarrow> Fat32Fs \<Rightarrow> u32 \<Rightarrow> (disk, unit) io" where
  "free_cluster_chain 0 fs cluster = io_hang"
| "free_cluster_chain (Suc fuel) fs cluster =
    (if cluster < 2 \<or> cluster \<ge> total_clusters fs then io_ret ()
     else io_bind (next_cluster fs cluster) (\<lambda>next.
       io_bind (free_cluster fs cluster) (\<lambda>_.
       if next = 0 \<or> next \<ge> 0x0FFFFFF8 then io_ret () else free_cluster_chain fuel fs next)))"

primrec last_cluster :: "nat \<Rightarrow> Fat32Fs \<Rightarrow> u32 \<Rightarrow> (disk, u32) io" where
  "last_cluster 0 fs cluster = io_hang"
| "last_cluster (Suc fuel) fs cluster = io_bind (next_cluster fs cluster) (\<lambda>next.
     if next = 0 then io_ret cluster else last_cluster fuel fs next)"

section \<open>Writing\<close>

text \<open>The sector at byte \<open>offset\<close> of the data, padded with zeros.\<close>

definition padded_sector :: "u8 list \<Rightarrow> nat \<Rightarrow> nat \<Rightarrow> u8 list" where
  "padded_sector data to_write offset =
    (if offset < to_write
     then put_slice (replicate SECTOR_SIZE 0) 0 (get_slice data offset (min (offset + SECTOR_SIZE) to_write - offset))
     else replicate SECTOR_SIZE 0)"

primrec write_cluster_loop :: "u32 \<Rightarrow> u8 list \<Rightarrow> nat \<Rightarrow> nat list \<Rightarrow> (disk, unit) io" where
  "write_cluster_loop start data to_write [] = io_ret ()"
| "write_cluster_loop start data to_write (s # rest) =
    io_bind (write_sector (start + of_nat s) (padded_sector data to_write (s * SECTOR_SIZE))) (\<lambda>_.
      write_cluster_loop start data to_write rest)"

definition write_cluster :: "Fat32Fs \<Rightarrow> u32 \<Rightarrow> u8 list \<Rightarrow> (disk, unit) io" where
  "write_cluster fs cluster data = write_cluster_loop (first_sector fs cluster) data
     (min (length data) (unat (cluster_size fs))) [0..<unat (sectors_per_cluster fs)]"

text \<open>The cluster of an offset, and the offset in it.\<close>

primrec walk_chain :: "nat \<Rightarrow> Fat32Fs \<Rightarrow> u32 \<Rightarrow> nat \<Rightarrow> (disk, u32 \<times> nat) io" where
  "walk_chain 0 fs cluster pos = io_hang"
| "walk_chain (Suc fuel) fs cluster pos =
    (if pos \<ge> unat (cluster_size fs) then io_bind (next_cluster fs cluster) (\<lambda>next.
       if next = 0 then io_fail ''offset beyond file'' else walk_chain fuel fs next (pos - unat (cluster_size fs)))
     else io_ret (cluster, pos))"

definition extend_chain :: "Fat32Fs \<Rightarrow> u32 \<Rightarrow> (disk, u32) io" where
  "extend_chain fs cluster = io_bind (next_cluster fs cluster) (\<lambda>next.
     if next = 0
     then io_bind (alloc_cluster fs) (\<lambda>newCluster.
       io_bind (set_fat_entry fs cluster newCluster) (\<lambda>_.
       io_bind (mark_eoc fs newCluster) (\<lambda>_. io_ret newCluster)))
     else io_ret next)"

primrec fat32_write_loop :: "nat \<Rightarrow> Fat32Fs \<Rightarrow> u32 \<Rightarrow> nat \<Rightarrow> nat \<Rightarrow> u8 list \<Rightarrow> (disk, nat) io" where
  "fat32_write_loop 0 fs cluster pos bytes_written data = io_hang"
| "fat32_write_loop (Suc fuel) fs cluster pos bytes_written data =
    (if data = [] then io_ret bytes_written
     else let cs = unat (cluster_size fs) in
       io_bind (read_cluster fs cluster (replicate cs 0)) (\<lambda>cluster_buf.
       let n = min (length data) (cs - pos) in
       io_bind (write_cluster fs cluster (put_slice cluster_buf pos (take n data))) (\<lambda>_.
       if drop n data \<noteq> []
       then io_bind (extend_chain fs cluster) (\<lambda>next. fat32_write_loop fuel fs next 0 (bytes_written + n) (drop n data))
       else io_ret (bytes_written + n))))"

definition fat32_write_file_data :: "nat \<Rightarrow> Fat32Fs \<Rightarrow> u32 \<Rightarrow> nat \<Rightarrow> u8 list \<Rightarrow> (disk, nat) io" where
  "fat32_write_file_data fuel fs start_cluster offset data =
    io_bind (walk_chain fuel fs start_cluster offset) (\<lambda>(cluster, pos). fat32_write_loop fuel fs cluster pos 0 data)"

section \<open>Creating and deleting entries\<close>

definition to_ascii_uppercase :: "u8 \<Rightarrow> u8" where
  "to_ascii_uppercase b = (if 0x61 \<le> b \<and> b \<le> 0x7A then b - 0x20 else b)"

definition to_8_3 :: "bytes \<Rightarrow> u8 list \<times> u8 list" where
  "to_8_3 name = (let parts = split_on 0x2E name in
     (put_slice (replicate 8 0x20) 0 (map to_ascii_uppercase (take 8 (parts ! 0))),
      if length parts > 1 then put_slice (replicate 3 0x20) 0 (map to_ascii_uppercase (take 3 (parts ! 1))) else replicate 3 0x20))"

definition dir_entry :: "u8 list \<Rightarrow> u8 list \<Rightarrow> bool \<Rightarrow> u32 \<Rightarrow> u8 list" where
  "dir_entry name ext dir file_cluster = name @ ext @ [if dir then 0x10 else 0x20] @ replicate 8 0 @
     le_bytes 2 (unat (drop_bit 16 file_cluster)) @ replicate 4 0 @ le_bytes 2 (unat (file_cluster AND 0xFFFF)) @ replicate 4 0"

primrec create_loop :: "nat \<Rightarrow> Fat32Fs \<Rightarrow> u32 \<Rightarrow> u8 list \<Rightarrow> u8 list \<Rightarrow> u32 \<Rightarrow> (disk, u32) io" where
  "create_loop 0 fs cluster cluster_buf entry file_cluster = io_hang"
| "create_loop (Suc fuel) fs cluster cluster_buf entry file_cluster =
    io_bind (read_cluster fs cluster cluster_buf) (\<lambda>cb.
      case scan (\<lambda>i. cb ! (i * 32) = 0x00 \<or> cb ! (i * 32) = 0xE5) 0 (unat (cluster_size fs) div 32) of
        Some i \<Rightarrow> io_bind (write_cluster fs cluster (put_slice cb (i * 32) entry)) (\<lambda>_. io_ret file_cluster)
      | None \<Rightarrow> io_bind (next_cluster fs cluster) (\<lambda>next.
          if next = 0 then
            io_bind (alloc_cluster fs) (\<lambda>newCluster.
            io_bind (set_fat_entry fs cluster newCluster) (\<lambda>_.
            io_bind (mark_eoc fs newCluster) (\<lambda>_.
            io_bind (write_cluster fs newCluster (replicate (unat (cluster_size fs)) 0)) (\<lambda>_.
            io_bind (write_cluster fs newCluster (put_slice (replicate (unat (cluster_size fs)) 0) 0 entry)) (\<lambda>_.
            io_ret file_cluster)))))
          else create_loop fuel fs next cb entry file_cluster))"

definition create_file_entry :: "nat \<Rightarrow> Fat32Fs \<Rightarrow> u32 \<Rightarrow> bytes \<Rightarrow> bool \<Rightarrow> (disk, u32) io" where
  "create_file_entry fuel fs dir_cluster name dir =
    io_bind (alloc_cluster fs) (\<lambda>file_cluster.
    io_bind (mark_eoc fs file_cluster) (\<lambda>_.
    let (sn, se) = to_8_3 name in
    create_loop fuel fs dir_cluster (replicate (unat (cluster_size fs)) 0) (dir_entry sn se dir file_cluster) file_cluster))"

text \<open>
  What the scan of one directory cluster finds: the end of the directory, the entry, or neither.
  The chain it frees is computed from one byte of each half of the cluster number.
\<close>

datatype found = EndOfDir | FoundAt nat | NotHere

primrec find_entry :: "u8 list \<Rightarrow> u8 list \<Rightarrow> u8 list \<Rightarrow> nat list \<Rightarrow> found" where
  "find_entry cb sn se [] = NotHere"
| "find_entry cb sn se (i # is) = (let off = i * 32 in
     if cb ! off = 0x00 then EndOfDir
     else if cb ! off = 0xE5 then find_entry cb sn se is
     else if get_slice cb off 8 = sn \<and> get_slice cb (off + 8) 3 = se then FoundAt i
     else find_entry cb sn se is)"

definition deleted_cluster :: "u8 list \<Rightarrow> nat \<Rightarrow> u32" where
  "deleted_cluster cb off = push_bit 16 (ucast (cb ! (off + 20))) OR ucast (cb ! (off + 26))"

primrec delete_loop :: "nat \<Rightarrow> Fat32Fs \<Rightarrow> u32 \<Rightarrow> u8 list \<Rightarrow> u8 list \<Rightarrow> u8 list \<Rightarrow> (disk, unit) io" where
  "delete_loop 0 fs cluster cluster_buf sn se = io_hang"
| "delete_loop (Suc fuel) fs cluster cluster_buf sn se =
    io_bind (read_cluster fs cluster cluster_buf) (\<lambda>cb.
      case find_entry cb sn se [0..<unat (cluster_size fs) div 32] of
        EndOfDir \<Rightarrow> io_fail ''file not found''
      | FoundAt i \<Rightarrow> let cl = deleted_cluster cb (i * 32) in
          io_bind (if cl \<ge> 2 then free_cluster_chain fuel fs cl else io_ret ()) (\<lambda>_.
          write_cluster fs cluster (cb[i * 32 := 0xE5]))
      | NotHere \<Rightarrow> io_bind (next_cluster fs cluster) (\<lambda>next.
          if next = 0 then io_fail ''file not found'' else delete_loop fuel fs next cb sn se))"

definition delete_file_entry :: "nat \<Rightarrow> Fat32Fs \<Rightarrow> u32 \<Rightarrow> bytes \<Rightarrow> (disk, unit) io" where
  "delete_file_entry fuel fs dir_cluster name = (let (sn, se) = to_8_3 name in
     delete_loop fuel fs dir_cluster (replicate (unat (cluster_size fs)) 0) sn se)"

end
