(* ===== verification/Fat32_Table.thy ===== *)
theory Fat32_Table
  imports Fat32 Bcache
begin

text \<open>
  The file allocation table of a FAT32 volume: what its entries are on the drive, and what
  the operations of the driver do to them on a volume of consistent geometry.
\<close>

abbreviation clusters :: "Fat32Fs \<Rightarrow> nat" where "clusters fs \<equiv> unat (total_clusters fs)"

text \<open>
  Sectors of 512 bytes, a table that covers the clusters, copies of the table below the data
  area, a data area on the drive, cluster numbers of 28 bits.
\<close>

definition fat_wf :: "Fat32Fs \<Rightarrow> disk \<Rightarrow> bool" where
  "fat_wf fs d \<longleftrightarrow> disk_ok d \<and> bytes_per_sector fs = 512 \<and> 0 < unat (sectors_per_cluster fs) \<and> unat (sectors_per_cluster fs) < 256 \<and>
     0 < unat (num_fats fs) \<and> clusters fs \<le> 128 * unat (fat_size fs) \<and>
     unat (reserved_sectors fs) + unat (num_fats fs) * unat (fat_size fs) \<le> unat (data_start fs) \<and>
     unat (data_start fs) + clusters fs * unat (sectors_per_cluster fs) \<le> unat (total_sectors d) \<and>
     512 * unat (reserved_sectors fs) + 4 * clusters fs < 2 ^ 32 \<and> 128 * unat (fat_size fs) \<le> 2 ^ 28"

definition fat_sector :: "Fat32Fs \<Rightarrow> u32 \<Rightarrow> u32" where
  "fat_sector fs c = reserved_sectors fs + of_nat (unat c div 128)"

definition fat_entry :: "Fat32Fs \<Rightarrow> disk \<Rightarrow> u32 \<Rightarrow> u32" where
  "fat_entry fs d c = get_u32 (sectors d (fat_sector fs c)) (unat c mod 128 * 4)"

lemma fat_wfD:
  assumes "fat_wf fs d"
  shows "disk_ok d" "bytes_per_sector fs = 512" "0 < unat (num_fats fs)" "clusters fs \<le> 128 * unat (fat_size fs)"
    "unat (reserved_sectors fs) + unat (num_fats fs) * unat (fat_size fs) \<le> unat (data_start fs)"
    "unat (data_start fs) + clusters fs * unat (sectors_per_cluster fs) \<le> unat (total_sectors d)"
    "512 * unat (reserved_sectors fs) + 4 * clusters fs < 2 ^ 32"
    "0 < unat (sectors_per_cluster fs)" "unat (sectors_per_cluster fs) < 256"
    "128 * unat (fat_size fs) \<le> 2 ^ 28"
  using assms by (auto simp: fat_wf_def)

lemma fat_wf_cong: "\<lbrakk>fat_wf fs d; disk_ok d'; total_sectors d' = total_sectors d\<rbrakk> \<Longrightarrow> fat_wf fs d'"
  by (simp add: fat_wf_def)

text \<open>Where entries are.\<close>

lemma unat_of_nat_small: "n < 2 ^ 32 \<Longrightarrow> unat (of_nat n :: u32) = n"
  by (simp add: unat_of_nat)

lemma entry_offset:
  fixes c :: u32
  assumes "fat_wf fs d" "unat c < clusters fs"
  shows "unat (c * 4) = 4 * unat c" "unat (c * 4 div 512) = unat c div 128" "unat (c * 4 mod 512) = unat c mod 128 * 4"
proof -
  have "4 * unat c < 2 ^ 32" using fat_wfD(7)[OF assms(1)] assms(2) by linarith
  then show u: "unat (c * 4) = 4 * unat c" by (simp add: unat_word_ariths)
  show "unat (c * 4 div 512) = unat c div 128" by (simp add: unat_div u)
  show "unat (c * 4 mod 512) = unat c mod 128 * 4" using mult_mod_left[of "unat c" 128 4] by (simp add: unat_mod u mult.commute)
qed

lemma fat_sector_unat:
  assumes "fat_wf fs d" "unat c < clusters fs"
  shows "unat (fat_sector fs c) = unat (reserved_sectors fs) + unat c div 128" "unat c div 128 < unat (fat_size fs)"
    "fat_sector fs c = reserved_sectors fs + c * 4 div 512" "unat (fat_sector fs c) < unat (data_start fs)" "fat_sector fs c < total_sectors d"
proof -
  note wf = fat_wfD[OF assms(1)]
  show q: "unat c div 128 < unat (fat_size fs)" using assms(2) wf(4) by (simp add: less_mult_imp_div_less mult.commute)
  have "unat (fat_size fs) \<le> unat (num_fats fs) * unat (fat_size fs)" using wf(3) by simp
  then have l: "unat (reserved_sectors fs) + unat c div 128 < unat (data_start fs)" using q wf(5) by linarith
  then have "unat (reserved_sectors fs) + unat c div 128 < 2 ^ 32" using unat_u32_less[of "data_start fs"] by simp
  then show u: "unat (fat_sector fs c) = unat (reserved_sectors fs) + unat c div 128"
    unfolding fat_sector_def by (subst unat_plus_simple_le) (simp_all add: unat_of_nat_small)
  show "unat (fat_sector fs c) < unat (data_start fs)" using u l by simp
  then show "fat_sector fs c < total_sectors d" using wf(6) by (simp add: word_less_nat_alt)
  have "unat (c * 4 div 512) = unat (of_nat (unat c div 128) :: u32)"
    using entry_offset(2)[OF assms] q unat_u32_less[of "fat_size fs"] by (simp add: unat_of_nat_small)
  then have "c * 4 div 512 = of_nat (unat c div 128)" by (metis unsigned_word_eqI)
  then show "fat_sector fs c = reserved_sectors fs + c * 4 div 512" by (simp add: fat_sector_def)
qed

lemma fat_offset_next:
  assumes "fat_wf fs d" "unat c < clusters fs"
  shows "(reserved_sectors fs * 512 + c * 4) div 512 = fat_sector fs c"
    "unat ((reserved_sectors fs * 512 + c * 4) mod 512) = unat c mod 128 * 4"
proof -
  note wf = fat_wfD[OF assms(1)]
  have "unat (reserved_sectors fs * 512) = 512 * unat (reserved_sectors fs)" using wf(7) by (simp add: unat_word_ariths)
  then have u: "unat (reserved_sectors fs * 512 + c * 4) = 512 * unat (reserved_sectors fs) + 4 * unat c"
    using wf(7) assms(2) entry_offset(1)[OF assms] by (subst unat_plus_simple_le) simp_all
  have "unat ((reserved_sectors fs * 512 + c * 4) div 512) = unat (fat_sector fs c)"
    using fat_sector_unat(1)[OF assms] by (simp add: unat_div u)
  then show "(reserved_sectors fs * 512 + c * 4) div 512 = fat_sector fs c" by (metis unsigned_word_eqI)
  show "unat ((reserved_sectors fs * 512 + c * 4) mod 512) = unat c mod 128 * 4"
    using entry_offset(3)[OF assms] entry_offset(1)[OF assms] by (simp add: unat_mod u)
qed

text \<open>The successor that an entry names.\<close>

definition decode :: "u32 \<Rightarrow> u32 res" where
  "decode e = (if e \<ge> 0x0FFFFFF8 then Done 0 else if e = 0x0FFFFFF7 then Fail ''bad cluster'' else Done (e AND 0x0FFFFFFF))"

lemma next_cluster_spec:
  assumes "fat_wf fs d" "unat c < clusters fs"
  shows "next_cluster fs c d = (decode (fat_entry fs d c), d)"
proof -
  have "\<not> SECTOR_SIZE \<le> unat c mod 128 * 4 + 3" by (simp add: SECTOR_SIZE_def)
  then show ?thesis
    using read_sector_ok[OF fat_wfD(1)[OF assms(1)] fat_sector_unat(5)[OF assms]]
    by (simp add: next_cluster_def Let_def fat_wfD(2)[OF assms(1)] fat_offset_next[OF assms] io_bind_cases(1) decode_def fat_entry_def)
qed

section \<open>Setting an entry\<close>

lemma write_fats_spec:
  assumes "disk_ok d" "length buf = SECTOR_SIZE" "\<And>f. f \<in> set fl \<Longrightarrow> sec + of_nat f * fat_size fs < total_sectors d"
  shows "write_fats fs sec buf fl d =
    (Done (), d\<lparr>sectors := (\<lambda>l. if \<exists>f \<in> set fl. l = sec + of_nat f * fat_size fs then buf else sectors d l)\<rparr>)"
  using assms
proof (induction fl arbitrary: d)
  case (Cons f fl)
  let ?d = "d\<lparr>sectors := (sectors d)(sec + of_nat f * fat_size fs := buf)\<rparr>"
  have "write_sector (sec + of_nat f * fat_size fs) buf d = (Done (), ?d)"
    using write_sector_ok[OF Cons.prems(1)] Cons.prems(3) by simp
  moreover have "write_fats fs sec buf fl ?d =
      (Done (), ?d\<lparr>sectors := (\<lambda>l. if \<exists>f \<in> set fl. l = sec + of_nat f * fat_size fs then buf else sectors ?d l)\<rparr>)"
    using Cons.prems by (intro Cons.IH) auto
  ultimately show ?case by (auto simp: io_bind_cases(1) fun_eq_iff intro!: disk.fold_congs)
qed simp

text \<open>The copies of the sector of an entry lie below the data area, and the first table holds one of them.\<close>

lemma fat_copy_unat:
  assumes "fat_wf fs d" "unat c < clusters fs" "f < unat (num_fats fs)"
  shows "unat (fat_sector fs c + of_nat f * fat_size fs) = unat (fat_sector fs c) + f * unat (fat_size fs)"
    "unat (fat_sector fs c + of_nat f * fat_size fs) < unat (data_start fs)"
proof -
  note wf = fat_wfD[OF assms(1)]
  have "f * unat (fat_size fs) + unat (fat_size fs) \<le> unat (num_fats fs) * unat (fat_size fs)"
    using mult_le_mono1[of "Suc f" "unat (num_fats fs)" "unat (fat_size fs)"] assms(3) by simp
  then have l: "unat (fat_sector fs c) + f * unat (fat_size fs) < unat (data_start fs)"
    using fat_sector_unat(1,2)[OF assms(1,2)] wf(5) by linarith
  have b: "unat (data_start fs) < 2 ^ 32" using unat_u32_less[of "data_start fs"] by simp
  have "f < 2 ^ 32" using assms(3) unat_u32_less[of "num_fats fs"] by simp
  then have "unat (of_nat f * fat_size fs) = f * unat (fat_size fs)"
    using l b by (simp add: unat_word_ariths unat_of_nat)
  then show "unat (fat_sector fs c + of_nat f * fat_size fs) = unat (fat_sector fs c) + f * unat (fat_size fs)"
    using l b by (subst unat_plus_simple_le) simp_all
  then show "unat (fat_sector fs c + of_nat f * fat_size fs) < unat (data_start fs)" using l by simp
qed

lemma fat_copy_first:
  assumes "fat_wf fs d" "unat c < clusters fs" "unat c' < clusters fs" "f < unat (num_fats fs)"
  shows "fat_sector fs c' = fat_sector fs c + of_nat f * fat_size fs \<longleftrightarrow> f = 0 \<and> unat c' div 128 = unat c div 128"
proof
  assume "fat_sector fs c' = fat_sector fs c + of_nat f * fat_size fs"
  then have eq: "unat c' div 128 = unat c div 128 + f * unat (fat_size fs)"
    using fat_copy_unat(1)[OF assms(1,2,4)] fat_sector_unat(1)[OF assms(1,2)] fat_sector_unat(1)[OF assms(1,3)] by simp
  have "f = 0"
  proof (rule ccontr)
    assume "f \<noteq> 0"
    then have "unat (fat_size fs) \<le> f * unat (fat_size fs)" by simp
    then show False using eq fat_sector_unat(2)[OF assms(1,3)] by linarith
  qed
  with eq show "f = 0 \<and> unat c' div 128 = unat c div 128" by simp
next
  assume "f = 0 \<and> unat c' div 128 = unat c div 128"
  then show "fat_sector fs c' = fat_sector fs c + of_nat f * fat_size fs" by (simp add: fat_sector_def)
qed

lemma get_put_u32_other:
  assumes "o1 + 4 \<le> length bs" "o2 + 4 \<le> length bs" "o2 + 4 \<le> o1 \<or> o1 + 4 \<le> o2"
  shows "get_u32 (put_u32 bs o1 v) o2 = get_u32 bs o2"
  using assms get_put_slice_other[of o1 "le_bytes 4 (unat v)" bs o2 4]
  by (simp add: get_u32_def put_u32_def del: le_bytes.simps)

text \<open>Only the entry changes; the data area does not, and all copies of the table get the same sector.\<close>

definition entry_set :: "Fat32Fs \<Rightarrow> u32 \<Rightarrow> u32 \<Rightarrow> disk \<Rightarrow> disk \<Rightarrow> bool" where
  "entry_set fs c v d d' \<longleftrightarrow> fat_wf fs d' \<and> total_sectors d' = total_sectors d \<and>
     (\<forall>c'. unat c' < clusters fs \<longrightarrow> fat_entry fs d' c' = (if c' = c then v AND 0x0FFFFFFF else fat_entry fs d c')) \<and>
     (\<forall>l. data_start fs \<le> l \<longrightarrow> sectors d' l = sectors d l) \<and>
     (\<forall>f < unat (num_fats fs). sectors d' (fat_sector fs c + of_nat f * fat_size fs) = sectors d' (fat_sector fs c))"

lemma set_fat_entry_spec:
  assumes "fat_wf fs d" "unat c < clusters fs"
  shows "\<exists>d'. set_fat_entry fs c v d = (Done (), d') \<and> entry_set fs c v d d'"
proof -
  note wf = fat_wfD[OF assms(1)]
  let ?off = "unat c mod 128 * 4" and ?s = "fat_sector fs c"
  define buf where "buf = put_u32 (sectors d ?s) ?off (v AND 0x0FFFFFFF)"
  define hit where "hit l \<longleftrightarrow> (\<exists>f \<in> set [0..<unat (num_fats fs)]. l = ?s + of_nat f * fat_size fs)" for l
  define d' where "d' = d\<lparr>sectors := (\<lambda>l. if hit l then buf else sectors d l)\<rparr>"
  have off: "?off + 4 \<le> SECTOR_SIZE" "unat x mod 128 * 4 + 4 \<le> SECTOR_SIZE" for x :: u32 by (simp_all add: SECTOR_SIZE_def)
  have len: "length (sectors d l) = SECTOR_SIZE" for l using length_sector[OF wf(1)] .
  then have lenb: "length buf = SECTOR_SIZE" using off by (simp add: buf_def)
  have "?s + of_nat f * fat_size fs < total_sectors d" if "f \<in> set [0..<unat (num_fats fs)]" for f
    using fat_copy_unat(2)[OF assms, of f] that wf(6) by (simp add: word_less_nat_alt)
  from write_fats_spec[where fl = "[0..<unat (num_fats fs)]", OF wf(1) lenb this]
  have w: "write_fats fs ?s buf [0..<unat (num_fats fs)] d = (Done (), d')" by (simp only: d'_def hit_def)
  have "set_fat_entry fs c v d = (Done (), d')"
    using read_sector_ok[OF wf(1) fat_sector_unat(5)[OF assms]] w off(1)
    by (simp add: set_fat_entry_def Let_def wf(2) entry_offset(3)[OF assms] io_bind_cases(1) buf_def not_less flip: fat_sector_unat(3)[OF assms])
  moreover have "entry_set fs c v d d'"
    unfolding entry_set_def
  proof (intro conjI allI impI)
    show "fat_wf fs d'" using assms(1) lenb len wf(1) by (auto simp: fat_wf_def d'_def disk_ok_def)
    show "total_sectors d' = total_sectors d" by (simp add: d'_def)
  next
    fix c' :: u32 assume c': "unat c' < clusters fs"
    have h: "hit (fat_sector fs c') \<longleftrightarrow> unat c' div 128 = unat c div 128"
      using fat_copy_first[OF assms c'] wf(3) by (auto simp: hit_def)
    show "fat_entry fs d' c' = (if c' = c then v AND 0x0FFFFFFF else fat_entry fs d c')"
    proof (cases "c' = c")
      case True
      then show ?thesis using h off len by (simp add: fat_entry_def d'_def buf_def)
    next
      case False
      then have ne: "unat c' div 128 = unat c div 128 \<Longrightarrow> unat c' mod 128 \<noteq> unat c mod 128"
        by (metis div_mult_mod_eq unsigned_word_eqI)
      show ?thesis
      proof (cases "unat c' div 128 = unat c div 128")
        case same: True
        then have s: "fat_sector fs c' = ?s" by (simp add: fat_sector_def)
        have "unat c' mod 128 * 4 + 4 \<le> ?off \<or> ?off + 4 \<le> unat c' mod 128 * 4" using ne[OF same] by linarith
        then have "get_u32 buf (unat c' mod 128 * 4) = get_u32 (sectors d ?s) (unat c' mod 128 * 4)"
          unfolding buf_def using off len by (intro get_put_u32_other) auto
        then show ?thesis using False h same s by (simp add: fat_entry_def d'_def)
      next
        case other: False
        then show ?thesis using False h by (simp add: fat_entry_def d'_def)
      qed
    qed
  next
    fix l assume "data_start fs \<le> l"
    then have "\<not> hit l" using fat_copy_unat(2)[OF assms] by (auto simp: hit_def word_le_nat_alt) (metis not_less)
    then show "sectors d' l = sectors d l" by (simp add: d'_def)
  next
    fix f assume "f < unat (num_fats fs)"
    then have "hit (?s + of_nat f * fat_size fs)" "hit ?s" using wf(3) by (auto simp: hit_def intro: bexI[of _ 0])
    then show "sectors d' (?s + of_nat f * fat_size fs) = sectors d' ?s" by (simp add: d'_def)
  qed
  ultimately show ?thesis by blast
qed

text \<open>
  C20: the file allocation table.  On a volume of consistent geometry \<open>set_fat_entry\<close> stores the low 28
  bits of the value in the entry of the cluster and changes no other entry and nothing
  in the data area; all copies of the table get the same sector; and \<open>next_cluster\<close> then
  reads the value back: the successor, or 0 for an end mark, or an error for the bad
  cluster mark.
\<close>

theorem fat_set_then_next:
  assumes "fat_wf fs d" "unat c < clusters fs"
  shows "\<exists>d'. set_fat_entry fs c v d = (Done (), d') \<and> entry_set fs c v d d' \<and>
    next_cluster fs c d' = (decode (v AND 0x0FFFFFFF), d') \<and>
    (\<forall>c'. unat c' < clusters fs \<and> c' \<noteq> c \<longrightarrow> fst (next_cluster fs c' d') = fst (next_cluster fs c' d))"
proof -
  obtain d' where d': "set_fat_entry fs c v d = (Done (), d')" "entry_set fs c v d d'"
    using set_fat_entry_spec[OF assms] by blast
  have wf: "fat_wf fs d'" using d'(2) by (simp add: entry_set_def)
  have e: "fat_entry fs d' c' = (if c' = c then v AND 0x0FFFFFFF else fat_entry fs d c')" if "unat c' < clusters fs" for c'
    using d'(2) that by (simp add: entry_set_def)
  show ?thesis
    using d' next_cluster_spec[OF wf] next_cluster_spec[OF assms(1)] e assms(2) by (intro exI[of _ d']) auto
qed

text \<open>A volume with one reserved sector, one table of one sector and clusters of one sector.\<close>

definition small_fs :: Fat32Fs where
  "small_fs = \<lparr>bytes_per_sector = 512, sectors_per_cluster = 1, reserved_sectors = 1, num_fats = 1, fat_size = 1,
     root_cluster = 2, data_start = 2, total_clusters = 100\<rparr>"

lemma small_fs_simps [simp]:
  "bytes_per_sector small_fs = 512" "sectors_per_cluster small_fs = 1" "reserved_sectors small_fs = 1" "num_fats small_fs = 1"
  "fat_size small_fs = 1" "data_start small_fs = 2" "total_clusters small_fs = 100"
  by (simp_all add: small_fs_def)

lemma small_fs_wf: "disk_ok d \<Longrightarrow> total_sectors d = 200 \<Longrightarrow> fat_wf small_fs d"
  by (simp add: fat_wf_def)

theorem fat_set_then_next_witness:
  "\<exists>d'. set_fat_entry small_fs 7 0x12345678 (blank_disk 200) = (Done (), d') \<and> next_cluster small_fs 7 d' = (Done 0x02345678, d')"
proof -
  have "unat (7 :: u32) < clusters small_fs" by simp
  from fat_set_then_next[OF small_fs_wf[OF blank_disk_ok] this, of "0x12345678"] show ?thesis
    by (auto simp: decode_def)
qed

section \<open>Finding a free cluster\<close>

definition free_cluster_at :: "Fat32Fs \<Rightarrow> disk \<Rightarrow> nat \<Rightarrow> bool" where
  "free_cluster_at fs d n \<longleftrightarrow> 2 \<le> n \<and> n < clusters fs \<and> fat_entry fs d (of_nat n) AND 0x0FFFFFFF = 0"

lemma scan_split:
  assumes "lo \<le> mid" "mid \<le> hi"
  shows "scan p lo hi = (case scan p lo mid of Some i \<Rightarrow> Some i | None \<Rightarrow> scan p mid hi)"
proof -
  have "[lo..<hi] = [lo..<mid] @ [mid..<hi]" using assms upt_add_eq_append[of lo mid "hi - mid"] by simp
  moreover have "find p (xs @ ys) = (case find p xs of Some i \<Rightarrow> Some i | None \<Rightarrow> find p ys)" for xs ys :: "nat list"
    by (induction xs) auto
  ultimately show ?thesis by (simp add: scan_def cong: option.case_cong)
qed

lemma scan_shift: "scan (\<lambda>i. p (k + i)) 0 n = map_option (\<lambda>i. i - k) (scan p k (k + n))"
proof (cases "scan p k (k + n)")
  case None
  then have "scan (\<lambda>i. p (k + i)) 0 n = None" by (auto simp: scan_None_iff)
  then show ?thesis using None by simp
next
  case (Some j)
  then have "k \<le> j" "j < k + n" "p j" "\<forall>i. k \<le> i \<and> i < j \<longrightarrow> \<not> p i" by (auto simp: scan_Some_iff)
  then have "scan (\<lambda>i. p (k + i)) 0 n = Some (j - k)" by (auto simp: scan_Some_iff less_diff_conv add.commute)
  then show ?thesis using Some by simp
qed

lemma scan_cong: "(\<And>i. lo \<le> i \<Longrightarrow> i < hi \<Longrightarrow> p i = q i) \<Longrightarrow> scan p lo hi = scan q lo hi"
  unfolding scan_def by (rule find_cong) auto


lemma free_in_sector_spec:
  assumes "fat_wf fs d" "k < unat (fat_size fs)"
  shows "free_in_sector fs (of_nat k) (sectors d (reserved_sectors fs + of_nat k)) =
    map_option (\<lambda>c. c - 128 * k) (scan (free_cluster_at fs d) (128 * k) (128 * k + 128))"
proof -
  note wf = fat_wfD[OF assms(1)]
  have eq: "(get_u32 (sectors d (reserved_sectors fs + of_nat k)) (i * 4) AND 0x0FFFFFFF = 0 \<and> 2 \<le> of_nat k * 128 + (of_nat i :: u32) \<and>
      of_nat k * 128 + of_nat i < total_clusters fs) = free_cluster_at fs d (128 * k + i)" if "i < 128" for i
  proof -
    have "128 * k + i < 128 * unat (fat_size fs)" using that assms(2) by linarith
    then have u: "unat (of_nat (128 * k + i) :: u32) = 128 * k + i" using wf(10) by (intro unat_of_nat_small) simp
    have w: "of_nat k * 128 + (of_nat i :: u32) = of_nat (128 * k + i)" by simp
    have "(128 * k + i) div 128 = k" "(128 * k + i) mod 128 = i" using that by auto
    then have "fat_entry fs d (of_nat (128 * k + i)) = get_u32 (sectors d (reserved_sectors fs + of_nat k)) (i * 4)"
      by (simp only: fat_entry_def fat_sector_def u)
    moreover have "unat (2 :: u32) = 2" by simp
    ultimately show ?thesis unfolding free_cluster_at_def w word_less_nat_alt word_le_nat_alt u by auto
  qed
  have "free_in_sector fs (of_nat k) (sectors d (reserved_sectors fs + of_nat k)) = scan (\<lambda>i. free_cluster_at fs d (128 * k + i)) 0 128"
    unfolding free_in_sector_def Let_def wf(2) by simp (rule scan_cong, rule eq, simp)
  also have "\<dots> = map_option (\<lambda>c. c - 128 * k) (scan (free_cluster_at fs d) (128 * k) (128 * k + 128))" by (rule scan_shift)
  finally show ?thesis .
qed

lemma alloc_loop_spec:
  assumes "fat_wf fs d" "k \<le> unat (fat_size fs)"
  shows "alloc_loop fs [k..<unat (fat_size fs)] d =
    (case scan (free_cluster_at fs d) (128 * k) (128 * unat (fat_size fs)) of
       Some n \<Rightarrow> Done (of_nat n) | None \<Rightarrow> Fail ''no free clusters'', d)"
  using assms(2)
proof (induction "unat (fat_size fs) - k" arbitrary: k)
  case 0
  then show ?case by (simp add: scan_def)
next
  case (Suc m)
  note wf = fat_wfD[OF assms(1)]
  have k: "k < unat (fat_size fs)" using Suc by simp
  have "unat (fat_size fs) \<le> unat (num_fats fs) * unat (fat_size fs)" using wf(3) by simp
  then have l: "unat (reserved_sectors fs) + k < unat (data_start fs)" using k wf(5) by linarith
  then have "unat (reserved_sectors fs + of_nat k) = unat (reserved_sectors fs) + k"
    using unat_u32_less[of "data_start fs"] by (subst unat_plus_simple_le) (simp_all add: unat_of_nat_small)
  then have "reserved_sectors fs + of_nat k < total_sectors d" using l wf(6) by (simp add: word_less_nat_alt)
  from read_sector_ok[OF wf(1) this]
  have rd: "read_sector (reserved_sectors fs + of_nat k) d = (Done (sectors d (reserved_sectors fs + of_nat k)), d)" .
  have IH: "alloc_loop fs [Suc k..<unat (fat_size fs)] d =
      (case scan (free_cluster_at fs d) (128 * Suc k) (128 * unat (fat_size fs)) of
         Some n \<Rightarrow> Done (of_nat n) | None \<Rightarrow> Fail ''no free clusters'', d)"
    using Suc.hyps(1)[of "Suc k"] Suc.hyps(2) k by simp
  have up: "[k..<unat (fat_size fs)] = k # [Suc k..<unat (fat_size fs)]" using k by (simp add: upt_conv_Cons)
  have eps: "bytes_per_sector fs div 4 = 128" by (simp add: wf(2))
  have split: "scan (free_cluster_at fs d) (128 * k) (128 * unat (fat_size fs)) =
      (case scan (free_cluster_at fs d) (128 * k) (128 * k + 128) of Some i \<Rightarrow> Some i
       | None \<Rightarrow> scan (free_cluster_at fs d) (128 * Suc k) (128 * unat (fat_size fs)))"
  proof -
    have "128 * Suc k = 128 * k + 128" by simp
    then show ?thesis using k by (simp only:) (rule scan_split, simp_all)
  qed
  show ?case
  proof (cases "scan (free_cluster_at fs d) (128 * k) (128 * k + 128)")
    case None
    then show ?thesis
      using rd IH free_in_sector_spec[OF assms(1) k] unfolding up split by (simp add: io_bind_cases(1) eps)
  next
    case (Some n)
    then have "n = 128 * k + (n - 128 * k)" using scan_SomeD(1)[OF Some] by simp
    then have "of_nat k * 128 + of_nat (n - 128 * k) = (of_nat n :: u32)" by (metis mult.commute of_nat_add of_nat_mult of_nat_numeral)
    then show ?thesis
      using Some rd free_in_sector_spec[OF assms(1) k] unfolding up split by (simp add: io_bind_cases(1) eps)
  qed
qed



section \<open>Freeing a chain\<close>

definition used_entries :: "Fat32Fs \<Rightarrow> disk \<Rightarrow> nat set" where
  "used_entries fs d = {n. n < clusters fs \<and> fat_entry fs d (of_nat n) \<noteq> 0}"

lemma card_used_entries: "card (used_entries fs d) \<le> clusters fs"
proof -
  have "used_entries fs d \<subseteq> {..<clusters fs}" by (auto simp: used_entries_def)
  then have "card (used_entries fs d) \<le> card {..<clusters fs}" by (intro card_mono) auto
  then show ?thesis by simp
qed

lemma used_entries_cleared:
  assumes "entry_set fs c 0 d d'" "unat c < clusters fs" "fat_entry fs d c \<noteq> 0"
  shows "card (used_entries fs d) = Suc (card (used_entries fs d'))"
proof -
  have e: "fat_entry fs d' c' = (if c' = c then 0 else fat_entry fs d c')" if "unat c' < clusters fs" for c'
    using assms(1) that by (simp add: entry_set_def)
  have u: "unat (of_nat n :: u32) = n" if "n < clusters fs" for n
    using that unat_u32_less[of "total_clusters fs"] by (intro unat_of_nat_small) simp
  have "used_entries fs d = insert (unat c) (used_entries fs d')"
    using assms(2,3) u e by (auto simp: used_entries_def) (metis unsigned_word_eqI)+
  moreover have "unat c \<notin> used_entries fs d'" using assms(2) e[of c] by (simp add: used_entries_def)
  moreover have "finite (used_entries fs d')" by (simp add: used_entries_def)
  ultimately show ?thesis by simp
qed

text \<open>What freeing does to the volume: entries become free or stay, the data area stays.\<close>

definition only_frees :: "Fat32Fs \<Rightarrow> disk \<Rightarrow> disk \<Rightarrow> bool" where
  "only_frees fs d d' \<longleftrightarrow> fat_wf fs d' \<and> (\<forall>c. unat c < clusters fs \<longrightarrow> fat_entry fs d' c = fat_entry fs d c \<or> fat_entry fs d' c = 0) \<and>
     (\<forall>l. data_start fs \<le> l \<longrightarrow> sectors d' l = sectors d l)"

lemma only_frees_refl: "fat_wf fs d \<Longrightarrow> only_frees fs d d"
  by (simp add: only_frees_def)

lemma only_frees_set: "entry_set fs c 0 d d' \<Longrightarrow> only_frees fs d d'"
  by (simp add: only_frees_def entry_set_def)

lemma only_frees_trans: "only_frees fs d d' \<Longrightarrow> only_frees fs d' d'' \<Longrightarrow> only_frees fs d d''"
  unfolding only_frees_def by metis

lemma decode_cases:
  obtains "decode e = Fail ''bad cluster''" | n where "decode e = Done n" "n \<noteq> 0 \<Longrightarrow> e \<noteq> 0"
proof -
  have "decode e = Fail ''bad cluster'' \<or> (\<exists>n. decode e = Done n \<and> (n \<noteq> 0 \<longrightarrow> e \<noteq> 0))"
    by (cases "e = 0") (auto simp: decode_def)
  with that show ?thesis by blast
qed

lemma free_chain_ends:
  assumes "fat_wf fs d" "card (used_entries fs d) < fuel"
  shows "\<exists>r d'. free_cluster_chain fuel fs c d = (r, d') \<and> (r = Done () \<or> r = Fail ''bad cluster'') \<and> only_frees fs d d' \<and>
    (2 \<le> c \<and> c < total_clusters fs \<and> r = Done () \<longrightarrow> fat_entry fs d' c = 0)"
  using assms
proof (induction fuel arbitrary: c d)
  case (Suc fuel)
  show ?case
  proof (cases "c < 2 \<or> c \<ge> total_clusters fs")
    case True
    then show ?thesis using only_frees_refl[OF Suc.prems(1)] by auto
  next
    case False
    then have c: "unat c < clusters fs" by (simp add: word_less_nat_alt not_le)
    note nx = next_cluster_spec[OF Suc.prems(1) c]
    show ?thesis
    proof (cases rule: decode_cases[of "fat_entry fs d c"])
      case 1
      then show ?thesis using False nx only_frees_refl[OF Suc.prems(1)] by (simp add: io_bind_cases(2))
    next
      case (2 n)
      obtain d1 where d1: "set_fat_entry fs c 0 d = (Done (), d1)" "entry_set fs c 0 d d1"
        using set_fat_entry_spec[OF Suc.prems(1) c] by blast
      have wf1: "fat_wf fs d1" and z: "fat_entry fs d1 c = 0" using d1(2) c by (simp_all add: entry_set_def)
      have step: "free_cluster_chain (Suc fuel) fs c d = (if n = 0 \<or> n \<ge> 0x0FFFFFF8 then (Done (), d1) else free_cluster_chain fuel fs n d1)"
        using False nx 2(1) d1(1) by (simp add: io_bind_def free_cluster_def)
      show ?thesis
      proof (cases "n = 0 \<or> n \<ge> 0x0FFFFFF8")
        case True
        then show ?thesis using step z only_frees_set[OF d1(2)] by simp
      next
        case go: False
        have "card (used_entries fs d1) < fuel" using used_entries_cleared[OF d1(2) c] 2(2) go Suc.prems(2) by simp
        from Suc.IH[OF wf1 this, of n] obtain r d' where r: "free_cluster_chain fuel fs n d1 = (r, d')" "r = Done () \<or> r = Fail ''bad cluster''"
          "only_frees fs d1 d'" by blast
        have "fat_entry fs d' c = 0" using r(3) z c by (auto simp: only_frees_def)
        then show ?thesis using step go r only_frees_trans[OF only_frees_set[OF d1(2)]] by auto
      qed
    qed
  qed
qed simp

text \<open>
  C22: freeing a cluster chain terminates on every volume of consistent geometry, also when its
  chains are cyclic or cross: since every turn clears an entry, as many turns as there are clusters
  and one more are enough.  It succeeds or stops at a bad cluster mark, it frees the first cluster,
  and otherwise entries only become free and the data area is not touched.
\<close>

theorem free_cluster_chain_terminates:
  assumes "fat_wf fs d" "clusters fs < fuel"
  shows "\<exists>r d'. free_cluster_chain fuel fs c d = (r, d') \<and> (r = Done () \<or> r = Fail ''bad cluster'') \<and> only_frees fs d d' \<and>
    (2 \<le> c \<and> c < total_clusters fs \<and> r = Done () \<longrightarrow> fat_entry fs d' c = 0)"
  using free_chain_ends[OF assms(1), of fuel c] card_used_entries[of fs d] assms(2) by simp

theorem free_cluster_chain_terminates_witness:
  "\<exists>r d'. free_cluster_chain 101 small_fs 5 (blank_disk 200) = (r, d') \<and> (r = Done () \<or> r = Fail ''bad cluster'') \<and>
    only_frees small_fs (blank_disk 200) d'"
  using free_cluster_chain_terminates[OF small_fs_wf[OF blank_disk_ok], of 101 5] by auto

end
