(* ===== verification/Fat32_Files.thy ===== *)
theory Fat32_Files
  imports Fat32_Table
begin

text \<open>Files of a FAT32 volume: the contents of clusters, reading along a chain, and deleting an entry.\<close>

abbreviation spc :: "Fat32Fs \<Rightarrow> nat" where "spc fs \<equiv> unat (sectors_per_cluster fs)"

definition cluster_data :: "Fat32Fs \<Rightarrow> disk \<Rightarrow> u32 \<Rightarrow> u8 list" where
  "cluster_data fs d c = span (sectors d) (first_sector fs c) (spc fs)"

lemma first_sector_unat:
  assumes "fat_wf fs d" "2 \<le> c" "unat c < clusters fs"
  shows "unat (first_sector fs c) = unat (data_start fs) + (unat c - 2) * spc fs"
    "unat (first_sector fs c) + spc fs \<le> unat (total_sectors d)"
proof -
  note wf = fat_wfD[OF assms(1)]
  have c: "2 \<le> unat c" using assms(2) by (simp add: word_le_nat_alt)
  have "(unat c - 2) * spc fs + spc fs \<le> clusters fs * spc fs"
  proof -
    have "Suc (unat c - 2) \<le> clusters fs" using assms(3) c by linarith
    from mult_le_mono1[OF this, of "spc fs"] show ?thesis by (simp add: add.commute)
  qed
  then have l: "unat (data_start fs) + (unat c - 2) * spc fs + spc fs \<le> unat (total_sectors d)" using wf(6) by linarith
  have b: "unat (total_sectors d) < 2 ^ 32" using unat_u32_less[of "total_sectors d"] by simp
  have "unat (c - 2) = unat c - 2" using assms(2) by (simp add: unat_sub)
  then have "unat ((c - 2) * sectors_per_cluster fs) = (unat c - 2) * spc fs mod 2 ^ 32" by (simp only: unat_word_ariths(2)) simp
  then have m: "unat ((c - 2) * sectors_per_cluster fs) = (unat c - 2) * spc fs" using l b by simp
  then show u: "unat (first_sector fs c) = unat (data_start fs) + (unat c - 2) * spc fs"
    unfolding first_sector_def using l b by (subst unat_plus_simple_le) simp_all
  show "unat (first_sector fs c) + spc fs \<le> unat (total_sectors d)" using u l by simp
qed

lemma cluster_bytes:
  assumes "fat_wf fs d"
  shows "unat (sectors_per_sector fs * of_nat SECTOR_SIZE) = spc fs * SECTOR_SIZE" "unat (cluster_size fs) = spc fs * SECTOR_SIZE"
    "0 < spc fs * SECTOR_SIZE"
proof -
  have "spc fs * 512 < 2 ^ 32" using fat_wfD(9)[OF assms] by simp
  then have "unat (sectors_per_cluster fs * 512) = spc fs * 512" by (simp add: unat_word_ariths)
  then show "unat (sectors_per_sector fs * of_nat SECTOR_SIZE) = spc fs * SECTOR_SIZE" "unat (cluster_size fs) = spc fs * SECTOR_SIZE"
    by (simp_all add: sectors_per_sector_def cluster_size_def SECTOR_SIZE_def fat_wfD(2)[OF assms])
  show "0 < spc fs * SECTOR_SIZE" using fat_wfD(8)[OF assms] by (simp add: SECTOR_SIZE_def)
qed

lemma length_cluster_data: "fat_wf fs d \<Longrightarrow> length (cluster_data fs d c) = spc fs * SECTOR_SIZE"
  unfolding cluster_data_def by (rule length_span) (simp add: length_sector fat_wfD(1))

lemma read_cluster_spec:
  assumes "fat_wf fs d" "2 \<le> c" "unat c < clusters fs" "length buf = spc fs * SECTOR_SIZE"
  shows "read_cluster fs c buf d = (Done (cluster_data fs d c), d)"
proof -
  have "\<not> c < 2" using assms(2) by simp
  obtain d' where d': "rd_each read_sector (first_sector fs c) [0..<spc fs] buf d = (Done (cluster_data fs d c @ drop (spc fs * SECTOR_SIZE) buf), d')"
    "sectors d' = sectors d" "total_sectors d' = total_sectors d"
    using drive.rd_each_spec[OF fat_wfD(1)[OF assms(1)] first_sector_unat(2)[OF assms(1-3)], of buf] assms(4)
    unfolding cluster_data_def by auto
  have "snd (rd_each read_sector a is b d) = d" for a "is" b
    by (induction "is" arbitrary: b) (auto simp: io_bind_def read_sector_def split: prod.splits res.splits option.splits)
  then have "d' = d" using d'(1) by (metis snd_conv)
  then show ?thesis using d'(1) assms(4) \<open>\<not> c < 2\<close> cluster_bytes(1)[OF assms(1)] by (simp add: read_cluster_def)
qed

text \<open>A chain of clusters: every entry names the next cluster, the last one holds an end mark.\<close>

fun fat_chain :: "Fat32Fs \<Rightarrow> disk \<Rightarrow> u32 list \<Rightarrow> bool" where
  "fat_chain fs d [] = False"
| "fat_chain fs d [c] \<longleftrightarrow> 2 \<le> c \<and> unat c < clusters fs \<and> fat_entry fs d c \<ge> 0x0FFFFFF8"
| "fat_chain fs d (c # c' # cs) \<longleftrightarrow> 2 \<le> c \<and> unat c < clusters fs \<and> fat_entry fs d c = c' \<and> fat_chain fs d (c' # cs)"

lemma fat_chain_hd: "fat_chain fs d (c # cs) \<Longrightarrow> 2 \<le> c \<and> unat c < clusters fs"
  by (cases cs) auto

lemma decode_link:
  assumes "2 \<le> c" "c < 0x0FFFFFF7"
  shows "decode c = Done c"
proof -
  have "c AND 0x0FFFFFFF = c"
  proof -
    have "c AND 0x0FFFFFFF = c AND mask 28" by (simp add: mask_eq_exp_minus_1)
    also have "\<dots> = take_bit 28 c" by (simp add: take_bit_eq_mask)
    also have "\<dots> = c" using assms(2) by (intro unsigned_word_eqI[where ?'a = nat]) (simp add: unsigned_take_bit_eq take_bit_nat_eq_self word_less_nat_alt)
    finally show ?thesis .
  qed
  moreover have "\<not> c \<ge> 0x0FFFFFF8" "c \<noteq> 0x0FFFFFF7" using assms(2) by (auto simp: word_le_nat_alt word_less_nat_alt)
  ultimately show ?thesis by (simp add: decode_def)
qed

text \<open>From offset \<open>off\<close> on, with the clusters \<open>cs\<close> left.\<close>

lemma fat32_read_loop_spec:
  assumes "fat_wf fs d" "fat_chain fs d cs" "clusters fs \<le> 0x0FFFFFF7" "length cs < fuel" "length cb = spc fs * SECTOR_SIZE"
    "off \<le> min (unat sz) (length buf)"
  shows "fat32_read_loop fuel fs (hd cs) sz off cb buf d =
    (let n = min (min (unat sz) (length buf) - off) (length cs * (spc fs * SECTOR_SIZE)) in
     (Done (off + n, put_slice buf off (take n (concat (map (cluster_data fs d) cs)))), d))"
  using assms(2,4-)
proof (induction cs arbitrary: fuel cb buf off)
  case (Cons c cs)
  let ?B = "spc fs * SECTOR_SIZE"
  let ?want = "min (unat sz) (length buf)"
  obtain fuel' where fuel: "fuel = Suc fuel'" using Cons.prems(2) by (cases fuel) auto
  show ?case
  proof (cases "off < ?want")
    case False
    then have "off = ?want" using Cons.prems(4) by linarith
    moreover have stop: "\<not> (off < length buf \<and> off < unat sz)" using False by auto
    ultimately show ?thesis unfolding fuel list.sel fat32_read_loop.simps(2) if_not_P[OF stop] by (simp add: Let_def)
  next
    case True
    note c = fat_chain_hd[OF Cons.prems(1)]
    define t where "t = min (?want - off) ?B"
    have len: "length (cluster_data fs d x) = ?B" for x by (rule length_cluster_data[OF assms(1)])
    have t: "min (min (unat sz - off) (length (cluster_data fs d c))) (length buf - off) = t" by (simp add: t_def len min_def)
    define buf' where "buf' = put_slice buf off (take t (cluster_data fs d c))"
    have lt: "length (take t (cluster_data fs d c)) = t" "off + t \<le> length buf" using True by (auto simp: len t_def)
    have lb: "length buf' = length buf" using lt by (simp add: buf'_def)
    have step: "fat32_read_loop fuel fs c sz off cb buf d = io_bind (next_cluster fs c) (\<lambda>next.
        if next = 0 then io_ret (off + t, buf') else fat32_read_loop fuel' fs next sz (off + t) (cluster_data fs d c) buf') d"
    proof -
      have go: "off < length buf \<and> off < unat sz" using True by auto
      note rc = read_cluster_spec[OF assms(1) conjunct1[OF c] conjunct2[OF c] Cons.prems(3)]
      show ?thesis
        unfolding fuel fat32_read_loop.simps(2) if_P[OF go] io_bind_cases(1)[of "read_cluster fs c cb" d, OF rc] Let_def t buf'_def ..
    qed
    note nx = next_cluster_spec[OF assms(1) conjunct2[OF c]]
    show ?thesis
    proof (cases cs)
      case Nil
      then have "decode (fat_entry fs d c) = Done 0" using Cons.prems(1) by (simp add: decode_def)
      then show ?thesis using step nx Nil by (simp add: io_bind_cases(1) Let_def t_def buf'_def)
    next
      case (Cons c' cs')
      then have c': "fat_entry fs d c = c'" "fat_chain fs d cs" using \<open>fat_chain fs d (c # cs)\<close> by simp_all
      have "2 \<le> c'" "unat c' < clusters fs" using fat_chain_hd c'(2) Cons by blast+
      moreover have "c' < 0x0FFFFFF7" using calculation(2) assms(3) by (simp add: word_less_nat_alt)
      ultimately have dc: "decode c' = Done c'" by (intro decode_link)
      have nz: "c' \<noteq> 0" using \<open>2 \<le> c'\<close> by (auto simp: word_le_nat_alt)
      define rest where "rest = concat (map (cluster_data fs d) cs)"
      define n where "n = min (?want - (off + t)) (length cs * ?B)"
      have "off + t \<le> min (unat sz) (length buf')" using True by (auto simp: lb t_def)
      then have IH: "fat32_read_loop fuel' fs c' sz (off + t) (cluster_data fs d c) buf' d =
          (Done (off + t + n, put_slice buf' (off + t) (take n rest)), d)"
        using Cons.IH[OF c'(2) _ len, of fuel' "off + t" buf'] Cons.prems(2) fuel Cons by (simp add: Let_def lb n_def rest_def)
      have lr: "length rest = length cs * ?B" by (simp add: rest_def length_concat comp_def len sum_list_triv)
      have n': "min (?want - off) (length (c # cs) * ?B) = t + n"
        by (auto simp: t_def n_def min_def)
      have "take (t + n) (cluster_data fs d c @ rest) = take t (cluster_data fs d c) @ take n rest"
      proof (cases "t = ?B")
        case True
        then show ?thesis by (simp add: len)
      next
        case False
        then have "n = 0" by (auto simp: t_def n_def min_def split: if_splits)
        then show ?thesis by (simp add: len t_def)
      qed
      moreover have "put_slice buf' (off + t) (take n rest) = put_slice buf off (take t (cluster_data fs d c) @ take n rest)"
        using put_slice_append[of off "take t (cluster_data fs d c)" "take n rest" buf] lt lr by (simp add: buf'_def n_def)
      ultimately show ?thesis
        using step nx c'(1) dc nz IH unfolding n' by (simp add: io_bind_cases(1) Let_def rest_def)
    qed
  qed
qed simp

text \<open>
  C21: reading a FAT32 file.  On a volume of consistent geometry, reading a file whose clusters are the
  chain \<open>cs\<close> returns, with more fuel than clusters, the first bytes of the concatenation of the
  chain's clusters: as many as the file's size, the buffer and the chain allow; the
  rest of the buffer and the drive are not changed.
\<close>

theorem fat32_read_follows_chain:
  assumes "fat_wf fs d" "fat_chain fs d cs" "clusters fs \<le> 0x0FFFFFF7" "length cs < fuel"
    "n = min (min (unat sz) (length buf)) (length cs * (unat (sectors_per_cluster fs) * SECTOR_SIZE))"
  shows "fat32_read_file_data fuel fs (hd cs) sz buf d =
    (Done (n, take n (concat (map (cluster_data fs d) cs)) @ drop n buf), d)"
proof -
  have "length (take n (concat (map (cluster_data fs d) cs))) = n"
    using length_cluster_data[OF assms(1)] by (simp add: assms(5) length_concat comp_def sum_list_triv)
  then show ?thesis
    using fat32_read_loop_spec[OF assms(1-4), of "replicate (spc fs * SECTOR_SIZE) 0" 0 sz buf] assms(5)
    by (simp add: fat32_read_file_data_def cluster_bytes(1)[OF assms(1)] put_slice_def Let_def)
qed

text \<open>A volume whose root directory, cluster 2, is a chain of one cluster.\<close>

definition small_volume :: disk where
  "small_volume = (blank_disk 200)\<lparr>sectors := (sectors (blank_disk 200))(1 := put_u32 (replicate SECTOR_SIZE 0) 8 0x0FFFFFF8)\<rparr>"

lemma small_volume_wf: "fat_wf small_fs small_volume"
proof (rule small_fs_wf)
  have "length (put_u32 (replicate SECTOR_SIZE 0) 8 0x0FFFFFF8) = SECTOR_SIZE" by (subst length_put_uint(2)) (simp_all add: SECTOR_SIZE_def)
  then show "disk_ok small_volume" unfolding small_volume_def by (intro disk_ok_write blank_disk_ok)
  show "total_sectors small_volume = 200" by (simp add: small_volume_def)
qed

lemma small_volume_chain: "fat_chain small_fs small_volume [2]"
proof -
  have "get_u32 (put_u32 (replicate SECTOR_SIZE 0) 8 0x0FFFFFF8) 8 = 0x0FFFFFF8" by (rule get_put_u32_same) (simp add: SECTOR_SIZE_def)
  then have "fat_entry small_fs small_volume 2 = 0x0FFFFFF8"
    unfolding fat_entry_def fat_sector_def small_volume_def by simp
  then show ?thesis by simp
qed

theorem fat32_read_follows_chain_witness:
  "fat32_read_file_data 2 small_fs 2 4 [9, 9, 9, 9, 9, 9] small_volume = (Done (4, [0, 0, 0, 0, 9, 9]), small_volume)"
proof -
  have "sectors small_volume 2 = replicate SECTOR_SIZE 0" by (simp add: small_volume_def blank_disk_def)
  then have data: "concat (map (cluster_data small_fs small_volume) [2]) = replicate SECTOR_SIZE 0"
    by (simp add: cluster_data_def span_def first_sector_def)
  have "min 4 SECTOR_SIZE = Suc (Suc (Suc (Suc 0)))" by (simp add: SECTOR_SIZE_def)
  then have zeros: "take 4 (replicate SECTOR_SIZE (0 :: u8)) = [0, 0, 0, 0]" by (simp only: take_replicate replicate.simps)
  have rest: "drop 4 [9 :: u8, 9, 9, 9, 9, 9] = [9, 9]" by simp
  have n: "4 = min (min (unat (4 :: u32)) (length [9 :: u8, 9, 9, 9, 9, 9])) (length [2 :: u32] * (unat (sectors_per_cluster small_fs) * SECTOR_SIZE))"
    by (simp add: SECTOR_SIZE_def)
  have "clusters small_fs \<le> 0x0FFFFFF7" "length [2 :: u32] < 2" by simp_all
  from fat32_read_follows_chain[OF small_volume_wf small_volume_chain this n]
  show ?thesis unfolding data zeros rest list.sel append.simps .
qed

end
