(* ===== verification/Fat32_Delete.thy ===== *)
theory Fat32_Delete
  imports Fat32_Files
begin

text \<open>Deleting a directory entry of a FAT32 volume, and the clusters it frees.\<close>

lemma length_padded_sector: "length (padded_sector data to_write offset) = SECTOR_SIZE"
proof -
  have "length (get_slice data offset (min (offset + SECTOR_SIZE) to_write - offset)) \<le> SECTOR_SIZE" by (simp add: get_slice_def)
  then show ?thesis by (simp add: padded_sector_def)
qed

lemma write_cluster_loop_spec:
  assumes "disk_ok d" "\<And>s. s \<in> set ss \<Longrightarrow> start + of_nat s < total_sectors d"
  shows "\<exists>d'. write_cluster_loop start data tw ss d = (Done (), d') \<and> disk_ok d' \<and> total_sectors d' = total_sectors d \<and>
    (\<forall>l. l \<notin> (\<lambda>s. start + of_nat s) ` set ss \<longrightarrow> sectors d' l = sectors d l)"
  using assms
proof (induction ss arbitrary: d)
  case (Cons s ss)
  let ?d = "d\<lparr>sectors := (sectors d)(start + of_nat s := padded_sector data tw (s * SECTOR_SIZE))\<rparr>"
  have w: "write_sector (start + of_nat s) (padded_sector data tw (s * SECTOR_SIZE)) d = (Done (), ?d)"
    using Cons.prems by (intro write_sector_ok) auto
  have "disk_ok ?d" using Cons.prems(1) by (simp add: length_padded_sector)
  with Cons.IH[of ?d] Cons.prems(2) obtain d' where "write_cluster_loop start data tw ss ?d = (Done (), d')" "disk_ok d'"
    "total_sectors d' = total_sectors d" "\<forall>l. l \<notin> (\<lambda>s. start + of_nat s) ` set ss \<longrightarrow> sectors d' l = sectors ?d l" by auto
  then show ?case using w by (auto simp: io_bind_cases(1))
qed simp

text \<open>Writing a cluster leaves the table alone.\<close>

lemma write_cluster_keeps_fat:
  assumes "fat_wf fs d" "2 \<le> c" "unat c < clusters fs"
  shows "\<exists>d'. write_cluster fs c data d = (Done (), d') \<and> fat_wf fs d' \<and> (\<forall>c'. unat c' < clusters fs \<longrightarrow> fat_entry fs d' c' = fat_entry fs d c')"
proof -
  note u = first_sector_unat[OF assms]
  have s: "unat (first_sector fs c + of_nat i) = unat (first_sector fs c) + i" if "i < spc fs" for i
    by (rule unat_start_plus[OF u(2) that])
  have "first_sector fs c + of_nat i < total_sectors d" if "i \<in> set [0..<spc fs]" for i
    using s[of i] u(2) that by (simp add: word_less_nat_alt)
  then obtain d' where d': "write_cluster fs c data d = (Done (), d')" "disk_ok d'" "total_sectors d' = total_sectors d"
    "\<forall>l. l \<notin> (\<lambda>s. first_sector fs c + of_nat s) ` set [0..<spc fs] \<longrightarrow> sectors d' l = sectors d l"
    using write_cluster_loop_spec[OF fat_wfD(1)[OF assms(1)], of "[0..<spc fs]" "first_sector fs c"] unfolding write_cluster_def by blast
  have "fat_entry fs d' c' = fat_entry fs d c'" if "unat c' < clusters fs" for c'
  proof -
    have "fat_sector fs c' \<notin> (\<lambda>s. first_sector fs c + of_nat s) ` set [0..<spc fs]"
    proof
      assume "fat_sector fs c' \<in> (\<lambda>s. first_sector fs c + of_nat s) ` set [0..<spc fs]"
      then obtain i where "i < spc fs" "fat_sector fs c' = first_sector fs c + of_nat i" by auto
      then show False using fat_sector_unat(4)[OF assms(1) that] s[of i] u(1) by simp
    qed
    then show ?thesis using d'(4) by (simp add: fat_entry_def)
  qed
  then show ?thesis using d' fat_wf_cong[OF assms(1)] by blast
qed

lemma nth_of_prefix: "take n xs = ys \<Longrightarrow> i < n \<Longrightarrow> i < length ys \<Longrightarrow> xs ! i = ys ! i"
  by (metis nth_take)

lemma slice_of_prefix: "take n xs = ys \<Longrightarrow> off + k \<le> n \<Longrightarrow> get_slice xs off k = get_slice ys off k"
  by (auto simp: get_slice_def drop_take)

lemma length_to_8_3: "to_8_3 name = (sn, se) \<Longrightarrow> length sn = 8 \<and> length se = 3"
  by (auto simp: to_8_3_def Let_def put_slice_def split: if_splits)

lemma deleted_cluster_of_entry:
  assumes "take 32 cb = dir_entry sn se dir fc" "length sn = 8" "length se = 3" "unat fc < 65536"
  shows "deleted_cluster cb 0 = of_nat (unat fc mod 256)"
proof -
  have z: "drop_bit 16 fc = 0" using assms(4) by (intro unsigned_word_eqI[where ?'a = nat]) (simp add: unat_drop_bit_eq drop_bit_eq_div unat_div)
  have m: "unat (fc AND 0xFFFF) = unat fc"
  proof -
    have "fc AND 0xFFFF = take_bit 16 fc" by (simp add: take_bit_eq_mask mask_eq_exp_minus_1)
    then show ?thesis using assms(4) by (simp add: unsigned_take_bit_eq take_bit_nat_eq_self)
  qed
  define pre where "pre = sn @ se @ [if dir then 0x10 else 0x20 :: u8] @ replicate 8 0"
  define mid where "mid = pre @ le_bytes 2 0 @ replicate 4 0"
  have len: "length pre = 20" "length mid = 26" "length (dir_entry sn se dir fc) = 32"
    using assms(2,3) by (simp_all add: pre_def mid_def dir_entry_def del: le_bytes.simps)
  have le: "le_bytes 2 v = of_nat v # [of_nat (v div 256)]" for v by (simp add: numeral_2_eq_2)
  have e: "dir_entry sn se dir fc = pre @ le_bytes 2 0 @ replicate 4 0 @ le_bytes 2 (unat fc) @ replicate 4 0"
    by (simp only: dir_entry_def z m pre_def append_assoc unat_0)
  have "dir_entry sn se dir fc ! 20 = 0" unfolding e le using nth_append_length[of pre] by (simp add: len(1))
  moreover have "dir_entry sn se dir fc = mid @ of_nat (unat fc) # [of_nat (unat fc div 256)] @ replicate 4 0"
    unfolding e mid_def le[of "unat fc"] by (simp only: append_assoc append.simps)
  then have "dir_entry sn se dir fc ! 26 = of_nat (unat fc)" using nth_append_length[of mid] by (simp only: len(2))
  ultimately have "cb ! 20 = 0" "cb ! 26 = of_nat (unat fc)"
    using nth_of_prefix[OF assms(1), of 20] nth_of_prefix[OF assms(1), of 26] len(3) by simp_all
  moreover have "(ucast (of_nat (unat fc) :: u8) :: u32) = of_nat (unat fc mod 256)"
  proof (rule unsigned_word_eqI[where ?'a = nat])
    have "unat (ucast (of_nat (unat fc) :: u8) :: u32) = unat (of_nat (unat fc) :: u8)" 
      using unat_bound[of "of_nat (unat fc) :: u8"] by (simp add: unsigned_ucast_eq take_bit_nat_eq_self unsigned_take_bit_eq)
    then show "unat (ucast (of_nat (unat fc) :: u8) :: u32) = unat (of_nat (unat fc mod 256) :: u32)"
      by (simp only: unat_of_nat_u8) (simp add: unat_of_nat_small)
  qed
  ultimately show ?thesis by (simp add: deleted_cluster_def)
qed


text \<open>A volume where the file A.TXT starts at cluster 261 and cluster 5 ends the chain of another file.\<close>

definition wide_fs :: Fat32Fs where
  "wide_fs = \<lparr>bytes_per_sector = 512, sectors_per_cluster = 1, reserved_sectors = 1, num_fats = 1, fat_size = 3,
     root_cluster = 2, data_start = 4, total_clusters = 300\<rparr>"

definition wide_volume :: disk where
  "wide_volume = (blank_disk 400)\<lparr>sectors := (\<lambda>_. replicate SECTOR_SIZE 0)(
     1 := put_u32 (replicate SECTOR_SIZE 0) 20 0x0FFFFFF8, 3 := put_u32 (replicate SECTOR_SIZE 0) 20 0x0FFFFFF8,
     4 := dir_entry [0x41, 0x20, 0x20, 0x20, 0x20, 0x20, 0x20, 0x20] [0x54, 0x58, 0x54] False 261 @ replicate 480 0)\<rparr>"

lemma wide_volume_sector_sizes: "length (sectors wide_volume l) = SECTOR_SIZE"
proof -
  have "length (put_u32 (replicate SECTOR_SIZE 0) 20 0x0FFFFFF8) = SECTOR_SIZE" by (subst length_put_uint(2)) (simp_all add: SECTOR_SIZE_def)
  moreover have "length (dir_entry [0x41, 0x20, 0x20, 0x20, 0x20, 0x20, 0x20, 0x20] [0x54, 0x58, 0x54] False 261 @ replicate 480 0) = SECTOR_SIZE"
    by (simp add: dir_entry_def SECTOR_SIZE_def)
  ultimately show ?thesis unfolding wide_volume_def by simp
qed

lemma wide_volume_wf: "fat_wf wide_fs wide_volume"
proof -
  have "disk_ok wide_volume" using wide_volume_sector_sizes by (simp add: disk_ok_def) (simp add: wide_volume_def blank_disk_def)
  moreover have "total_sectors wide_volume = 400" by (simp add: wide_volume_def)
  ultimately show ?thesis by (simp add: fat_wf_def wide_fs_def)
qed


end
