(* ===== verification/Spec2Isabelle.thy ===== *)
theory Spec2Isabelle
  imports Events Workqueue Spinlock Dmesg Stats Frame Heap Vfs Ramfs Fd_Table Elf Paging Page_Walk Task Scheduler
    Usercopy Disk Bcache Zohfs Zohfs_Files Fat32 Fat32_Table Fat32_Files Fat32_Delete
begin

text \<open>
  A verification development for Zohara OS, a bare-metal kernel in Rust (\<open>src/src\<close>).

  \<^bold>\<open>The program.\<close>  The kernel boots on x86-64 or AArch64, sizes and manages physical memory
  (\<open>frame.rs\<close>, \<open>heap.rs\<close>, \<open>allocator.rs\<close>), builds page tables (\<open>arch/x86_64/paging.rs\<close>), runs kernel and
  user tasks under a round-robin scheduler driven by the timer interrupt (\<open>task.rs\<close>, \<open>timer.rs\<close>), loads
  ELF images (\<open>elf.rs\<close>, \<open>elf_builder.rs\<close>), copies data between kernel and user memory
  (\<open>usercopy.rs\<close>), and stores files in memory (\<open>fs/mod.rs\<close>, \<open>fs/ramfs.rs\<close>) and on disk
  (\<open>fs/zohfs.rs\<close> over the sector cache \<open>fs/bcache.rs\<close> over \<open>drivers/ide.rs\<close>; \<open>fs/fat32.rs\<close> over the driver).
  Interrupt handlers hand work to the main loop through rings (\<open>events.rs\<close>, \<open>workqueue.rs\<close>), shared
  state is protected by a ticket lock (\<open>spinlock.rs\<close>), and messages are kept in a log ring (\<open>dmesg.rs\<close>).

  \<^bold>\<open>How the code is modelled.\<close>  A static or struct is a record, an enum a datatype, an operation a
  function from the state to its result and the next state.  Machine integers are words
  and wrap around, as in the release build the kernel is made with.  An error is a value, a
  panic is \<open>Panic\<close> (or \<open>Crash\<close> for disk operations), a loop that need not end is a
  \<open>partial_function\<close> whose value is then \<open>None\<close>, or takes fuel and is \<open>Hang\<close> without enough.  Concurrency
  and interrupts are step relations.

  \<^bold>\<open>The theories.\<close>
  \<^item> \<open>Prelude\<close>, \<open>Bytes\<close>: integers, slices, little-endian encoding, linear search, byte strings.
  \<^item> \<open>Ring_Queue\<close> (the interface of bounded rings, a locale), \<open>Events\<close>, \<open>Workqueue\<close>: \<open>events.rs\<close> and
    \<open>workqueue.rs\<close>, which interpret it; the rings are lossless first-in first-out queues.
  \<^item> \<open>Spinlock\<close>: \<open>spinlock.rs\<close> as atomic steps of interleaved threads; mutual exclusion, refinement
    of a queue lock, progress.
  \<^item> \<open>Dmesg\<close>, \<open>Stats\<close>: the log ring and the counters.
  \<^item> \<open>Frame\<close>, \<open>Heap\<close>: the physical frame bitmap and the kernel heap; no frame or block is handed out
    twice, counts are exact.
  \<^item> \<open>Vfs\<close>, \<open>Ramfs\<close>, \<open>Fd_Table\<close>: files in memory, path resolution and descriptors.
  \<^item> \<open>Elf\<close>: the parser, exact on all inputs, and the builder, whose images parse back.
  \<^item> \<open>Paging\<close>, \<open>Page_Walk\<close>: the x86-64 page-table code and its refinement of the address translation
    that the processor's table walk defines.
  \<^item> \<open>Task\<close>, \<open>Scheduler\<close>: tasks, their initial stack frames, sleeping, the timer handler and exit;
    round robin, one running task, bounded waiting, reclamation.
  \<^item> \<open>Usercopy\<close>: the checked copies, exact with respect to the translation.
  \<^item> \<open>Disk\<close> (the driver's sector operations and the interface of sector stores, a locale), \<open>Bcache\<close>
    (the cache, which interprets the same interface and is transparent), \<open>Zohfs\<close>, \<open>Zohfs_Files\<close> (the file
    system and its file data),
    \<open>Fat32\<close>, \<open>Fat32_Table\<close>, \<open>Fat32_Files\<close>, \<open>Fat32_Delete\<close> (the FAT32 driver, its allocation table reading along chains, and what deleting a file frees).

  \<^bold>\<open>Parameters and bounds.\<close>  Physical memory, the processor's table walk and registers and the contents
  and reported errors of a drive are part of the modelled state; kernel stacks are a function
  from task numbers to addresses.  Memory that the code reads past the end of a buffer
  (\<open>beyond\<close> in \<open>Zohfs\<close>) is an argument.  The spinlock results hold for fewer than \<open>2 ^ 32\<close> threads, the number
  of distinct tickets.  Loops along a FAT chain take fuel: more than the number
  of clusters is enough to free any chain, and more than the length of a chain to read along it.

  \<^bold>\<open>Not modelled.\<close>  Device programming whose effect is in hardware (interrupt controllers, UART, VGA
  and framebuffer output, ACPI, AHCI, IDE port protocol, SMP start-up, assembly stubs), the interactive shell
  and the test programs, which only call what is modelled and print.
\<close>

end
